(* ===== verification/Prelude.thy ===== *)
theory Prelude
  imports Main "HOL-Library.Word"
begin

text \<open>
  Shared vocabulary of the development: the machine types of the AArch64 kernel
  (bytes, 64-bit addresses and sizes, a flat byte-addressed memory), little-endian
  multi-byte loads and stores, memory regions by modular distance, and the generic
  lemmas on them that the component theories use. All C objects that the kernel
  reaches through pointers live in one memory of type \<open>memory\<close>; scalar
  globals are fields of the component records.
\<close>

unbundle bit_operations_syntax

section \<open>Machine types\<close>

type_synonym byte = "8 word"
type_synonym addr = "64 word"
type_synonym u32 = "32 word"
type_synonym u64 = "64 word"
type_synonym memory = "addr \<Rightarrow> byte"

text \<open>
  Collections: \<open>mem_simps\<close> holds the frame rules that read a part of memory after a
  write elsewhere; \<open>region_simps\<close> unfolds region membership.
\<close>

named_theorems mem_simps
named_theorems region_simps

section \<open>Regions\<close>

text \<open>
  The \<open>n\<close> bytes from address \<open>a\<close> on, wrapping around at \<open>2 ^ 64\<close> as pointer
  increments do.
\<close>

definition region :: "addr \<Rightarrow> nat \<Rightarrow> addr set" where
  "region a n = {x. unat (x - a) < n}"

definition disjoint_regions :: "addr \<Rightarrow> nat \<Rightarrow> addr \<Rightarrow> nat \<Rightarrow> bool" where
  "disjoint_regions a n b k \<longleftrightarrow> unat a + n \<le> unat b \<or> unat b + k \<le> unat a"

section \<open>Little-endian loads and stores\<close>

fun load :: "memory \<Rightarrow> addr \<Rightarrow> nat \<Rightarrow> u64" where
  "load m a 0 = 0"
| "load m a (Suc n) = ucast (m a) OR push_bit 8 (load m (a + 1) n)"

fun store :: "memory \<Rightarrow> addr \<Rightarrow> nat \<Rightarrow> u64 \<Rightarrow> memory" where
  "store m a 0 v = m"
| "store m a (Suc n) v = store (m(a := ucast v)) (a + 1) n (drop_bit 8 v)"

abbreviation load64 :: "memory \<Rightarrow> addr \<Rightarrow> u64" where
  "load64 m a \<equiv> load m a 8"

abbreviation store64 :: "memory \<Rightarrow> addr \<Rightarrow> u64 \<Rightarrow> memory" where
  "store64 m a v \<equiv> store m a 8 v"

definition UINT64_MAX :: u64 where "UINT64_MAX = - 1"

section \<open>Words\<close>

lemma unat_UINT64_MAX: "unat UINT64_MAX = 2 ^ 64 - 1"
  by (simp add: UINT64_MAX_def unsigned_minus_1_eq_mask mask_eq_exp_minus_1)

lemma unat_diff_le: "(b :: addr) \<le> a \<Longrightarrow> unat (a - b) = unat a - unat b"
  by (rule unat_sub)

lemma unat_add_no_wrap:
  "unat (a :: addr) + unat b < 2 ^ 64 \<Longrightarrow> unat (a + b) = unat a + unat b"
  by (simp add: unat_word_ariths)

lemma unat_of_nat64 [simp]: "n < 2 ^ 64 \<Longrightarrow> unat (of_nat n :: addr) = n"
  by (simp add: unsigned_of_nat take_bit_nat_eq_self)

lemma of_nat64_inject:
  "x < 2 ^ 64 \<Longrightarrow> y < 2 ^ 64 \<Longrightarrow> (of_nat x :: addr) = of_nat y \<longleftrightarrow> x = y"
  by (metis unat_of_nat64)

lemma unat_lt64: "unat (a :: addr) < 2 ^ 64"
  using unsigned_less [of a] by simp

lemma unat_diff_wrap:
  "unat ((x :: addr) - a) = (if unat a \<le> unat x then unat x - unat a else 2 ^ 64 + unat x - unat a)"
proof (cases "unat a \<le> unat x")
  case True
  then show ?thesis by (simp add: unat_sub word_le_nat_alt)
next
  case False
  then show ?thesis
    using unat_sub_if' [of x a] by simp
qed

section \<open>Region membership\<close>

lemma in_region_iff [region_simps]: "x \<in> region a n \<longleftrightarrow> unat (x - a) < n"
  by (simp add: region_def)

lemma in_region_nat:
  assumes "unat a + n \<le> 2 ^ 64"
  shows "x \<in> region a n \<longleftrightarrow> unat a \<le> unat x \<and> unat x < unat a + n"
  using assms unat_lt64 [of x] by (auto simp: region_def unat_diff_wrap)

lemma region_Suc: "n < 2 ^ 64 \<Longrightarrow> region a (Suc n) = insert a (region (a + 1) n)"
proof -
  assume n: "n < 2 ^ 64"
  have "unat (x - a) < Suc n \<longleftrightarrow> x = a \<or> unat (x - (a + 1)) < n" for x
  proof (cases "x = a")
    case False
    then have nz: "x - a \<noteq> 0" by simp
    have "x - (a + 1) = (x - a) - 1" by simp
    then have "unat (x - (a + 1)) = unat (x - a) - 1"
      using nz by (metis unat_minus_one)
    moreover have "0 < unat (x - a)" using nz by (simp add: unat_gt_0)
    ultimately show ?thesis using False by auto
  qed simp
  then show ?thesis by (auto simp: region_def)
qed

lemma region_0 [simp]: "region a 0 = {}"
  by (simp add: region_def)

lemma region_mono: "n \<le> k \<Longrightarrow> region a n \<subseteq> region a k"
  by (auto simp: region_def)

lemma disjoint_regions_sym: "disjoint_regions a n b k \<longleftrightarrow> disjoint_regions b k a n"
  by (auto simp: disjoint_regions_def)

lemma disjoint_regions_inter:
  assumes "disjoint_regions a n b k" and "unat a + n \<le> 2 ^ 64" and "unat b + k \<le> 2 ^ 64"
  shows "region a n \<inter> region b k = {}"
  using assms by (auto simp: disjoint_regions_def in_region_nat)

section \<open>Loads and stores\<close>

lemma load_cong: "(\<And>x. x \<in> region a n \<Longrightarrow> m x = m' x) \<Longrightarrow> n \<le> 2 ^ 64 \<Longrightarrow> load m a n = load m' a n"
proof (induction n arbitrary: a)
  case (Suc n)
  then have r: "region a (Suc n) = insert a (region (a + 1) n)" by (simp add: region_Suc)
  from Suc.prems(1) [unfolded r] have "load m (a + 1) n = load m' (a + 1) n"
    by (intro Suc.IH) (use Suc.prems in auto)
  with Suc.prems(1) [unfolded r] show ?case by simp
qed simp

lemma store_outside: "x \<notin> region a n \<Longrightarrow> n \<le> 2 ^ 64 \<Longrightarrow> store m a n v x = m x"
proof (induction n arbitrary: a m v)
  case (Suc n)
  then have "region a (Suc n) = insert a (region (a + 1) n)" by (simp add: region_Suc)
  with Suc show ?case by simp
qed simp

lemma load_store_disjoint:
  assumes "region a n \<inter> region b k = {}" and "n \<le> 2 ^ 64" and "k \<le> 2 ^ 64"
  shows "load (store m a n v) b k = load m b k"
  using assms by (intro load_cong store_outside) auto

lemma load_store_same: "n \<le> 8 \<Longrightarrow> load (store m a n v) a n = take_bit (8 * n) v"
proof (induction n arbitrary: a m v)
  case (Suc n)
  have "a \<notin> region (a + 1) n"
  proof -
    have "a - (a + 1) = - 1" by simp
    then have "unat (a - (a + 1)) = 2 ^ 64 - 1" 
      by (simp only: unsigned_minus_1_eq_mask) (simp add: mask_eq_exp_minus_1)
    with Suc.prems show ?thesis by (simp add: region_def)
  qed
  then have "store (m(a := ucast v)) (a + 1) n (drop_bit 8 v) a = ucast v"
    using Suc.prems by (subst store_outside) auto
  moreover have "load (store (m(a := ucast v)) (a + 1) n (drop_bit 8 v)) (a + 1) n
      = take_bit (8 * n) (drop_bit 8 v)"
    using Suc by simp
  moreover have "ucast (ucast v :: byte) OR push_bit 8 (take_bit (8 * n) (drop_bit 8 v))
      = take_bit (8 * Suc n) (v :: u64)"
    by (rule bit_word_eqI)
      (auto simp: bit_simps)
  ultimately show ?case by simp
qed simp

section \<open>Fields at an offset\<close>

lemma in_region_off:
  assumes "unat k + n \<le> 2 ^ 64"
  shows "x \<in> region (a + k) n \<longleftrightarrow> unat k \<le> unat (x - a) \<and> unat (x - a) < unat k + n"
  using in_region_nat [OF assms, of "x - a"] by (simp add: region_def diff_diff_eq)

lemma region_off_subset: "unat k + n \<le> N \<Longrightarrow> N \<le> 2 ^ 64 \<Longrightarrow> region (a + k) n \<subseteq> region a N"
  using in_region_off [of k n _ a] by (fastforce simp: in_region_iff [of _ a])

lemma region_off_disjoint:
  assumes "unat j + n \<le> unat k \<or> unat k + n' \<le> unat j" and "unat j + n \<le> 2 ^ 64" and "unat k + n' \<le> 2 ^ 64"
  shows "region (a + j) n \<inter> region (a + k) n' = {}"
  using assms by (auto simp: in_region_off)

lemma load_store_off:
  assumes "unat j + 8 \<le> unat k \<or> unat k + 8 \<le> unat j" and "unat j + 8 \<le> 2 ^ 64" and "unat k + 8 \<le> 2 ^ 64"
  shows "load64 (store64 m (a + j) v) (a + k) = load64 m (a + k)"
  using region_off_disjoint [OF assms, of a] by (intro load_store_disjoint) auto

lemma load_upd_off:
  assumes "unat j + 1 \<le> unat k \<or> unat k + 8 \<le> unat j" and "unat j < 2 ^ 64" and "unat k + 8 \<le> 2 ^ 64"
  shows "load64 (m(a + j := v)) (a + k) = load64 m (a + k)"
  using assms by (intro load_cong) (auto simp: in_region_off)

lemma store_off_byte:
  assumes "unat j + 8 \<le> unat k \<or> unat k + 1 \<le> unat j" and "unat j + 8 \<le> 2 ^ 64"
  shows "store64 m (a + j) v (a + k) = m (a + k)"
  using assms by (intro store_outside) (auto simp: in_region_off)

lemma load64_store64 [simp]: "load64 (store64 m a v) a = v"
  using load_store_same [of 8 m a v] by (simp add: take_bit_word_eq_self)

lemmas field_simps_off = load_store_off [where j = 0, simplified] load_store_off [where k = 0, simplified]
  load_upd_off [where k = 0, simplified] store_off_byte [where j = 0, simplified]
  load_store_off load_upd_off store_off_byte

end
