(* ===== verification/CString.thy ===== *)
theory CString
  imports Prelude "HOL-Library.Monad_Syntax"
begin

text \<open>
  The string library of \<^verbatim>\<open>src/src/lib/string.c\<close> on the flat memory. Loops that
  run to a terminator may run for ever on a memory without one: they are
  \<^theory_text>\<open>partial_function (option)\<close>, and the lemmas show that they return on every
  C string. \<open>strtok_last\<close>, the static pointer of \<open>strtok\<close>, is passed in and out.
\<close>

section \<open>Definitions\<close>

fun memset_loop :: "memory \<Rightarrow> addr \<Rightarrow> byte \<Rightarrow> nat \<Rightarrow> memory" where
  "memset_loop m p uc 0 = m"
| "memset_loop m p uc (Suc n) = memset_loop (m(p := uc)) (p + 1) uc n"

definition memset :: "memory \<Rightarrow> addr \<Rightarrow> u32 \<Rightarrow> u64 \<Rightarrow> memory" where
  "memset m s c n = memset_loop m s (ucast c) (unat n)"

fun memcpy_loop :: "memory \<Rightarrow> addr \<Rightarrow> addr \<Rightarrow> nat \<Rightarrow> memory" where
  "memcpy_loop m d s 0 = m"
| "memcpy_loop m d s (Suc n) = memcpy_loop (m(d := m s)) (d + 1) (s + 1) n"

definition memcpy :: "memory \<Rightarrow> addr \<Rightarrow> addr \<Rightarrow> u64 \<Rightarrow> memory" where
  "memcpy m dest src n = memcpy_loop m dest src (unat n)"

partial_function (option) strlen_loop :: "memory \<Rightarrow> addr \<Rightarrow> u64 \<Rightarrow> u64 option" where
  "strlen_loop m s len = (if m s \<noteq> 0 then strlen_loop m (s + 1) (len + 1) else Some len)"

definition strlen :: "memory \<Rightarrow> addr \<Rightarrow> u64 option" where
  "strlen m s = strlen_loop m s 0"

definition byte_diff :: "byte \<Rightarrow> byte \<Rightarrow> int" where
  "byte_diff a b = uint a - uint b"

partial_function (option) strcmp :: "memory \<Rightarrow> addr \<Rightarrow> addr \<Rightarrow> int option" where
  "strcmp m s1 s2 =
     (if m s1 \<noteq> 0 \<and> m s1 = m s2 then strcmp m (s1 + 1) (s2 + 1)
      else Some (byte_diff (m s1) (m s2)))"

fun strncmp_loop :: "memory \<Rightarrow> addr \<Rightarrow> addr \<Rightarrow> nat \<Rightarrow> int" where
  "strncmp_loop m s1 s2 0 = 0"
| "strncmp_loop m s1 s2 (Suc n) =
     (if m s1 \<noteq> 0 \<and> m s1 = m s2 then strncmp_loop m (s1 + 1) (s2 + 1) n
      else byte_diff (m s1) (m s2))"

definition strncmp :: "memory \<Rightarrow> addr \<Rightarrow> addr \<Rightarrow> u64 \<Rightarrow> int" where
  "strncmp m s1 s2 n = strncmp_loop m s1 s2 (unat n)"

text \<open>The inner loops of \<open>strspn\<close> and \<open>strpbrk\<close>: is the byte one of the set at \<open>a\<close>?\<close>

partial_function (option) byte_in :: "memory \<Rightarrow> byte \<Rightarrow> addr \<Rightarrow> bool option" where
  "byte_in m c a =
     (if m a \<noteq> 0 then (if c = m a then Some True else byte_in m c (a + 1)) else Some False)"

partial_function (option) strspn_loop :: "memory \<Rightarrow> addr \<Rightarrow> addr \<Rightarrow> u64 \<Rightarrow> u64 option" where
  "strspn_loop m s accept count =
     (if m s \<noteq> 0 then
        do {
          found \<leftarrow> byte_in m (m s) accept;
          if \<not> found then Some count else strspn_loop m (s + 1) accept (count + 1)
        }
      else Some count)"

definition strspn :: "memory \<Rightarrow> addr \<Rightarrow> addr \<Rightarrow> u64 option" where
  "strspn m s accept = strspn_loop m s accept 0"

partial_function (option) strpbrk :: "memory \<Rightarrow> addr \<Rightarrow> addr \<Rightarrow> addr option" where
  "strpbrk m s reject =
     (if m s \<noteq> 0 then
        do {
          found \<leftarrow> byte_in m (m s) reject;
          if found then Some s else strpbrk m (s + 1) reject
        }
      else Some 0)"

text \<open>\<open>strtok\<close> returns the memory, the new \<open>strtok_last\<close> and the token (0 for \<open>NULL\<close>).\<close>

definition strtok :: "memory \<Rightarrow> addr \<Rightarrow> addr \<Rightarrow> addr \<Rightarrow> (memory \<times> addr \<times> addr) option" where
  "strtok m strtok_last str delim =
     (let str = (if str = 0 then strtok_last else str)
      in if str = 0 then Some (m, strtok_last, 0)
         else do {
           n \<leftarrow> strspn m str delim;
           let str = str + n;
           if m str = 0 then Some (m, 0, 0)
           else do {
             let token = str;
             str \<leftarrow> strpbrk m token delim;
             if str = 0 then Some (m, 0, token)
             else Some (m(str := 0), str + 1, token)
           }
         })"

text \<open>A C string at an address: its bytes, none of them NUL, and the terminator.\<close>

fun cstr :: "memory \<Rightarrow> addr \<Rightarrow> byte list \<Rightarrow> bool" where
  "cstr m s [] = (m s = 0)"
| "cstr m s (x # xs) = (m s = x \<and> x \<noteq> 0 \<and> cstr m (s + 1) xs)"

text \<open>A memory that holds the given bytes at an address and NUL elsewhere.\<close>

definition mem_of :: "addr \<Rightarrow> byte list \<Rightarrow> memory" where
  "mem_of a xs = (\<lambda>x. if unat (x - a) < length xs then xs ! unat (x - a) else 0)"

fun list_cmp :: "byte list \<Rightarrow> byte list \<Rightarrow> int" where
  "list_cmp (x # xs) (y # ys) = (if x = y then list_cmp xs ys else byte_diff x y)"
| "list_cmp (x # xs) [] = byte_diff x 0"
| "list_cmp [] (y # ys) = byte_diff 0 y"
| "list_cmp [] [] = 0"

text \<open>The tokens of a string: its maximal segments without a delimiter.\<close>

function tokens :: "byte set \<Rightarrow> byte list \<Rightarrow> byte list list" where
  "tokens D xs =
     (let ys = dropWhile (\<lambda>c. c \<in> D) xs
      in if ys = [] then []
         else takeWhile (\<lambda>c. c \<notin> D) ys # tokens D (drop 1 (dropWhile (\<lambda>c. c \<notin> D) ys)))"
  by pat_completeness auto
termination
proof (relation "measure (\<lambda>(D, xs). length xs)", goal_cases)
  case (2 D xs ys)
  then have "length (dropWhile (\<lambda>c. c \<notin> D) ys) \<le> length xs" and "xs \<noteq> []"
    by (auto intro: order_trans [OF length_dropWhile_le length_dropWhile_le])
  then have "length (dropWhile (\<lambda>c. c \<notin> D) ys) - 1 < length xs"
    by (cases xs) auto
  then show ?case by simp
qed simp

declare tokens.simps [simp del]

section \<open>memset and memcpy\<close>

lemma memset_loop_eq: "memset_loop m p uc n x = (if unat (x - p) < n then uc else m x)"
proof (induction n arbitrary: m p)
  case (Suc n)
  show ?case
  proof (cases "x = p")
    case True
    then show ?thesis unfolding memset_loop.simps Suc.IH by simp
  next
    case False
    then have "x - p \<noteq> 0" by simp
    then have "unat (x - (p + 1)) = unat (x - p) - 1" and "0 < unat (x - p)"
      by (metis diff_diff_eq unat_minus_one) (simp add: False unat_gt_0)
    then show ?thesis using False by (auto simp: Suc)
  qed
qed simp

lemma memset_apply: "memset m s c n x = (if x \<in> region s (unat n) then ucast c else m x)"
  by (simp add: memset_def memset_loop_eq region_def)

lemma memset_code [code]:
  "memset m s c n = (\<lambda>x. if x - s < n then ucast c else m x)"
  by (rule ext) (simp add: memset_apply region_def word_less_nat_alt)

lemma memcpy_loop_outside:
  "x \<notin> region d n \<Longrightarrow> n \<le> 2 ^ 64 \<Longrightarrow> memcpy_loop m d s n x = m x"
proof (induction n arbitrary: m d s)
  case (Suc n)
  then have "region d (Suc n) = insert d (region (d + 1) n)" by (simp add: region_Suc)
  with Suc show ?case by simp
qed simp

lemma memcpy_loop_inside:
  assumes "region d n \<inter> region s n = {}" and "i < n" and "n \<le> 2 ^ 63"
  shows "memcpy_loop m d s n (d + of_nat i) = m (s + of_nat i)"
  using assms
proof (induction n arbitrary: m d s i)
  case (Suc n)
  have rd: "region d (Suc n) = insert d (region (d + 1) n)"
    and rs: "region s (Suc n) = insert s (region (s + 1) n)"
    using Suc.prems by (simp_all add: region_Suc)
  have disj: "region (d + 1) n \<inter> region (s + 1) n = {}" using Suc.prems rd rs by auto
  show ?case
  proof (cases i)
    case 0
    have "d \<notin> region (d + 1) n"
      using Suc.prems by (simp add: region_def unsigned_minus_1_eq_mask mask_eq_exp_minus_1)
    then show ?thesis using 0 Suc.prems by (simp add: memcpy_loop_outside)
  next
    case (Suc j)
    then have "memcpy_loop (m(d := m s)) (d + 1) (s + 1) n (d + 1 + of_nat j)
        = (m(d := m s)) (s + 1 + of_nat j)"
      using Suc.prems disj by (intro Suc.IH) auto
    moreover have "s + 1 + of_nat j \<in> region s (Suc n)"
      using Suc Suc.prems by (simp add: region_def add.assoc unat_word_ariths)
    then have "s + 1 + of_nat j \<noteq> d" using Suc.prems(1) rd by blast
    ultimately show ?thesis using Suc by (simp add: add.assoc)
  qed
qed simp

section \<open>Lengths and comparisons\<close>

lemma cstr_no_NUL: "cstr m s xs \<Longrightarrow> 0 \<notin> set xs"
  by (induction xs arbitrary: s) auto

lemma cstr_end: "cstr m s xs \<Longrightarrow> m (s + of_nat (length xs)) = 0"
  by (induction xs arbitrary: s) (auto simp flip: add.assoc)

lemma cstr_nth: "cstr m s xs \<Longrightarrow> i < length xs \<Longrightarrow> m (s + of_nat i) = xs ! i"
proof (induction xs arbitrary: s i)
  case (Cons x xs)
  then show ?case by (cases i) (auto simp flip: add.assoc)
qed simp

lemma cstr_cong:
  "(\<And>x. x \<in> region s (Suc (length xs)) \<Longrightarrow> m' x = m x) \<Longrightarrow> length xs < 2 ^ 64 \<Longrightarrow>
   cstr m' s xs = cstr m s xs"
proof (induction xs arbitrary: s)
  case Nil
  then show ?case by (simp add: region_def)
next
  case (Cons x xs)
  have r: "region s (Suc (length (x # xs))) = insert s (region (s + 1) (Suc (length xs)))"
    using Cons.prems(2) by (subst region_Suc) simp_all
  have "cstr m' (s + 1) xs = cstr m (s + 1) xs"
    using Cons.prems unfolding r by (intro Cons.IH) auto
  with Cons.prems(1) [unfolded r] show ?case by simp
qed

lemma cstr_append:
  "cstr m s (xs @ ys) \<longleftrightarrow>
     (\<forall>i < length xs. m (s + of_nat i) = xs ! i) \<and> 0 \<notin> set xs \<and> cstr m (s + of_nat (length xs)) ys"
proof (induction xs arbitrary: s)
  case (Cons x xs)
  have "(\<forall>i < length (x # xs). m (s + of_nat i) = (x # xs) ! i)
      \<longleftrightarrow> m s = x \<and> (\<forall>i < length xs. m (s + 1 + of_nat i) = xs ! i)"
    by (auto simp: less_Suc_eq_0_disj add.assoc)
  then show ?case using Cons by (auto simp: add.assoc)
qed simp

lemma cstr_mem_of: "0 \<notin> set xs \<Longrightarrow> length xs < 2 ^ 64 \<Longrightarrow> cstr (mem_of a xs) a xs"
  using cstr_append [of "mem_of a xs" a xs "[]"] by (simp add: mem_of_def)

lemma strlen_loop_cstr: "cstr m s xs \<Longrightarrow> strlen_loop m s len = Some (len + of_nat (length xs))"
proof (induction xs arbitrary: s len)
  case (Cons x xs)
  then show ?case by (subst strlen_loop.simps) (simp add: add.assoc)
qed (simp add: strlen_loop.simps)

lemma strlen_cstr: "cstr m s xs \<Longrightarrow> strlen m s = Some (of_nat (length xs))"
  by (simp add: strlen_def strlen_loop_cstr)

lemma byte_diff_0_iff [simp]: "byte_diff a b = 0 \<longleftrightarrow> a = b"
  by (simp add: byte_diff_def word_uint_eq_iff)

lemma strcmp_list_cmp:
  "cstr m s xs \<Longrightarrow> cstr m t ys \<Longrightarrow> strcmp m s t = Some (list_cmp xs ys)"
proof (induction xs ys arbitrary: s t rule: list_cmp.induct)
  case (1 x xs y ys)
  then show ?case by (subst strcmp.simps) auto
qed (subst strcmp.simps, auto)+

lemma list_cmp_0_iff: "0 \<notin> set xs \<Longrightarrow> 0 \<notin> set ys \<Longrightarrow> list_cmp xs ys = 0 \<longleftrightarrow> xs = ys"
  by (induction xs ys rule: list_cmp.induct) auto

lemma list_cmp_antisym: "list_cmp ys xs = - list_cmp xs ys"
  by (induction xs ys rule: list_cmp.induct) (auto simp: byte_diff_def)

lemma strncmp_loop_cstr:
  "cstr m s xs \<Longrightarrow> cstr m t ys \<Longrightarrow> strncmp_loop m s t n = list_cmp (take n xs) (take n ys)"
proof (induction n arbitrary: s t xs ys)
  case (Suc n)
  then show ?case by (cases xs; cases ys) auto
qed simp

section \<open>Spans and tokens\<close>

lemma byte_in_cstr: "cstr m a ds \<Longrightarrow> byte_in m c a = Some (c \<in> set ds)"
proof (induction ds arbitrary: a)
  case (Cons d ds)
  then show ?case by (subst byte_in.simps) auto
qed (simp add: byte_in.simps)

lemma strspn_loop_cstr:
  "cstr m s xs \<Longrightarrow> cstr m a ds \<Longrightarrow>
   strspn_loop m s a k = Some (k + of_nat (length (takeWhile (\<lambda>c. c \<in> set ds) xs)))"
proof (induction xs arbitrary: s k)
  case (Cons x xs)
  then show ?case
    by (subst strspn_loop.simps) (simp add: byte_in_cstr add.assoc)
qed (simp add: strspn_loop.simps)

lemma strspn_cstr:
  "cstr m s xs \<Longrightarrow> cstr m a ds \<Longrightarrow>
   strspn m s a = Some (of_nat (length (takeWhile (\<lambda>c. c \<in> set ds) xs)))"
  by (simp add: strspn_def strspn_loop_cstr)

lemma strpbrk_cstr:
  "cstr m s xs \<Longrightarrow> cstr m a ds \<Longrightarrow>
   strpbrk m s a =
     Some (if \<exists>x \<in> set xs. x \<in> set ds
           then s + of_nat (length (takeWhile (\<lambda>c. c \<notin> set ds) xs)) else 0)"
proof (induction xs arbitrary: s)
  case (Cons x xs)
  then show ?case
    by (subst strpbrk.simps) (simp add: byte_in_cstr add.assoc)
qed (simp add: strpbrk.simps)

lemma word_offset_nonzero: "s \<noteq> 0 \<Longrightarrow> unat (s :: addr) + n < 2 ^ 64 \<Longrightarrow> s + of_nat n \<noteq> 0"
proof -
  assume "s \<noteq> 0" and n: "unat s + n < 2 ^ 64"
  then have "0 < unat s" by (simp add: unat_gt_0)
  moreover have "unat (s + of_nat n) = unat s + n"
    using n by (subst unat_add_no_wrap) simp_all
  ultimately show ?thesis by (metis add_pos_nonneg less_nat_zero_code unat_0 zero_le)
qed

lemma in_region_offset: "i < n \<Longrightarrow> n \<le> 2 ^ 64 \<Longrightarrow> (s :: addr) + of_nat i \<in> region s n"
  by (simp add: region_def)

lemma cstr_drop:
  assumes "cstr m s xs" and "k \<le> length xs"
  shows "cstr m (s + of_nat k) (drop k xs)"
  using assms cstr_append [of m s "take k xs" "drop k xs"] by simp

text \<open>One call of \<open>strtok\<close> on the string that is left, in its three outcomes.\<close>

lemma strtok_step:
  assumes xs: "cstr m s xs" and ds: "cstr m d ds" and s: "s \<noteq> 0" "unat s + length xs < 2 ^ 64"
    and s': "s = (if str = 0 then lst else str)"
    and ys: "ys = dropWhile (\<lambda>c. c \<in> set ds) xs"
    and tok: "tok = takeWhile (\<lambda>c. c \<notin> set ds) ys"
    and off: "off = length (takeWhile (\<lambda>c. c \<in> set ds) xs)"
    and p: "p = s + of_nat (off + length tok)"
  shows "strtok m lst str d =
     Some (if ys = [] then (m, 0, 0)
           else if tok = ys then (m, 0, s + of_nat off)
           else (m(p := 0), p + 1, s + of_nat off))"
proof -
  have len: "off + length ys = length xs"
    unfolding off ys by (metis length_append takeWhile_dropWhile_id)
  have dr: "drop off xs = ys" unfolding off ys by (simp add: dropWhile_eq_drop)
  have at: "cstr m (s + of_nat off) ys"
    using cstr_drop [OF xs, of off] len dr by simp
  have spn: "strspn m s d = Some (of_nat off)" using strspn_cstr [OF xs ds] by (simp add: off)
  have pbrk: "strpbrk m (s + of_nat off) d =
      Some (if tok = ys then 0 else s + of_nat off + of_nat (length tok))"
    using strpbrk_cstr [OF at ds] by (auto simp: tok takeWhile_eq_all_conv)
  have "length tok \<le> length ys" unfolding tok by (rule length_takeWhile_le)
  then have "p \<noteq> 0" unfolding p using s len by (intro word_offset_nonzero) auto
  moreover have "m (s + of_nat off) = 0 \<longleftrightarrow> ys = []"
    using at by (cases ys) auto
  moreover have "p = s + of_nat off + of_nat (length tok)" by (simp add: p add.assoc)
  ultimately show ?thesis
    using s(1) unfolding strtok_def s' [symmetric] by (simp add: spn pbrk Let_def)
qed

lemma strtok_strings:
  assumes xs: "cstr m s xs" and len: "length xs < 2 ^ 64"
    and ys: "ys = dropWhile (\<lambda>c. c \<in> D) xs"
    and tok: "tok = takeWhile (\<lambda>c. c \<notin> D) ys" "tok \<noteq> ys"
    and off: "off = length (takeWhile (\<lambda>c. c \<in> D) xs)"
    and p: "p = s + of_nat (off + length tok)"
  shows "cstr (m(p := 0)) (s + of_nat off) tok
       \<and> cstr (m(p := 0)) (p + 1) (drop 1 (dropWhile (\<lambda>c. c \<notin> D) ys))
       \<and> off + length tok + length (dropWhile (\<lambda>c. c \<notin> D) ys) = length xs
       \<and> dropWhile (\<lambda>c. c \<notin> D) ys \<noteq> []"
proof -
  define rest where "rest = dropWhile (\<lambda>c. c \<notin> D) ys"
  have ysr: "ys = tok @ rest" unfolding tok rest_def by simp
  with tok(2) have rest: "rest \<noteq> []" by auto
  have lens: "off + length tok + length rest = length xs"
    unfolding off using ysr ys by (metis add.assoc length_append takeWhile_dropWhile_id)
  have "drop off xs = ys" unfolding off ys by (simp add: dropWhile_eq_drop)
  then have "cstr m (s + of_nat off) (tok @ rest)"
    using cstr_drop [OF xs, of off] lens ysr by simp
  then have bytes: "\<forall>i < length tok. m (s + of_nat off + of_nat i) = tok ! i" "0 \<notin> set tok"
      and "cstr m p rest"
    by (simp_all add: cstr_append p add.assoc)
  then have tl: "cstr m (p + 1) (drop 1 rest)" using rest by (cases rest) auto
  have "s + of_nat off + of_nat i \<noteq> p" if "i < length tok" for i
    using that lens len by (simp add: p add.assoc of_nat64_inject)
  then have "cstr (m(p := 0)) (s + of_nat off) (tok @ [])"
    unfolding cstr_append using bytes by (simp add: p add.assoc)
  moreover have "cstr (m(p := 0)) (p + 1) (drop 1 rest) = cstr m (p + 1) (drop 1 rest)"
  proof (rule cstr_cong)
    have "unat (p - (p + 1)) = 2 ^ 64 - 1"
      by (simp add: unsigned_minus_1_eq_mask mask_eq_exp_minus_1)
    then have "p \<notin> region (p + 1) (Suc (length (drop 1 rest)))"
      using lens len rest by (cases rest) (auto simp: region_def)
    then show "(m(p := 0)) x = m x" if "x \<in> region (p + 1) (Suc (length (drop 1 rest)))" for x
      using that by auto
  qed (use lens len in simp)
  ultimately show ?thesis using tl lens rest unfolding rest_def by simp
qed

section \<open>The contract of the string functions\<close>

lemma byte_diff_less_0_iff [simp]: "byte_diff a b < 0 \<longleftrightarrow> a < b"
  by (simp add: byte_diff_def word_less_def)

lemma list_cmp_less_0_iff:
  "0 \<notin> set xs \<Longrightarrow> 0 \<notin> set ys \<Longrightarrow> list_cmp xs ys < 0 \<longleftrightarrow> (xs, ys) \<in> lexord {(a, b). a < b}"
  by (induction xs ys rule: list_cmp.induct) (auto simp: word_neq_0_conv)

lemma memcpy_of_nat: "n \<le> 2 ^ 63 \<Longrightarrow> memcpy m d s (of_nat n) = memcpy_loop m d s n"
  by (simp add: memcpy_def)

lemma memcpy_cstr:
  assumes xs: "cstr m s xs" and len: "Suc (length xs) \<le> 2 ^ 63"
    and disj: "region d (Suc (length xs)) \<inter> region s (Suc (length xs)) = {}"
  shows "cstr (memcpy m d s (of_nat (Suc (length xs)))) d xs"
proof -
  have cp: "memcpy m d s (of_nat (Suc (length xs))) (d + of_nat i) = m (s + of_nat i)"
    if "i < Suc (length xs)" for i
    using disj that len by (simp only: memcpy_of_nat memcpy_loop_inside)
  then show ?thesis
    using cstr_append [of _ d xs "[]"] cstr_nth [OF xs] cstr_end [OF xs] cstr_no_NUL [OF xs] by simp
qed

text \<open>The sign of the comparison.\<close>

lemma list_cmp_sign:
  assumes "0 \<notin> set xs" and "0 \<notin> set ys"
  shows "(list_cmp xs ys < 0 \<longleftrightarrow> (xs, ys) \<in> lexord {(a, b). a < b})
    \<and> (list_cmp xs ys = 0 \<longleftrightarrow> xs = ys)
    \<and> (0 < list_cmp xs ys \<longleftrightarrow> (ys, xs) \<in> lexord {(a, b). a < b})"
proof -
  have "0 < list_cmp xs ys \<longleftrightarrow> (ys, xs) \<in> lexord {(a, b). a < b}"
    using list_cmp_less_0_iff [OF assms(2,1)] list_cmp_antisym [of ys xs] by simp
  then show ?thesis using list_cmp_less_0_iff [OF assms] list_cmp_0_iff [OF assms] by blast
qed

text \<open>
  C29. The string functions on two C strings \<open>xs\<close> and \<open>ys\<close>: \<open>strlen\<close> returns the length;
  \<open>strcmp\<close> returns, and its result is negative exactly when \<open>xs\<close> is lexicographically
  below \<open>ys\<close> as unsigned bytes, zero exactly when they are equal and positive exactly when
  \<open>ys\<close> is below \<open>xs\<close>; \<open>strncmp\<close> has the sign of the same comparison of the first \<open>n\<close> bytes; and
  \<open>memcpy\<close> of the string with its terminator to a region that does not overlap it leaves
  the same string at the destination, equal to the source by \<open>strcmp\<close>, with no byte
  outside the destination changed.
\<close>

theorem string_functions:
  assumes xs: "cstr m s xs" and ys: "cstr m t ys" and len: "Suc (length xs) \<le> 2 ^ 63"
    and disj: "region d (Suc (length xs)) \<inter> region s (Suc (length xs)) = {}"
    and m': "m' = memcpy m d s (of_nat (Suc (length xs)))"
  shows "strlen m s = Some (of_nat (length xs))
    \<and> (\<exists>r. strcmp m s t = Some r
        \<and> (r < 0 \<longleftrightarrow> (xs, ys) \<in> lexord {(a, b). a < b})
        \<and> (r = 0 \<longleftrightarrow> xs = ys)
        \<and> (0 < r \<longleftrightarrow> (ys, xs) \<in> lexord {(a, b). a < b}))
    \<and> (strncmp m s t n < 0 \<longleftrightarrow> (take (unat n) xs, take (unat n) ys) \<in> lexord {(a, b). a < b})
    \<and> (strncmp m s t n = 0 \<longleftrightarrow> take (unat n) xs = take (unat n) ys)
    \<and> (0 < strncmp m s t n \<longleftrightarrow> (take (unat n) ys, take (unat n) xs) \<in> lexord {(a, b). a < b})
    \<and> cstr m' d xs \<and> strcmp m' d s = Some 0
    \<and> (\<forall>x. x \<notin> region d (Suc (length xs)) \<longrightarrow> m' x = m x)"
proof -
  note z = cstr_no_NUL [OF xs] cstr_no_NUL [OF ys]
  have same: "m' x = m x" if "x \<notin> region d (Suc (length xs))" for x
    using that len unfolding m' memcpy_of_nat [OF len] by (intro memcpy_loop_outside) simp_all
  have d: "cstr m' d xs" unfolding m' by (rule memcpy_cstr [OF xs len disj])
  have "cstr m' s xs" using xs disj same len by (subst cstr_cong [of s xs m' m]) auto
  with d have "strcmp m' d s = Some 0" by (simp add: strcmp_list_cmp list_cmp_0_iff z)
  moreover have "strncmp m s t n = list_cmp (take (unat n) xs) (take (unat n) ys)"
    by (simp only: strncmp_def strncmp_loop_cstr [OF xs ys])
  moreover have "0 \<notin> set (take (unat n) xs)" "0 \<notin> set (take (unat n) ys)" using z in_set_takeD by metis+
  note list_cmp_sign [OF this]
  ultimately show ?thesis
    using d same list_cmp_sign [OF z] by (simp add: strlen_cstr [OF xs] strcmp_list_cmp [OF xs ys])
qed

theorem string_functions_witness:
  "strlen (mem_of 64 [104, 105, 0, 104, 200]) 64 = Some 2
   \<and> (\<exists>r < 0. strcmp (mem_of 64 [104, 105, 0, 104, 200]) 64 67 = Some r)
   \<and> strncmp (mem_of 64 [104, 105, 0, 104, 200]) 64 67 2 < 0
   \<and> cstr (memcpy (mem_of 64 [104, 105, 0, 104, 200]) 128 64 3) 128 [104, 105]"
proof -
  let ?m = "mem_of 64 [104, 105, 0, 104, 200]"
  have c: "cstr ?m 64 [104, 105]" "cstr ?m 67 [104, 200]" by (simp_all add: mem_of_def)
  have r: "region 128 (Suc (length [104, 105 :: byte])) \<inter> region (64 :: addr) (Suc (length [104, 105 :: byte])) = {}"
    by (rule disjoint_regions_inter) (simp_all add: disjoint_regions_def)
  have l: "Suc (length [104, 105 :: byte]) \<le> 2 ^ 63" by simp
  have "([104, 105], [104, 200]) \<in> lexord {(a, b :: byte). a < b}" by simp
  then show ?thesis using string_functions [OF c l r refl, of 2] by auto
qed

end
