(* ===== verification/Uart.thy ===== *)
theory Uart
  imports Prelude
begin

text \<open>
  The PL011 driver of \<^verbatim>\<open>src/src/lib/uart.c\<close>.

  The device itself is hardware: it is modelled by the part of its documented behaviour
  that the driver relies on. Every read of the flag register is a poll and lets time
  pass. \<open>tx_busy\<close> gives, for each byte to come, the number of polls that still see the
  transmit FIFO full (the FIFO of an enabled PL011 drains, so the number is finite; an
  exhausted list means there is always room). \<open>rx_line\<close> gives the words that arrive
  on the line, each with the number of polls before it is in the receive FIFO. The
  values that reach the line are recorded in \<open>tx_out\<close>: a write while the transmit FIFO is
  full is lost. A read while the receive FIFO is empty gives \<open>rx_stale\<close>, any value, and
  takes nothing from the line.
\<close>

section \<open>The device\<close>

record uart_dev =
  uart_ibrd :: u32
  uart_fbrd :: u32
  uart_lcrh :: u32
  uart_imsc :: u32
  uart_cr :: u32
  tx_busy :: "nat list"
  tx_out :: "u32 list"
  rx_line :: "(nat \<times> u32) list"
  rx_stale :: u32

definition UART_FR_RXFE :: u32 where "UART_FR_RXFE = 0x10"
definition UART_FR_TXFF :: u32 where "UART_FR_TXFF = 0x20"
definition UART_LCRH_FEN :: u32 where "UART_LCRH_FEN = 0x10"
definition UART_LCRH_WLEN_8 :: u32 where "UART_LCRH_WLEN_8 = 0x60"
definition UART_CR_UARTEN :: u32 where "UART_CR_UARTEN = 0x01"
definition UART_CR_TXE :: u32 where "UART_CR_TXE = 0x100"
definition UART_CR_RXE :: u32 where "UART_CR_RXE = 0x200"

definition tx_full :: "uart_dev \<Rightarrow> bool" where
  "tx_full u = (case tx_busy u of [] \<Rightarrow> False | n # _ \<Rightarrow> 0 < n)"

definition rx_empty :: "uart_dev \<Rightarrow> bool" where
  "rx_empty u = (case rx_line u of [] \<Rightarrow> True | (n, _) # _ \<Rightarrow> 0 < n)"

text \<open>The value of the flag register, and the passing of time at each read of it.\<close>

definition uart_fr :: "uart_dev \<Rightarrow> u32" where
  "uart_fr u = (if rx_empty u then UART_FR_RXFE else 0) OR (if tx_full u then UART_FR_TXFF else 0)"

definition uart_tick :: "uart_dev \<Rightarrow> uart_dev" where
  "uart_tick u = u\<lparr>
     tx_busy := (case tx_busy u of [] \<Rightarrow> [] | n # ns \<Rightarrow> (n - 1) # ns),
     rx_line := (case rx_line u of [] \<Rightarrow> [] | (n, v) # ws \<Rightarrow> (n - 1, v) # ws)\<rparr>"

definition write_dr :: "u32 \<Rightarrow> uart_dev \<Rightarrow> uart_dev" where
  "write_dr v u =
     (if tx_full u then u else u\<lparr>tx_out := tx_out u @ [v], tx_busy := drop 1 (tx_busy u)\<rparr>)"

definition read_dr :: "uart_dev \<Rightarrow> u32 \<times> uart_dev" where
  "read_dr u =
     (case rx_line u of
        [] \<Rightarrow> (rx_stale u, u)
      | (n, v) # ws \<Rightarrow> if 0 < n then (rx_stale u, u) else (v, u\<lparr>rx_line := ws\<rparr>))"

section \<open>The driver\<close>

definition uart_init :: "uart_dev \<Rightarrow> uart_dev" where
  "uart_init u =
     (let u1 = u\<lparr>uart_cr := 0\<rparr>;
          u2 = u1\<lparr>uart_ibrd := 26\<rparr>;
          u3 = u2\<lparr>uart_fbrd := 3\<rparr>;
          u4 = u3\<lparr>uart_lcrh := UART_LCRH_WLEN_8 OR UART_LCRH_FEN\<rparr>;
          u5 = u4\<lparr>uart_imsc := 0\<rparr>
      in u5\<lparr>uart_cr := UART_CR_UARTEN OR UART_CR_TXE OR UART_CR_RXE\<rparr>)"

text \<open>The busy-wait \<^verbatim>\<open>while (*UART_FR & UART_FR_TXFF);\<close>\<close>

function uart_wait_tx :: "uart_dev \<Rightarrow> uart_dev" where
  "uart_wait_tx u =
     (if uart_fr u AND UART_FR_TXFF \<noteq> 0 then uart_wait_tx (uart_tick u) else uart_tick u)"
  by pat_completeness auto
termination
proof (relation "measure (\<lambda>u. case tx_busy u of [] \<Rightarrow> 0 | n # _ \<Rightarrow> n)")
  fix u :: uart_dev
  assume "uart_fr u AND UART_FR_TXFF \<noteq> 0"
  then have "tx_full u"
    by (auto simp: uart_fr_def UART_FR_RXFE_def UART_FR_TXFF_def split: if_splits)
  then show "(uart_tick u, u) \<in> measure (\<lambda>u. case tx_busy u of [] \<Rightarrow> 0 | n # _ \<Rightarrow> n)"
    by (auto simp: tx_full_def uart_tick_def split: list.splits)
qed simp

declare uart_wait_tx.simps [simp del]

text \<open>\<open>char\<close> is unsigned on AArch64, so the store to the data register zero-extends.\<close>

function uart_putc :: "byte \<Rightarrow> uart_dev \<Rightarrow> uart_dev" where
  "uart_putc c u =
     (let u1 = write_dr (ucast c) (uart_wait_tx u)
      in if c = 10 then uart_putc 13 u1 else u1)"
  by pat_completeness auto
termination
  by (relation "measure (\<lambda>(c, u). if c = 10 then 1 else 0)") auto

declare uart_putc.simps [simp del]

definition uart_getc :: "uart_dev \<Rightarrow> byte \<times> uart_dev" where
  "uart_getc u =
     (if uart_fr u AND UART_FR_RXFE \<noteq> 0 then (0, uart_tick u)
      else (case read_dr (uart_tick u) of (v, u') \<Rightarrow> (ucast v, u')))"

definition uart_is_data_available :: "uart_dev \<Rightarrow> bool \<times> uart_dev" where
  "uart_is_data_available u = (uart_fr u AND UART_FR_RXFE = 0, uart_tick u)"

definition uart_puts :: "byte list \<Rightarrow> uart_dev \<Rightarrow> uart_dev" where
  "uart_puts cs u = fold uart_putc cs u"

text \<open>What a byte looks like on the line: a newline is followed by a carriage return.\<close>

definition line_bytes :: "byte \<Rightarrow> u32 list" where
  "line_bytes c = (if c = 10 then [10, 13] else [ucast c])"

section \<open>Properties\<close>

lemma fr_txff [simp]: "uart_fr u AND UART_FR_TXFF \<noteq> 0 \<longleftrightarrow> tx_full u"
  by (auto simp: uart_fr_def UART_FR_RXFE_def UART_FR_TXFF_def)

lemma fr_rxfe [simp]: "uart_fr u AND UART_FR_RXFE \<noteq> 0 \<longleftrightarrow> rx_empty u"
  by (auto simp: uart_fr_def UART_FR_RXFE_def UART_FR_TXFF_def)

lemma uart_tick_out [simp]: "tx_out (uart_tick u) = tx_out u"
  by (simp add: uart_tick_def)

lemma uart_tick_rx [simp]: "map snd (rx_line (uart_tick u)) = map snd (rx_line u)"
  by (auto simp: uart_tick_def split: list.splits)

lemma uart_wait_tx_out [simp]: "tx_out (uart_wait_tx u) = tx_out u"
  by (induction u rule: uart_wait_tx.induct) (subst uart_wait_tx.simps, simp)

lemma uart_wait_tx_rx [simp]: "map snd (rx_line (uart_wait_tx u)) = map snd (rx_line u)"
  by (induction u rule: uart_wait_tx.induct) (subst uart_wait_tx.simps, simp)

lemma uart_wait_tx_ready [simp]: "\<not> tx_full (uart_wait_tx u)"
proof (induction u rule: uart_wait_tx.induct)
  case (1 u)
  show ?case
    by (subst uart_wait_tx.simps)
      (use 1 in \<open>auto simp: tx_full_def uart_tick_def split: list.splits\<close>)
qed

lemma write_dr_simps [simp]:
  "\<not> tx_full u \<Longrightarrow> tx_out (write_dr v u) = tx_out u @ [v]" "rx_line (write_dr v u) = rx_line u"
  by (simp_all add: write_dr_def)

lemma uart_putc_plain: "c \<noteq> 10 \<Longrightarrow> uart_putc c u = write_dr (ucast c) (uart_wait_tx u)"
  by (subst uart_putc.simps) simp

lemma uart_putc_newline:
  "uart_putc 10 u = write_dr 13 (uart_wait_tx (write_dr 10 (uart_wait_tx u)))"
  by (subst uart_putc.simps) (simp add: uart_putc_plain)

lemma uart_putc_out [simp]: "tx_out (uart_putc c u) = tx_out u @ line_bytes c"
  by (cases "c = 10") (simp_all add: uart_putc_plain uart_putc_newline line_bytes_def)

lemma uart_putc_rx [simp]: "map snd (rx_line (uart_putc c u)) = map snd (rx_line u)"
  by (cases "c = 10") (simp_all add: uart_putc_plain uart_putc_newline)

text \<open>The driver changes the two FIFOs and what is on the line, and no configuration register.\<close>

definition same_config :: "uart_dev \<Rightarrow> uart_dev \<Rightarrow> bool" where
  "same_config u v \<longleftrightarrow> (\<exists>b out rx. v = u\<lparr>tx_busy := b, tx_out := out, rx_line := rx\<rparr>)"

lemma same_configI: "v = u\<lparr>tx_busy := tx_busy v, tx_out := tx_out v, rx_line := rx_line v\<rparr> \<Longrightarrow> same_config u v"
  unfolding same_config_def by blast

lemma same_config_trans: "same_config u v \<Longrightarrow> same_config v w \<Longrightarrow> same_config u w"
  unfolding same_config_def by (elim exE) (intro exI, simp)

lemma same_config_simps [simp]:
  "same_config u u" "same_config u (uart_tick u)" "same_config u (write_dr v u)"
  by (rule same_configI, simp add: uart_tick_def write_dr_def)+

lemma same_config_wait [simp]: "same_config u (uart_wait_tx u)"
proof (induction u rule: uart_wait_tx.induct)
  case (1 u)
  then show ?case by (subst uart_wait_tx.simps) (auto intro: same_config_trans [OF same_config_simps(2)])
qed

lemma same_config_putc [simp]: "same_config u (uart_putc c u)"
proof -
  have w: "same_config u (write_dr v (uart_wait_tx u))" for u v
    by (rule same_config_trans [OF same_config_wait same_config_simps(3)])
  show ?thesis by (cases "c = 10") (auto simp: uart_putc_plain uart_putc_newline intro: w same_config_trans [OF w w])
qed

lemma same_config_puts [simp]: "same_config u (uart_puts cs u)"
  unfolding uart_puts_def by (induction cs arbitrary: u) (auto intro: same_config_trans [OF same_config_putc])

lemma uart_puts_out [simp]:
  "tx_out (uart_puts cs u) = tx_out u @ concat (map line_bytes cs)"
  unfolding uart_puts_def by (induction cs arbitrary: u) simp_all

lemma uart_puts_rx [simp]: "map snd (rx_line (uart_puts cs u)) = map snd (rx_line u)"
  unfolding uart_puts_def by (induction cs arbitrary: u) simp_all

end
