(* ===== verification/Stdio.thy ===== *)
theory Stdio
  imports Uart
begin

text \<open>
  The console of \<^verbatim>\<open>src/src/lib/stdio.c\<close>: the formatter \<open>kprintf\<close> with its
  1024-byte buffer, and the blocking character read. A format is the text of a string
  literal; the variadic arguments are the 8-byte slots of the AAPCS64 calling convention
  (\<open>VWord\<close>) and the C strings that pointer arguments refer to (\<open>VStr\<close>, \<open>None\<close>
  for \<open>NULL\<close>). Where the C code would leave the defined behaviour, reading past the
  terminator of the format, reading a missing argument or writing past the buffer, the
  formatter returns a fault.
\<close>

section \<open>The machine\<close>

record machine =
  mem :: memory
  uart :: uart_dev

text \<open>How a call ends that may not return: \<open>Halted\<close> is the state in which it loops for ever.\<close>

datatype 's outcome = Returned 's | Halted 's

section \<open>Formatting\<close>

definition PRINTF_BUFFER_SIZE :: nat where "PRINTF_BUFFER_SIZE = 1024"
definition MAX_INT_DIGITS :: nat where "MAX_INT_DIGITS = 21"

datatype va_arg = VWord u64 | VStr "string option"

datatype fmt_fault = Missing_Arg | Format_Overrun | Buffer_Overflow

datatype len_mod = No_Mod | Long | Long_Long | Size_T

definition NUL :: char where "NUL = CHR 0x00"

definition is_flag :: "char \<Rightarrow> bool" where
  "is_flag c = (c = CHR ''-'' \<or> c = CHR ''+'' \<or> c = CHR ''0'' \<or> c = CHR '' '')"

definition is_digit :: "char \<Rightarrow> bool" where
  "is_digit c = (48 \<le> (of_char c :: nat) \<and> (of_char c :: nat) \<le> 57)"

text \<open>Flags and field width are skipped, then the length modifier is read.\<close>

definition skip_flags :: "string \<Rightarrow> string" where
  "skip_flags fs = dropWhile is_digit (dropWhile is_flag fs)"

fun length_mod :: "string \<Rightarrow> len_mod \<times> string" where
  "length_mod (c # d # fs) =
     (if c = CHR ''l'' then (if d = CHR ''l'' then (Long_Long, fs) else (Long, d # fs))
      else if c = CHR ''z'' then (Size_T, d # fs) else (No_Mod, c # d # fs))"
| "length_mod [c] =
     (if c = CHR ''l'' then (Long, []) else if c = CHR ''z'' then (Size_T, []) else (No_Mod, [c]))"
| "length_mod [] = (No_Mod, [])"

text \<open>The \<open>do \<dots> while\<close> conversions, from the last digit backwards.\<close>

function dec_digits :: "u64 \<Rightarrow> string \<Rightarrow> string" where
  "dec_digits v acc =
     (let acc' = char_of (48 + unat (v mod 10)) # acc; v' = v div 10
      in if v' > 0 then dec_digits v' acc' else acc')"
  by pat_completeness auto
termination
proof (relation "measure (\<lambda>(v, acc). unat v)")
  fix v :: u64 and acc :: string and acc' v'
  assume "v' = v div 10" and "v' > 0"
  then show "((v', acc'), (v, acc)) \<in> measure (\<lambda>(v, acc). unat v)"
    by (auto simp: unat_div word_less_nat_alt)
qed simp

declare dec_digits.simps [simp del]

definition hex_char :: "bool \<Rightarrow> u64 \<Rightarrow> char" where
  "hex_char upper d =
     (if upper then ''0123456789ABCDEF'' else ''0123456789abcdef'') ! unat (d AND 0xF)"

function hex_digits :: "bool \<Rightarrow> u64 \<Rightarrow> string \<Rightarrow> string" where
  "hex_digits upper v acc =
     (let acc' = hex_char upper v # acc; v' = drop_bit 4 v
      in if v' > 0 then hex_digits upper v' acc' else acc')"
  by pat_completeness auto
termination
proof (relation "measure (\<lambda>(b, v, acc). unat v)")
  fix b and v :: u64 and acc :: string and acc' v'
  assume "v' = drop_bit 4 v" and "v' > 0"
  then show "((b, v', acc'), (b, v, acc)) \<in> measure (\<lambda>(b, v, acc). unat v)"
    by (auto simp: drop_bit_eq_div unat_div word_less_nat_alt)
qed simp

declare hex_digits.simps [simp del]

text \<open>The pointer conversion goes on until 16 digits are written.\<close>

function ptr_digits :: "u64 \<Rightarrow> nat \<Rightarrow> string \<Rightarrow> string" where
  "ptr_digits v digit_count acc =
     (let acc' = hex_char False v # acc; v' = drop_bit 4 v; n = Suc digit_count
      in if v' > 0 \<or> n < 16 then ptr_digits v' n acc' else acc')"
  by pat_completeness auto
termination
proof (relation "measure (\<lambda>(v, n, acc). unat v + (16 - n))")
  fix v :: u64 and n and acc :: string and acc' v' n'
  assume "v' = drop_bit 4 v" and "n' = Suc n" and "v' > 0 \<or> n' < 16"
  then show "((v', n', acc'), (v, n, acc)) \<in> measure (\<lambda>(v, n, acc). unat v + (16 - n))"
    by (auto simp: drop_bit_eq_div unat_div word_less_nat_alt)
qed simp

declare ptr_digits.simps [simp del]

definition arg_signed :: "len_mod \<Rightarrow> u64 \<Rightarrow> u64" where
  "arg_signed lm w = (if lm = No_Mod then scast (ucast w :: u32) else w)"

definition arg_unsigned :: "len_mod \<Rightarrow> u64 \<Rightarrow> u64" where
  "arg_unsigned lm w = (if lm = No_Mod then ucast (ucast w :: u32) else w)"

definition signed_text :: "u64 \<Rightarrow> string" where
  "signed_text v =
     (let is_negative = sint v < 0;
          abs_value = (if is_negative then - v else v);
          digits = dec_digits abs_value []
      in if is_negative then CHR ''-'' # digits else digits)"

text \<open>What may still be copied at position \<open>pos\<close> of the buffer.\<close>

definition clamp_text :: "nat \<Rightarrow> string \<Rightarrow> string" where
  "clamp_text pos txt = take (PRINTF_BUFFER_SIZE - pos - 1) txt"

text \<open>
  One conversion: the specifier, its length modifier, the arguments left and the position
  in the buffer give the text that is appended and the remaining arguments.
\<close>

definition convert :: "char \<Rightarrow> len_mod \<Rightarrow> va_arg list \<Rightarrow> nat \<Rightarrow> fmt_fault + string \<times> va_arg list" where
  "convert f lm args pos =
     (if f = CHR ''c'' then
        (case args of VWord w # as \<Rightarrow> Inr ([char_of (unat w)], as) | _ \<Rightarrow> Inl Missing_Arg)
      else if f = CHR ''s'' then
        (case args of
           VStr s # as \<Rightarrow> Inr (clamp_text pos (case s of None \<Rightarrow> ''(null)'' | Some t \<Rightarrow> t), as)
         | _ \<Rightarrow> Inl Missing_Arg)
      else if f = CHR ''d'' \<or> f = CHR ''i'' then
        (case args of
           VWord w # as \<Rightarrow> Inr (clamp_text pos (signed_text (arg_signed lm w)), as)
         | _ \<Rightarrow> Inl Missing_Arg)
      else if f = CHR ''u'' then
        (case args of
           VWord w # as \<Rightarrow> Inr (clamp_text pos (dec_digits (arg_unsigned lm w) []), as)
         | _ \<Rightarrow> Inl Missing_Arg)
      else if f = CHR ''x'' \<or> f = CHR ''X'' then
        (case args of
           VWord w # as \<Rightarrow>
             Inr (clamp_text pos (hex_digits (f = CHR ''X'') (arg_unsigned lm w) []), as)
         | _ \<Rightarrow> Inl Missing_Arg)
      else if f = CHR ''p'' then
        (case args of
           VWord w # as \<Rightarrow>
             (let prefix = (if pos + 2 < PRINTF_BUFFER_SIZE - 1 then ''0x'' else '''')
              in Inr (prefix @ clamp_text (pos + length prefix) (ptr_digits w 0 []), as))
         | _ \<Rightarrow> Inl Missing_Arg)
      else if f = CHR ''%'' then Inr (''%'', args)
      else Inr ([CHR ''%'', f], args))"

lemma length_length_mod: "length (snd (length_mod fs)) \<le> length fs"
  by (induction fs rule: length_mod.induct) auto

lemma length_skip_flags: "length (skip_flags fs) \<le> length fs"
  unfolding skip_flags_def by (meson length_dropWhile_le order_trans)

lemma length_mod_shorter: "length_mod (skip_flags fs) = (lm, sp) \<Longrightarrow> length sp \<le> length fs"
  using length_length_mod [of "skip_flags fs"] length_skip_flags [of fs] by simp

text \<open>
  The main loop. At the terminator right after \<open>%\<close>, the default branch copies the
  terminator and the increment then leaves the format string.
\<close>

function kprintf_loop :: "string \<Rightarrow> va_arg list \<Rightarrow> string \<Rightarrow> fmt_fault + string" where
  "kprintf_loop fs args buf =
     (case fs of
        [] \<Rightarrow> Inr buf
      | c # r \<Rightarrow>
          if \<not> length buf < PRINTF_BUFFER_SIZE - 1 then Inr buf
          else if c \<noteq> CHR ''%'' then kprintf_loop r args (buf @ [c])
          else (case length_mod (skip_flags r) of
                  (lm, []) \<Rightarrow> Inl Format_Overrun
                | (lm, f # r') \<Rightarrow>
                    (case convert f lm args (length buf) of
                       Inl e \<Rightarrow> Inl e
                     | Inr (txt, args') \<Rightarrow> kprintf_loop r' args' (buf @ txt))))"
  by pat_completeness auto

termination
proof (relation "measure (\<lambda>(fs, args, buf). length fs)", goal_cases)
  case (3 fs args buf c r lm sp f r' x t args')
  then have "Suc (length r') \<le> length r"
    by (auto dest: length_mod_shorter [OF sym])
  with 3 show ?case by simp
qed auto

declare kprintf_loop.simps [simp del]

text \<open>The terminator is stored behind the text, then the buffer is sent up to the first NUL.\<close>

definition kprintf_buf :: "string \<Rightarrow> va_arg list \<Rightarrow> fmt_fault + string" where
  "kprintf_buf fmt args =
     (case kprintf_loop fmt args [] of
        Inl e \<Rightarrow> Inl e
      | Inr buf \<Rightarrow> if length buf < PRINTF_BUFFER_SIZE then Inr buf else Inl Buffer_Overflow)"

definition kprintf_text :: "string \<Rightarrow> va_arg list \<Rightarrow> string" where
  "kprintf_text fmt args =
     (case kprintf_buf fmt args of Inl _ \<Rightarrow> '''' | Inr buf \<Rightarrow> takeWhile (\<lambda>c. c \<noteq> NUL) buf)"

text \<open>The call, and the value it returns: the length of the text with any NUL in it.\<close>

definition kprintf_ret :: "string \<Rightarrow> va_arg list \<Rightarrow> int option" where
  "kprintf_ret fmt args = (case kprintf_buf fmt args of Inl _ \<Rightarrow> None | Inr buf \<Rightarrow> Some (int (length buf)))"

definition kprintf :: "string \<Rightarrow> va_arg list \<Rightarrow> 'a machine_scheme \<Rightarrow> 'a machine_scheme" where
  "kprintf fmt args s = s\<lparr>uart := uart_puts (map of_char (kprintf_text fmt args)) (uart s)\<rparr>"

text \<open>The conversion specifiers of a format, NUL for a \<open>%\<close> at its end, and the calls
  whose arguments fit them.\<close>

function conversions :: "string \<Rightarrow> string" where
  "conversions fs =
     (case fs of
        [] \<Rightarrow> []
      | c # r \<Rightarrow>
          if c \<noteq> CHR ''%'' then conversions r
          else (case length_mod (skip_flags r) of
                  (lm, []) \<Rightarrow> [NUL]
                | (lm, f # r') \<Rightarrow> f # conversions r'))"
  by pat_completeness auto
termination
proof (relation "measure length", goal_cases)
  case (3 fs c r lm sp f r')
  then have "Suc (length r') \<le> length r"
    by (auto dest: length_mod_shorter [OF sym])
  with 3 show ?case by simp
qed auto

declare conversions.simps [simp del]

fun args_match :: "string \<Rightarrow> va_arg list \<Rightarrow> bool" where
  "args_match [] args = True"
| "args_match (f # fs) args =
     (if f = CHR ''%'' then args_match fs args
      else if f = CHR ''s'' then (case args of VStr _ # as \<Rightarrow> args_match fs as | _ \<Rightarrow> False)
      else f \<in> set ''cdiuxXp'' \<and> (case args of VWord _ # as \<Rightarrow> args_match fs as | _ \<Rightarrow> False))"

text \<open>Positional digits, most significant first: the reference for the number conversions.\<close>

function nat_digits :: "nat \<Rightarrow> nat \<Rightarrow> nat list" where
  "nat_digits b n = (if n < b \<or> b < 2 then [n] else nat_digits b (n div b) @ [n mod b])"
  by pat_completeness auto
termination
  by (relation "measure snd") auto

declare nat_digits.simps [simp del]

text \<open>The unbounded reference for the formatter: what a buffer without a limit would hold.\<close>

fun conv_text :: "char \<Rightarrow> len_mod \<Rightarrow> va_arg \<Rightarrow> string" where
  "conv_text f lm (VStr s) = (case s of None \<Rightarrow> ''(null)'' | Some t \<Rightarrow> t)"
| "conv_text f lm (VWord w) =
     (if f = CHR ''c'' then [char_of (unat w)]
      else if f = CHR ''d'' \<or> f = CHR ''i'' then signed_text (arg_signed lm w)
      else if f = CHR ''u'' then dec_digits (arg_unsigned lm w) []
      else if f = CHR ''p'' then ''0x'' @ ptr_digits w 0 []
      else hex_digits (f = CHR ''X'') (arg_unsigned lm w) [])"

function render :: "string \<Rightarrow> va_arg list \<Rightarrow> string" where
  "render fs args =
     (case fs of
        [] \<Rightarrow> []
      | c # r \<Rightarrow>
          if c \<noteq> CHR ''%'' then c # render r args
          else (case length_mod (skip_flags r) of
                  (lm, []) \<Rightarrow> []
                | (lm, f # r') \<Rightarrow>
                    if f = CHR ''%'' then CHR ''%'' # render r' args
                    else (case args of [] \<Rightarrow> [] | a # as \<Rightarrow> conv_text f lm a @ render r' as)))"
  by pat_completeness auto
termination
proof (relation "measure (\<lambda>(fs, args). length fs)", goal_cases)
  case (3 fs args c r lm sp f r')
  then have "Suc (length r') \<le> length r"
    by (auto dest: length_mod_shorter [OF sym])
  with 3 show ?case by simp
next
  case (4 fs args c r lm sp f r' a as)
  then have "Suc (length r') \<le> length r"
    by (auto dest: length_mod_shorter [OF sym])
  with 4 show ?case by simp
qed auto

declare render.simps [simp del]

definition digits_value :: "nat \<Rightarrow> nat list \<Rightarrow> nat" where
  "digits_value b ds = foldl (\<lambda>a d. a * b + d) 0 ds"

definition hex_digit_char :: "bool \<Rightarrow> nat \<Rightarrow> char" where
  "hex_digit_char upper d =
     (if upper then ''0123456789ABCDEF'' else ''0123456789abcdef'') ! d"

section \<open>Reading\<close>

definition kgetc :: "uart_dev \<Rightarrow> byte \<times> uart_dev" where
  "kgetc u = uart_getc u"

partial_function (option) kgetc_wait :: "uart_dev \<Rightarrow> (byte \<times> uart_dev) option" where
  "kgetc_wait u =
     (case uart_getc u of (c, u') \<Rightarrow> if c = 0 then kgetc_wait u' else Some (c, u'))"

definition kgetc_blocking :: "uart_dev \<Rightarrow> (byte \<times> uart_dev) option" where
  "kgetc_blocking u =
     (case kgetc_wait u of
        None \<Rightarrow> None
      | Some (c, u') \<Rightarrow> Some (if c = 13 then 10 else c, u'))"

definition rx_bytes :: "uart_dev \<Rightarrow> byte list" where
  "rx_bytes u = map (\<lambda>(n, v). ucast v) (rx_line u)"

section \<open>Number conversions\<close>

lemma digits_value_snoc [simp]: "digits_value b (ds @ [d]) = digits_value b ds * b + d"
  by (simp add: digits_value_def)

lemma digits_value_single [simp]: "digits_value b [d] = d"
  by (simp add: digits_value_def)

lemma digits_value_nat_digits: "digits_value b (nat_digits b n) = n"
proof (induction b n rule: nat_digits.induct)
  case (1 b n)
  then show ?case
    by (cases "n < b \<or> b < 2") (simp_all add: nat_digits.simps [of b n])
qed

lemma nat_digits_less: "2 \<le> b \<Longrightarrow> d \<in> set (nat_digits b n) \<Longrightarrow> d < b"
proof (induction b n rule: nat_digits.induct)
  case (1 b n)
  then show ?case
    by (cases "n < b") (auto simp: nat_digits.simps [of b n])
qed

lemma nat_digits_not_Nil: "nat_digits b n \<noteq> []"
  by (subst nat_digits.simps) simp

lemma length_nat_digits: "2 \<le> b \<Longrightarrow> 0 < k \<Longrightarrow> n < b ^ k \<Longrightarrow> length (nat_digits b n) \<le> k"
proof (induction k arbitrary: n)
  case (Suc k)
  show ?case
  proof (cases "n < b")
    case True
    then show ?thesis by (subst nat_digits.simps) simp
  next
    case False
    with Suc.prems have "0 < k" by (cases k) auto
    moreover have "n div b < b ^ k"
      using Suc.prems by (simp add: less_mult_imp_div_less mult.commute)
    ultimately have "length (nat_digits b (n div b)) \<le> k" using Suc by simp
    with False Suc.prems show ?thesis by (subst nat_digits.simps) simp
  qed
qed simp

lemma dec_digits_eq:
  "dec_digits v acc = map (\<lambda>d. char_of (48 + d)) (nat_digits 10 (unat v)) @ acc"
proof (induction v acc rule: dec_digits.induct)
  case (1 v acc)
  have pos: "v div 10 > 0 \<longleftrightarrow> \<not> unat v < 10"
    by (simp add: word_less_nat_alt unat_div div_greater_zero_iff not_less)
  show ?case
    using 1 by (subst dec_digits.simps, subst nat_digits.simps)
      (auto simp: Let_def pos unat_div unat_mod)
qed

lemma hex_char_eq: "hex_char b v = hex_digit_char b (unat v mod 16)"
proof -
  have "v AND 0xF = take_bit 4 v"
    by (simp add: take_bit_eq_mask mask_eq_exp_minus_1)
  then have "unat (v AND 0xF) = unat v mod 16"
    by (simp add: take_bit_eq_mod unat_mod)
  then show ?thesis by (simp add: hex_char_def hex_digit_char_def)
qed

lemma unat_drop_bit_4: "unat (drop_bit 4 (v :: u64)) = unat v div 16"
  by (simp add: drop_bit_eq_div unat_div)

lemma drop_bit_4_pos: "drop_bit 4 (v :: u64) > 0 \<longleftrightarrow> \<not> unat v < 16"
  by (simp add: word_less_nat_alt unat_drop_bit_4 div_greater_zero_iff not_less)

lemma hex_digits_eq:
  "hex_digits b v acc = map (hex_digit_char b) (nat_digits 16 (unat v)) @ acc"
proof (induction b v acc rule: hex_digits.induct)
  case (1 b v acc)
  show ?case
    using 1 by (subst hex_digits.simps, subst nat_digits.simps)
      (auto simp: Let_def drop_bit_4_pos unat_drop_bit_4 hex_char_eq)
qed

lemma length_dec_digits: "unat v < 10 ^ k \<Longrightarrow> 0 < k \<Longrightarrow> length (dec_digits v []) \<le> k"
  by (simp add: dec_digits_eq length_nat_digits)

lemma length_hex_digits: "length (hex_digits b v []) \<le> 16"
  using length_nat_digits [of 16 16 "unat v"] unat_lt64 [of v] by (simp add: hex_digits_eq)

lemma sint_neg_iff: "sint (v :: u64) < 0 \<longleftrightarrow> 2 ^ 63 \<le> unat v"
proof -
  have "sint v < 0 \<longleftrightarrow> bit v 63"
    using bit_last_iff [of v] by simp
  also have "\<dots> \<longleftrightarrow> bit (unat v) 63"
    by (simp add: bit_unsigned_iff)
  also have "\<dots> \<longleftrightarrow> odd (unat v div 2 ^ 63)"
    by (rule bit_iff_odd)
  also have "\<dots> \<longleftrightarrow> 2 ^ 63 \<le> unat v"
  proof -
    have "unat v div 2 ^ 63 < 2"
      using unat_lt64 [of v] by (simp add: less_mult_imp_div_less)
    then have "odd (unat v div 2 ^ 63) \<longleftrightarrow> 0 < unat v div 2 ^ 63"
      by (cases "unat v div 2 ^ 63") auto
    then show ?thesis by (simp add: div_greater_zero_iff)
  qed
  finally show ?thesis .
qed

lemma length_ptr_digits_acc:
  "n < 16 \<Longrightarrow> unat v < 16 ^ (16 - n) \<Longrightarrow> length (ptr_digits v n acc) = 16 - n + length acc"
proof (induction v n acc rule: ptr_digits.induct)
  case (1 v n acc)
  show ?case
  proof (cases "n = 15")
    case True
    with 1 show ?thesis
      by (subst ptr_digits.simps) (simp add: Let_def drop_bit_4_pos)
  next
    case False
    with 1 have n: "Suc n < 16" by simp
    have "(16::nat) ^ (16 - n) = 16 * 16 ^ (16 - Suc n)"
      using n by (metis Suc_diff_Suc Suc_lessD power_Suc)
    with 1 have "unat (drop_bit 4 v) < 16 ^ (16 - Suc n)"
      by (simp add: unat_drop_bit_4 less_mult_imp_div_less mult.commute)
    with 1 n show ?thesis
      by (subst ptr_digits.simps) (simp add: Let_def)
  qed
qed

lemma length_ptr_digits: "length (ptr_digits v 0 []) = 16"
  using length_ptr_digits_acc [of 0 v "[]"] unat_lt64 [of v] by simp

text \<open>The pointer conversion fills up with zeros.\<close>

lemma ptr_digits_eq:
  assumes "n < 16" and "unat v < 16 ^ (16 - n)"
  shows "ptr_digits v n acc = replicate (16 - n - length (nat_digits 16 (unat v))) (CHR ''0'')
    @ map (hex_digit_char False) (nat_digits 16 (unat v)) @ acc"
  using assms
proof (induction v n acc rule: ptr_digits.induct)
  case (1 v n acc)
  note d = nat_digits.simps [of 16 "unat v"]
  show ?case
  proof (cases "n = 15")
    case True
    with 1 have "unat v < 16" by simp
    then show ?thesis
      using True d by (subst ptr_digits.simps) (simp add: Let_def drop_bit_4_pos hex_char_eq)
  next
    case False
    with 1 have n: "Suc n < 16" by simp
    have e: "(16::nat) ^ (16 - n) = 16 * 16 ^ (16 - Suc n)"
      using n by (metis Suc_diff_Suc Suc_lessD power_Suc)
    with 1 have u: "unat (drop_bit 4 v) < 16 ^ (16 - Suc n)"
      by (simp add: unat_drop_bit_4 less_mult_imp_div_less mult.commute)
    have step: "ptr_digits v n acc = ptr_digits (drop_bit 4 v) (Suc n) (hex_char False v # acc)"
      using n by (subst ptr_digits.simps) (simp add: Let_def)
    note IH = 1(1) [OF refl refl refl disjI2 [OF n] n u]
    show ?thesis
    proof (cases "unat v < 16")
      case True
      obtain k where k: "16 - n = Suc (Suc k)" using n by (metis Suc_diff_Suc Suc_lessD)
      have z: "hex_digit_char False 0 = CHR ''0''" "nat_digits 16 0 = [0]"
        by (simp_all add: hex_digit_char_def nat_digits.simps)
      have "16 - Suc n = Suc k" using k by simp
      then show ?thesis
        using IH True d k z by (simp add: step unat_drop_bit_4 hex_char_eq replicate_append_same [symmetric])
    next
      case False
      then have "nat_digits 16 (unat v) = nat_digits 16 (unat v div 16) @ [unat v mod 16]" using d by simp
      then show ?thesis using IH by (simp add: step unat_drop_bit_4 hex_char_eq)
    qed
  qed
qed

lemma signed_text_eq:
  "signed_text v = (if sint v < 0 then ''-'' else '''')
     @ map (\<lambda>d. char_of (48 + d)) (nat_digits 10 (nat \<bar>sint v\<bar>))"
proof (cases "sint v < 0")
  case True
  have "- v = word_of_int (- sint v)" by simp
  then have "uint (- v) = (- sint v) mod 2 ^ 64" by (simp only: uint_word_of_int) simp
  also have "\<dots> = - sint v" using True sint_ge [of v] by (intro mod_pos_pos_trivial) simp_all
  finally have "nat \<bar>sint v\<bar> = unat (- v)" using True by (simp only: unat_eq_nat_uint)
  then show ?thesis using True by (simp add: signed_text_def dec_digits_eq)
next
  case False
  have "uint (word_of_int (sint v) :: u64) = sint v mod 2 ^ 64" by (simp only: uint_word_of_int) simp
  then have "uint v = sint v mod 2 ^ 64" by simp
  also have "\<dots> = sint v" using False sint_lt [of v] by (intro mod_pos_pos_trivial) simp_all
  finally have "nat \<bar>sint v\<bar> = unat v" using False by (simp only: unat_eq_nat_uint)
  then show ?thesis using False by (simp add: signed_text_def dec_digits_eq)
qed

lemma length_signed_text: "length (signed_text v) \<le> 20"
proof -
  define a where "a = (if sint v < 0 then - v else v)"
  have "unat a \<le> 2 ^ 63"
  proof (cases "sint v < 0")
    case True
    then have "2 ^ 63 \<le> unat v" by (simp only: sint_neg_iff)
    moreover have "unat (- v) = 2 ^ 64 - unat v"
      using unat_diff_wrap [of 0 v] \<open>2 ^ 63 \<le> unat v\<close> by simp
    ultimately show ?thesis using True by (simp add: a_def)
  next
    case False
    then have "\<not> 2 ^ 63 \<le> unat v" using sint_neg_iff [of v] by simp
    then show ?thesis using False by (simp add: a_def)
  qed
  then have "length (dec_digits a []) \<le> 19"
    by (intro length_dec_digits) simp_all
  then show ?thesis by (auto simp: signed_text_def Let_def a_def split: if_splits)
qed

section \<open>The formatter against its reference\<close>

lemma take_clamp:
  "length buf < N \<Longrightarrow> take N ((buf @ take (N - length buf) t) @ r) = take N (buf @ t @ r)"
  by (cases "length t \<le> N - length buf") (simp_all add: take_append)

text \<open>One step of each recursion over the format.\<close>

lemma conversions_step [simp]:
  "conversions [] = []"
  "c \<noteq> CHR ''%'' \<Longrightarrow> conversions (c # r) = conversions r"
  "length_mod (skip_flags r) = (lm, []) \<Longrightarrow> conversions (CHR ''%'' # r) = [NUL]"
  "length_mod (skip_flags r) = (lm, f # r') \<Longrightarrow> conversions (CHR ''%'' # r) = f # conversions r'"
  by (subst conversions.simps, simp)+

lemma render_step [simp]:
  "render [] args = []"
  "c \<noteq> CHR ''%'' \<Longrightarrow> render (c # r) args = c # render r args"
  "length_mod (skip_flags r) = (lm, CHR ''%'' # r') \<Longrightarrow>
     render (CHR ''%'' # r) args = CHR ''%'' # render r' args"
  "length_mod (skip_flags r) = (lm, f # r') \<Longrightarrow> f \<noteq> CHR ''%'' \<Longrightarrow>
     render (CHR ''%'' # r) (a # as) = conv_text f lm a @ render r' as"
  by (subst render.simps, simp)+

lemma kprintf_loop_step [simp]:
  "kprintf_loop [] args buf = Inr buf"
  "length buf < 1023 \<Longrightarrow> c \<noteq> CHR ''%'' \<Longrightarrow>
     kprintf_loop (c # r) args buf = kprintf_loop r args (buf @ [c])"
  "length buf < 1023 \<Longrightarrow> length_mod (skip_flags r) = (lm, []) \<Longrightarrow>
     kprintf_loop (CHR ''%'' # r) args buf = Inl Format_Overrun"
  "length buf < 1023 \<Longrightarrow> length_mod (skip_flags r) = (lm, f # r') \<Longrightarrow>
     convert f lm args (length buf) = Inr (t, as) \<Longrightarrow>
     kprintf_loop (CHR ''%'' # r) args buf = kprintf_loop r' as (buf @ t)"
  by (subst kprintf_loop.simps, simp add: PRINTF_BUFFER_SIZE_def)+

lemma kprintf_loop_full: "\<not> length buf < 1023 \<Longrightarrow> kprintf_loop fs args buf = Inr buf"
  by (subst kprintf_loop.simps) (simp add: PRINTF_BUFFER_SIZE_def split: list.splits)

text \<open>
  One conversion that has its argument appends the reference text, cut off at the end of
  the buffer.
\<close>

lemma convert_arg:
  assumes "args_match (f # fs) args" and "f \<noteq> CHR ''%''" and "pos < 1023"
    and "f = CHR ''p'' \<longrightarrow> pos + 18 \<le> 1023"
  shows "\<exists>a as. args = a # as \<and> args_match fs as
           \<and> convert f lm args pos = Inr (take (1023 - pos) (conv_text f lm a), as)"
proof (cases "f = CHR ''s''")
  case True
  with assms obtain s as where "args = VStr s # as" and "args_match fs as"
    by (auto split: list.splits va_arg.splits)
  with True show ?thesis
    by (auto simp: convert_def clamp_text_def PRINTF_BUFFER_SIZE_def split: option.splits)
next
  case False
  with assms obtain w as where a: "args = VWord w # as" "args_match fs as"
      and f: "f \<in> set ''cdiuxXp''"
    by (auto split: list.splits va_arg.splits)
  have "length (ptr_digits w 0 []) \<le> 1023 - (pos + 2)" if "f = CHR ''p''"
    using assms(4) that by (simp add: length_ptr_digits)
  with a f assms(3,4) show ?thesis
    by (auto simp: convert_def clamp_text_def PRINTF_BUFFER_SIZE_def)
qed

lemma kprintf_loop_render_conv:
  assumes IH: "\<And>y t as. \<not> \<not> length buf < PRINTF_BUFFER_SIZE - 1 \<Longrightarrow> \<not> c \<noteq> CHR ''%'' \<Longrightarrow>
      convert f lm args (length buf) = Inr y \<Longrightarrow> (t, as) = y \<Longrightarrow>
      args_match (conversions r') as \<Longrightarrow> length (buf @ t) \<le> 1023 \<Longrightarrow>
      CHR ''p'' \<notin> set (conversions r') \<or> length (buf @ t) + length (render r' as) \<le> 1023 \<Longrightarrow>
      kprintf_loop r' as (buf @ t) = Inr (take 1023 ((buf @ t) @ render r' as))"
    and prems: "args_match (conversions fs) args"
      "CHR ''p'' \<notin> set (conversions fs) \<or> length buf + length (render fs args) \<le> 1023"
    and c: "c = CHR ''%''" and fs: "fs = c # r"
    and lm: "length_mod (skip_flags r) = (lm, sp)" and sp: "sp = f # r'"
    and len: "length buf < 1023"
  shows "kprintf_loop fs args buf = Inr (take 1023 (buf @ render fs args))"
proof -
  have step: "kprintf_loop r' as (buf @ t) = Inr (take 1023 ((buf @ t) @ render r' as))"
    if "convert f lm args (length buf) = Inr (t, as)" "args_match (conversions r') as"
      "length (buf @ t) \<le> 1023"
      "CHR ''p'' \<notin> set (conversions r') \<or> length (buf @ t) + length (render r' as) \<le> 1023" for t as
    using IH [OF _ _ that(1) refl that(2-4)] len c by (simp add: PRINTF_BUFFER_SIZE_def)
  have conv: "conversions fs = f # conversions r'"
    using c fs lm sp by simp
  show ?thesis
  proof (cases "f = CHR ''%''")
    case True
    then have cv: "convert f lm args (length buf) = Inr (''%'', args)" by (simp add: convert_def)
    have rd: "render fs args = CHR ''%'' # render r' args"
      using c fs lm sp True by simp
    have "kprintf_loop r' args (buf @ ''%'') = Inr (take 1023 ((buf @ ''%'') @ render r' args))"
      using prems conv True rd len by (intro step [OF cv]) auto
    with cv rd c fs lm sp len show ?thesis by simp
  next
    case False
    have rd: "render fs (a # as) = conv_text f lm a @ render r' as" for a as
      using c fs lm sp False by simp
    have p18: "f = CHR ''p'' \<longrightarrow> length buf + 18 \<le> 1023"
    proof
      assume p: "f = CHR ''p''"
      with prems conv obtain w as where "args = VWord w # as"
        by (auto split: list.splits va_arg.splits)
      with prems(2) p conv rd show "length buf + 18 \<le> 1023"
        by (auto simp: length_ptr_digits)
    qed
    obtain a as where a: "args = a # as" "args_match (conversions r') as"
        and cv: "convert f lm args (length buf) = Inr (take (1023 - length buf) (conv_text f lm a), as)"
      using convert_arg [OF prems(1) [unfolded conv] False len p18] by blast
    have "kprintf_loop r' as (buf @ take (1023 - length buf) (conv_text f lm a))
        = Inr (take 1023 ((buf @ take (1023 - length buf) (conv_text f lm a)) @ render r' as))"
      using prems(2) a conv rd len by (intro step [OF cv]) auto
    then have "kprintf_loop r' as (buf @ take (1023 - length buf) (conv_text f lm a))
        = Inr (take 1023 (buf @ conv_text f lm a @ render r' as))"
      by (simp only: take_clamp [OF len])
    with cv rd a c fs lm sp len show ?thesis by simp
  qed
qed

lemma kprintf_loop_render:
  assumes "args_match (conversions fs) args" and "length buf \<le> 1023"
    and "CHR ''p'' \<notin> set (conversions fs) \<or> length buf + length (render fs args) \<le> 1023"
  shows "kprintf_loop fs args buf = Inr (take 1023 (buf @ render fs args))"
  using assms
proof (induction fs args buf rule: kprintf_loop.induct)
  case (1 fs args buf)
  show ?case
  proof (cases "fs = [] \<or> length buf = 1023")
    case True
    with 1 show ?thesis by (auto simp: kprintf_loop_full)
  next
    case False
    then obtain c r where fs: "fs = c # r" by (cases fs) auto
    from False "1.prems"(2) have len: "length buf < 1023" by simp
    obtain lm sp where lm: "length_mod (skip_flags r) = (lm, sp)"
      by (cases "length_mod (skip_flags r)")
    show ?thesis
    proof (cases "c = CHR ''%''")
      case False
      with "1.prems" fs len
      have "kprintf_loop r args (buf @ [c]) = Inr (take 1023 ((buf @ [c]) @ render r args))"
        by (intro "1.IH"(1) [OF fs]) (auto simp: PRINTF_BUFFER_SIZE_def)
      with False fs len show ?thesis by simp
    next
      case True
      with "1.prems"(1) fs lm obtain f r' where sp: "sp = f # r'"
        by (cases sp) (auto simp: NUL_def)
      show ?thesis
        using "1.IH"(2) [OF fs _ _ lm [symmetric] sp] "1.prems"(1,3) True fs lm sp len
        by (rule kprintf_loop_render_conv)
    qed
  qed
qed

lemma clamp_text_bound: "pos \<le> 1023 \<Longrightarrow> pos + length (clamp_text pos t) \<le> 1023"
  by (simp add: clamp_text_def PRINTF_BUFFER_SIZE_def)

lemma ptr_text_bound:
  assumes "pos < 1023" and "pre = (if pos + 2 < PRINTF_BUFFER_SIZE - 1 then ''0x'' else [])"
  shows "pos + length (pre @ clamp_text (pos + length pre) t) \<le> 1023"
  using clamp_text_bound [of "pos + length pre" t] assms
  by (simp add: PRINTF_BUFFER_SIZE_def split: if_splits)

lemma convert_safe:
  assumes "args_match (f # fs) args" and "pos < 1023"
  shows "\<exists>t as. convert f lm args pos = Inr (t, as) \<and> args_match fs as \<and> pos + length t \<le> 1023"
proof -
  consider "f = CHR ''%''"
    | s as where "f = CHR ''s''" "args = VStr s # as" "args_match fs as"
    | w as where "args = VWord w # as" "args_match fs as" "f \<in> set ''cdiuxXp''"
    using assms(1) by (auto split: list.splits va_arg.splits if_splits)
  then show ?thesis
  proof cases
    case 1
    with assms show ?thesis by (simp add: convert_def)
  next
    case 2
    with assms(2) show ?thesis
      by (simp add: convert_def clamp_text_def PRINTF_BUFFER_SIZE_def)
  next
    case 3
    show ?thesis
    proof (cases "f = CHR ''p''")
      case True
      with 3 ptr_text_bound [OF assms(2) refl] show ?thesis
        by (simp add: convert_def Let_def)
    next
      case False
      with 3 assms(2) clamp_text_bound [of pos] show ?thesis
        by (auto simp: convert_def)
    qed
  qed
qed

lemma kprintf_loop_safe:
  assumes "args_match (conversions fs) args" and "length buf \<le> 1023"
  shows "\<exists>r. kprintf_loop fs args buf = Inr r \<and> length r \<le> 1023"
  using assms
proof (induction fs args buf rule: kprintf_loop.induct)
  case (1 fs args buf)
  show ?case
  proof (cases "fs = [] \<or> length buf = 1023")
    case True
    with 1 show ?thesis by (auto simp: kprintf_loop_full)
  next
    case False
    then obtain c r where fs: "fs = c # r" by (cases fs) auto
    from False "1.prems"(2) have len: "length buf < 1023" by simp
    obtain lm sp where lm: "length_mod (skip_flags r) = (lm, sp)"
      by (cases "length_mod (skip_flags r)")
    show ?thesis
    proof (cases "c = CHR ''%''")
      case False
      with "1.prems" fs len have "\<exists>r'. kprintf_loop r args (buf @ [c]) = Inr r' \<and> length r' \<le> 1023"
        by (intro "1.IH"(1) [OF fs]) (auto simp: PRINTF_BUFFER_SIZE_def)
      with False fs len show ?thesis by simp
    next
      case True
      with "1.prems"(1) fs lm obtain f r' where sp: "sp = f # r'"
        by (cases sp) (auto simp: NUL_def)
      with "1.prems"(1) True fs lm have "args_match (f # conversions r') args" by simp
      then obtain t as where cv: "convert f lm args (length buf) = Inr (t, as)"
          and m: "args_match (conversions r') as" and l: "length buf + length t \<le> 1023"
        using convert_safe [of f "conversions r'" args "length buf" lm] len by blast
      have "\<exists>r''. kprintf_loop r' as (buf @ t) = Inr r'' \<and> length r'' \<le> 1023"
        using "1.IH"(2) [OF fs _ _ lm [symmetric] sp cv refl m] len l True
        by (simp add: PRINTF_BUFFER_SIZE_def)
      with True fs lm sp len cv show ?thesis by simp
    qed
  qed
qed

lemma kprintf_loop_plain:
  "CHR ''%'' \<notin> set pre \<Longrightarrow> length buf + length pre \<le> 1023 \<Longrightarrow>
   kprintf_loop (pre @ fs) args buf = kprintf_loop fs args (buf @ pre)"
proof (induction pre arbitrary: buf)
  case (Cons c pre)
  then have "kprintf_loop ((c # pre) @ fs) args buf = kprintf_loop (pre @ fs) args (buf @ [c])"
    by auto
  with Cons show ?case by simp
qed simp

section \<open>Theorems on the formatter\<close>

text \<open>
  C20. A call whose arguments match the conversion specifiers of its format fills the buffer
  with exactly the reference rendering, cut off at 1023 characters, and returns its length. (A \<open>%p\<close> within 18
  characters of the end drops its prefix, so such calls are covered when they fit.)
\<close>

theorem kprintf_buf_render:
  assumes "args_match (conversions fmt) args"
    and "CHR ''p'' \<notin> set (conversions fmt) \<or> length (render fmt args) \<le> 1023"
  shows "kprintf_buf fmt args = Inr (take 1023 (render fmt args))
    \<and> kprintf_ret fmt args = Some (int (min 1023 (length (render fmt args))))"
  using kprintf_loop_render [of fmt args "[]"] assms
  by (simp add: kprintf_ret_def kprintf_buf_def PRINTF_BUFFER_SIZE_def min.commute)

theorem kprintf_buf_render_witness:
  "kprintf_buf ''Allocated %zu bytes at 0x%p'' [VWord 64, VWord 0x40000030]
     = Inr ''Allocated 64 bytes at 0x0x0000000040000030''"
proof -
  have c: "conversions ''Allocated %zu bytes at 0x%p'' = ''up''" by code_simp
  have m: "args_match ''up'' [VWord 64, VWord 0x40000030]" by code_simp
  have r: "render ''Allocated %zu bytes at 0x%p'' [VWord 64, VWord 0x40000030]
      = ''Allocated 64 bytes at 0x0x0000000040000030''" by code_simp
  show ?thesis
    using kprintf_buf_render [of "''Allocated %zu bytes at 0x%p''" "[VWord 64, VWord 0x40000030]"]
    by (simp add: c m r)
qed

text \<open>
  C21. A well-formed call, with any conversions and arguments of any length, neither reads
  outside its format and arguments nor writes outside the 1024-byte buffer, the
  terminator included.
\<close>

theorem kprintf_safe:
  assumes "args_match (conversions fmt) args"
  shows "\<exists>buf. kprintf_buf fmt args = Inr buf \<and> length buf < PRINTF_BUFFER_SIZE"
  using kprintf_loop_safe [of fmt args "[]"] assms
  by (auto simp: kprintf_buf_def PRINTF_BUFFER_SIZE_def)

theorem kprintf_safe_witness:
  "\<exists>buf. kprintf_buf ''Unknown command: %s'' [VStr (Some (replicate 5000 (CHR ''a'')))] = Inr buf
     \<and> length buf < PRINTF_BUFFER_SIZE"
proof (rule kprintf_safe)
  have "conversions ''Unknown command: %s'' = ''s''" by code_simp
  then show "args_match (conversions ''Unknown command: %s'') [VStr (Some (replicate 5000 (CHR ''a'')))]"
    by simp
qed

lemma dec_chars: "d < 10 \<Longrightarrow> char_of (48 + d) = ''0123456789'' ! d"
proof -
  have "\<forall>d \<in> set [0..<10]. char_of (48 + d) = ''0123456789'' ! d" by code_simp
  then show "d < 10 \<Longrightarrow> ?thesis" by simp
qed

lemma dec_text: "map (\<lambda>d. char_of (48 + d)) (nat_digits 10 n) = map ((!) ''0123456789'') (nat_digits 10 n)"
  using nat_digits_less [of 10 _ n] by (intro map_cong refl dec_chars) simp

text \<open>
  C31. What the number conversions print, against the positional digits of the number
  (\<open>nat_digits\<close>, whose value is the number): \<open>%u\<close> all decimal digits, \<open>%d\<close> those of the absolute
  value behind a minus sign exactly if the number is negative, \<open>%x\<close> and \<open>%X\<close> the hexadecimal
  digits in small and capital letters, \<open>%p\<close> the hexadecimal digits with zeros in front up to
  sixteen. All of them fit the 21-byte digit buffer with its terminator.
\<close>

theorem number_conversions:
  "dec_digits v [] = map ((!) ''0123456789'') (nat_digits 10 (unat v))
   \<and> signed_text v = (if sint v < 0 then ''-'' else '''') @ map ((!) ''0123456789'') (nat_digits 10 (nat \<bar>sint v\<bar>))
   \<and> hex_digits False v [] = map ((!) ''0123456789abcdef'') (nat_digits 16 (unat v))
   \<and> hex_digits True v [] = map ((!) ''0123456789ABCDEF'') (nat_digits 16 (unat v))
   \<and> ptr_digits v 0 [] = replicate (16 - length (nat_digits 16 (unat v))) (CHR ''0'')
        @ map ((!) ''0123456789abcdef'') (nat_digits 16 (unat v))
   \<and> length (ptr_digits v 0 []) = 16
   \<and> digits_value 10 (nat_digits 10 n) = n \<and> digits_value 16 (nat_digits 16 n) = n
   \<and> length (dec_digits v []) < MAX_INT_DIGITS
   \<and> length (signed_text v) < MAX_INT_DIGITS
   \<and> length (hex_digits b v []) < MAX_INT_DIGITS
   \<and> length (ptr_digits v 0 []) < MAX_INT_DIGITS"
proof -
  have h: "hex_digit_char False = (!) ''0123456789abcdef''" "hex_digit_char True = (!) ''0123456789ABCDEF''"
    by (simp_all add: hex_digit_char_def fun_eq_iff)
  have p: "ptr_digits v 0 [] = replicate (16 - length (nat_digits 16 (unat v))) (CHR ''0'')
        @ map ((!) ''0123456789abcdef'') (nat_digits 16 (unat v))"
    using ptr_digits_eq [of 0 v "[]"] unat_lt64 [of v] unfolding h(1) by simp
  have "length (dec_digits v []) \<le> 20"
    using unat_lt64 [of v] by (intro length_dec_digits) simp_all
  then have l: "length (dec_digits v []) < MAX_INT_DIGITS" "length (signed_text v) < MAX_INT_DIGITS"
    "length (hex_digits b v []) < MAX_INT_DIGITS" "length (ptr_digits v 0 []) < MAX_INT_DIGITS"
    using length_signed_text [of v] length_hex_digits [of b v] length_ptr_digits [of v]
    by (simp_all add: MAX_INT_DIGITS_def)
  show ?thesis
    using p l length_ptr_digits [of v]
    by (simp only: dec_digits_eq signed_text_eq hex_digits_eq dec_text h digits_value_nat_digits append_Nil2 simp_thms)
qed

text \<open>
  C34. The default branch of the specifier switch stores two characters without a bound
  check: an unsupported specifier behind 1022 characters makes the terminator the 1025th
  byte of the 1024-byte buffer.
\<close>

theorem kprintf_unsupported_overflow:
  assumes "length pre = 1022" and "CHR ''%'' \<notin> set pre"
    and "f \<notin> set ''csdiuxXp%lz-+ 0123456789''"
  shows "kprintf_buf (pre @ [CHR ''%'', f]) args = Inl Buffer_Overflow"
proof -
  have nd: "\<not> is_digit f \<and> \<not> is_flag f"
  proof -
    have "f \<in> set ''0123456789''" if "is_digit f"
    proof -
      have "[48..<58] = (map of_char ''0123456789'' :: nat list)" by code_simp
      moreover from that have "of_char f \<in> set [48..<58]"
        unfolding set_upt is_digit_def by simp
      ultimately have "of_char f \<in> set (map of_char ''0123456789'' :: nat list)" by (simp only:)
      then obtain d where d: "d \<in> set ''0123456789''" and "(of_char f :: nat) = of_char d"
        unfolding set_map by (rule imageE)
      then have "f = d" by (metis char_of_char)
      with d show ?thesis by (simp only:)
    qed
    with assms(3) show ?thesis by (auto simp: is_flag_def)
  qed
  have "length_mod (skip_flags [f]) = (No_Mod, [f])"
    using nd assms(3) by (simp add: skip_flags_def)
  moreover have "convert f No_Mod args 1022 = Inr ([CHR ''%'', f], args)"
    using assms(3) by (simp add: convert_def)
  ultimately have "kprintf_loop (pre @ [CHR ''%'', f]) args [] = Inr (pre @ [CHR ''%'', f])"
    using assms(1,2) by (simp add: kprintf_loop_plain)
  then show ?thesis using assms(1) by (simp add: kprintf_buf_def PRINTF_BUFFER_SIZE_def)
qed

theorem kprintf_unsupported_overflow_witness:
  "kprintf_buf (replicate 1022 (CHR ''a'') @ ''%q'') [] = Inl Buffer_Overflow"
  by (rule kprintf_unsupported_overflow) simp_all

lemma kprintf_rx [simp]: "rx_bytes (uart (kprintf fmt args s)) = rx_bytes (uart s)"
proof -
  have "rx_bytes u = map ucast (map snd (rx_line u))" for u
    by (simp add: rx_bytes_def case_prod_unfold comp_def)
  then show ?thesis by (simp add: kprintf_def del: map_map)
qed

text \<open>
  C32. Everything \<open>kprintf\<close> formats reaches the line in order, each newline followed by
  a carriage return, however full the transmit FIFO is and however long it takes to drain;
  no received byte is lost, and nothing else of the machine changes, neither memory nor the
  other fields nor the configuration of the UART.
\<close>

theorem kprintf_delivers:
  "tx_out (uart (kprintf fmt args s)) =
     tx_out (uart s) @ concat (map (line_bytes \<circ> of_char) (kprintf_text fmt args))
   \<and> rx_bytes (uart (kprintf fmt args s)) = rx_bytes (uart s)
   \<and> (\<exists>b out rx. kprintf fmt args s = s\<lparr>uart := (uart s)\<lparr>tx_busy := b, tx_out := out, rx_line := rx\<rparr>\<rparr>)"
proof -
  have "\<exists>b out rx. kprintf fmt args s = s\<lparr>uart := (uart s)\<lparr>tx_busy := b, tx_out := out, rx_line := rx\<rparr>\<rparr>"
    using same_config_puts [of "uart s" "map of_char (kprintf_text fmt args)"]
    unfolding kprintf_def same_config_def by (elim exE) (intro exI, simp)
  moreover have "tx_out (uart (kprintf fmt args s)) =
      tx_out (uart s) @ concat (map (line_bytes \<circ> of_char) (kprintf_text fmt args))"
    by (simp add: kprintf_def)
  ultimately show ?thesis using kprintf_rx [of fmt args s] by blast
qed

section \<open>The blocking read\<close>

lemma rx_bytes_tick [simp]: "rx_bytes (uart_tick u) = rx_bytes u"
  by (auto simp: rx_bytes_def uart_tick_def split: list.splits)

lemma uart_getc_empty: "rx_empty u \<Longrightarrow> uart_getc u = (0, uart_tick u)"
  by (simp add: uart_getc_def)

lemma uart_getc_data:
  "rx_line u = (0, v) # ws \<Longrightarrow> uart_getc u = (ucast v, (uart_tick u)\<lparr>rx_line := ws\<rparr>)"
  using fr_rxfe [of u]
  by (simp add: uart_getc_def rx_empty_def read_dr_def uart_tick_def)

lemma kgetc_wait_returns:
  assumes "rx_bytes u = replicate n 0 @ b # rest" and "b \<noteq> 0"
  shows "\<exists>u'. kgetc_wait u = Some (b, u') \<and> rx_bytes u' = rest \<and> tx_out u' = tx_out u"
  using assms(1)
proof (induction "sum_list (map (\<lambda>(d, v). Suc d) (rx_line u))" arbitrary: u n rule: less_induct)
  case less
  then obtain d v ws where line: "rx_line u = (d, v) # ws"
    by (cases "rx_line u") (auto simp: rx_bytes_def)
  show ?case
  proof (cases d)
    case (Suc d')
    then have "uart_getc u = (0, uart_tick u)"
      using line by (intro uart_getc_empty) (simp add: rx_empty_def)
    then have "kgetc_wait u = kgetc_wait (uart_tick u)"
      by (subst kgetc_wait.simps) simp
    then show ?thesis
      using less.hyps [of "uart_tick u" n] less.prems line Suc by (simp add: uart_tick_def rx_bytes_def)
  next
    case 0
    let ?u1 = "(uart_tick u)\<lparr>rx_line := ws\<rparr>"
    have get: "uart_getc u = (ucast v, ?u1)" using line 0 by (intro uart_getc_data) simp
    have rx1: "rx_bytes ?u1 = tl (rx_bytes u)" using line by (simp add: rx_bytes_def)
    show ?thesis
    proof (cases n)
      case 0
      with less.prems line have "ucast v = b" by (simp add: rx_bytes_def)
      then show ?thesis
        using get rx1 less.prems 0 assms(2) by (subst kgetc_wait.simps) simp
    next
      case (Suc k)
      with less.prems line have "ucast v = (0 :: byte)" by (simp add: rx_bytes_def)
      then have "kgetc_wait u = kgetc_wait ?u1" using get by (subst kgetc_wait.simps) simp
      then show ?thesis
        using less.hyps [of ?u1 k] less.prems line rx1 Suc by simp
    qed
  qed
qed

lemma kgetc_wait_nonzero:
  assumes "kgetc_wait u = Some (c, u')"
  shows "\<exists>b \<in> set (rx_bytes u). b \<noteq> 0"
proof (rule kgetc_wait.raw_induct
    [where P = "\<lambda>u r. \<exists>b \<in> set (rx_bytes u). b \<noteq> 0", OF _ assms])
  fix f u r
  assume IH: "\<And>u r. f u = Some r \<Longrightarrow> \<exists>b \<in> set (rx_bytes u). b \<noteq> 0"
    and eq: "(case uart_getc u of (c, u') \<Rightarrow> if c = 0 then f u' else Some (c, u')) = Some r"
  show "\<exists>b \<in> set (rx_bytes u). b \<noteq> 0"
  proof (cases "rx_empty u")
    case True
    with eq show ?thesis using IH [of "uart_tick u" r] by (simp add: uart_getc_empty)
  next
    case False
    then obtain v ws where line: "rx_line u = (0, v) # ws"
      by (auto simp: rx_empty_def split: list.splits prod.splits)
    then show ?thesis
      using eq IH [of "(uart_tick u)\<lparr>rx_line := ws\<rparr>" r]
      by (auto simp: uart_getc_data rx_bytes_def split: if_splits)
  qed
qed

lemma kgetc_blocking_stuck: "\<forall>b \<in> set (rx_bytes u). b = 0 \<Longrightarrow> kgetc_blocking u = None"
  using kgetc_wait_nonzero [of u] by (auto simp: kgetc_blocking_def split: option.splits)

lemma kgetc_blocking_gets:
  assumes "rx_bytes u = replicate n 0 @ b # rest" and "b \<noteq> 0"
  shows "\<exists>u'. kgetc_blocking u = Some (if b = 13 then 10 else b, u') \<and> rx_bytes u' = rest \<and> tx_out u' = tx_out u"
  using kgetc_wait_returns [OF assms] by (auto simp: kgetc_blocking_def)

text \<open>
  C33. \<open>kgetc_blocking\<close> returns the first byte on the line that is not NUL, with a carriage
  return turned into a newline, and consumes exactly the bytes up to it. If nothing but NUL
  bytes will arrive, it waits for ever.
\<close>

theorem kgetc_blocking_correct:
  "case dropWhile (\<lambda>b. b = 0) (rx_bytes u) of
     [] \<Rightarrow> kgetc_blocking u = None
   | b # rest \<Rightarrow> \<exists>u'. kgetc_blocking u = Some (if b = 13 then 10 else b, u') \<and> rx_bytes u' = rest \<and> tx_out u' = tx_out u"
proof (cases "dropWhile (\<lambda>b. b = 0) (rx_bytes u)")
  case Nil
  then have "kgetc_blocking u = None" by (intro kgetc_blocking_stuck) simp
  then show ?thesis using Nil by (simp only: list.simps)
next
  case (Cons b rest)
  let ?pre = "takeWhile (\<lambda>b. b = 0) (rx_bytes u)"
  have "replicate (length ?pre) 0 = ?pre" by (rule replicate_length_same) (auto dest: set_takeWhileD)
  then have "rx_bytes u = replicate (length ?pre) 0 @ b # rest"
    using takeWhile_dropWhile_id [of "\<lambda>b. b = 0" "rx_bytes u"] unfolding Cons by simp
  moreover have "b \<noteq> 0" using Cons hd_dropWhile [of "\<lambda>b. b = 0" "rx_bytes u"] by (metis list.distinct(1) list.sel(1))
  ultimately show ?thesis using Cons kgetc_blocking_gets [of u "length ?pre" b rest] by simp
qed

theorem kgetc_blocking_correct_witness:
  "\<exists>u'. kgetc_blocking \<lparr>uart_ibrd = 0, uart_fbrd = 0, uart_lcrh = 0, uart_imsc = 0, uart_cr = 0,
       tx_busy = [], tx_out = [], rx_line = [(3, 0), (2, 13), (0, 65)], rx_stale = 88\<rparr> = Some (10, u')
     \<and> rx_bytes u' = [65] \<and> tx_out u' = []"
  using kgetc_blocking_correct [of "\<lparr>uart_ibrd = 0, uart_fbrd = 0, uart_lcrh = 0, uart_imsc = 0,
      uart_cr = 0, tx_busy = [], tx_out = [], rx_line = [(3, 0), (2, 13), (0, 65)], rx_stale = 88\<rparr>"]
  by (simp add: rx_bytes_def)

end
