(* ===== verification/Frame_Alloc.thy ===== *)
theory Frame_Alloc
  imports CString Stdio
begin

text \<open>
  The physical memory manager of \<^verbatim>\<open>src/src/memory/frame_alloc.c\<close>: a bitmap with
  one bit per 4 KB frame, 1 for a used frame. The bitmap lies in memory, at
  \<open>frame_bitmap\<close>; the counters are static variables and so fields of the state.
  Frame indices are \<open>nat\<close>; addresses and sizes are 64-bit words.
\<close>

section \<open>State and constants\<close>

abbreviation PAGE_SIZE :: u64 where "PAGE_SIZE \<equiv> 4096"
abbreviation PMM_RAM_BASE :: u64 where "PMM_RAM_BASE \<equiv> 0x40000000"
abbreviation PMM_MANAGEABLE_SIZE :: u64 where "PMM_MANAGEABLE_SIZE \<equiv> 0x40000000"
abbreviation PMM_MAX_ADDRESS :: u64 where "PMM_MAX_ADDRESS \<equiv> 0x80000000"
abbreviation PMM_TOTAL_FRAMES :: nat where "PMM_TOTAL_FRAMES \<equiv> 262144"

record pmm = machine +
  frame_bitmap :: addr
  total_memory :: u64
  free_memory :: u64
  highest_usable_address :: u64

text \<open>The symbols of the linker script, and the boot parameters.\<close>

record linker_syms =
  sym_kernel_start :: addr
  sym_text_end :: addr
  sym_rodata_start :: addr
  sym_rodata_end :: addr
  sym_rodata_load :: addr
  sym_data_start :: addr
  sym_data_end :: addr
  sym_data_load :: addr
  sym_bss_start :: addr
  sym_bss_end :: addr
  sym_stack_top :: addr
  sym_stack_bottom :: addr
  sym_pmm_bitmap_start :: addr
  sym_pmm_bitmap_end :: addr
  sym_kernel_end :: addr

record kernel_boot_params =
  uefi_memory_map :: addr
  map_size :: u64
  map_desc_size :: u64
  map_desc_version :: u32
  kernel_phys_start :: u64
  kernel_phys_end :: u64

section \<open>Bitmap\<close>

definition bitmap_byte :: "nat \<Rightarrow> 'a pmm_scheme \<Rightarrow> addr" where
  "bitmap_byte i s = frame_bitmap s + of_nat (i div 8)"

definition set_bit_bm :: "nat \<Rightarrow> 'a pmm_scheme \<Rightarrow> 'a pmm_scheme" where
  "set_bit_bm i s =
     (let a = bitmap_byte i s in s\<lparr>mem := (mem s)(a := mem s a OR push_bit (i mod 8) 1)\<rparr>)"

definition clear_bit :: "nat \<Rightarrow> 'a pmm_scheme \<Rightarrow> 'a pmm_scheme" where
  "clear_bit i s =
     (let a = bitmap_byte i s in s\<lparr>mem := (mem s)(a := mem s a AND NOT (push_bit (i mod 8) 1))\<rparr>)"

definition test_bit :: "nat \<Rightarrow> 'a pmm_scheme \<Rightarrow> bool" where
  "test_bit i s = (mem s (bitmap_byte i s) AND push_bit (i mod 8) 1 \<noteq> 0)"

section \<open>Ranges\<close>

definition range_start :: "u64 \<Rightarrow> u64" where
  "range_start base_addr =
     (if base_addr \<ge> PMM_RAM_BASE then (base_addr - PMM_RAM_BASE) div PAGE_SIZE else UINT64_MAX)"

definition range_end :: "u64 \<Rightarrow> u64 \<Rightarrow> u64" where
  "range_end base_addr size' =
     (let end_addr = base_addr + size'
      in if end_addr > PMM_RAM_BASE then (end_addr - 1 - PMM_RAM_BASE) div PAGE_SIZE else 0)"

definition mark_used_step :: "nat \<Rightarrow> 'a pmm_scheme \<Rightarrow> 'a pmm_scheme" where
  "mark_used_step i s =
     (if \<not> test_bit i s then
        (let s1 = set_bit_bm i s;
             s2 = (if total_memory s1 \<ge> PAGE_SIZE
                   then s1\<lparr>total_memory := total_memory s1 - PAGE_SIZE\<rparr> else s1)
         in if free_memory s2 \<ge> PAGE_SIZE
            then s2\<lparr>free_memory := free_memory s2 - PAGE_SIZE\<rparr> else s2)
      else s)"

function mark_used_loop :: "nat \<Rightarrow> nat \<Rightarrow> 'a pmm_scheme \<Rightarrow> 'a pmm_scheme" where
  "mark_used_loop i end_frame s =
     (if i \<le> end_frame then mark_used_loop (Suc i) end_frame (mark_used_step i s) else s)"
  by pat_completeness auto
termination
  by (relation "measure (\<lambda>(i, e, s). Suc e - i)") auto

declare mark_used_loop.simps [simp del]

definition mark_range_used :: "u64 \<Rightarrow> u64 \<Rightarrow> 'a pmm_scheme \<Rightarrow> 'a pmm_scheme" where
  "mark_range_used base_addr size' s =
     (let start_frame = unat (range_start base_addr); end_frame = unat (range_end base_addr size')
      in if start_frame \<ge> PMM_TOTAL_FRAMES then s
         else mark_used_loop start_frame
                (if end_frame \<ge> PMM_TOTAL_FRAMES then PMM_TOTAL_FRAMES - 1 else end_frame) s)"

definition mark_free_step :: "nat \<Rightarrow> 'a pmm_scheme \<Rightarrow> 'a pmm_scheme" where
  "mark_free_step i s =
     (let s1 = (if test_bit i s then
                  (let t = s\<lparr>total_memory := total_memory s + PAGE_SIZE,
                             free_memory := free_memory s + PAGE_SIZE\<rparr>;
                       top = PMM_RAM_BASE + (of_nat i + 1) * PAGE_SIZE
                   in if top > highest_usable_address t
                      then t\<lparr>highest_usable_address := top\<rparr> else t)
                else s)
      in clear_bit i s1)"

function mark_free_loop :: "nat \<Rightarrow> nat \<Rightarrow> 'a pmm_scheme \<Rightarrow> 'a pmm_scheme" where
  "mark_free_loop i end_frame s =
     (if i \<le> end_frame then mark_free_loop (Suc i) end_frame (mark_free_step i s) else s)"
  by pat_completeness auto
termination
  by (relation "measure (\<lambda>(i, e, s). Suc e - i)") auto

declare mark_free_loop.simps [simp del]

definition mark_range_free :: "u64 \<Rightarrow> u64 \<Rightarrow> 'a pmm_scheme \<Rightarrow> 'a pmm_scheme" where
  "mark_range_free base_addr size' s =
     (let start_frame = unat (range_start base_addr); end_frame = unat (range_end base_addr size')
      in if start_frame \<ge> PMM_TOTAL_FRAMES then s
         else mark_free_loop start_frame
                (if end_frame \<ge> PMM_TOTAL_FRAMES then PMM_TOTAL_FRAMES - 1 else end_frame) s)"

section \<open>Interface\<close>

definition frame_alloc_init ::
    "linker_syms \<Rightarrow> kernel_boot_params option \<Rightarrow> 'a pmm_scheme \<Rightarrow> 'a pmm_scheme" where
  "frame_alloc_init ls params s =
     (let s0 = kprintf ''PMM: Initializing Physical Memory Manager...\<newline>'' [] s;
          bitmap_size = sym_pmm_bitmap_end ls - sym_pmm_bitmap_start ls;
          s1 = kprintf ''PMM: Bitmap size: %zu bytes, located at %p\<newline>''
                 [VWord bitmap_size, VWord (frame_bitmap s0)] s0;
          s2 = s1\<lparr>mem := memset (mem s1) (frame_bitmap s1) 0xFF bitmap_size,
                 total_memory := 0, free_memory := 0, highest_usable_address := PMM_RAM_BASE\<rparr>;
          s3 = (case params of
                  Some ps \<Rightarrow>
                    mark_range_used (kernel_phys_start ps)
                      (kernel_phys_end ps - kernel_phys_start ps)
                      (mark_range_free PMM_RAM_BASE PMM_MANAGEABLE_SIZE s2)
                | None \<Rightarrow>
                    mark_range_used (sym_kernel_start ls)
                      (sym_kernel_end ls - sym_kernel_start ls)
                      (mark_range_free PMM_RAM_BASE PMM_MANAGEABLE_SIZE s2));
          s4 = mark_range_used (frame_bitmap s3) bitmap_size s3
      in kprintf ''PMM: Initialization complete. Total: %llu KB, Free: %llu KB\<newline>''
           [VWord (total_memory s4 div 1024), VWord (free_memory s4 div 1024)] s4)"

definition frame_addr :: "nat \<Rightarrow> addr" where
  "frame_addr i = PMM_RAM_BASE + of_nat i * PAGE_SIZE"

function alloc_frame_from :: "nat \<Rightarrow> 'a pmm_scheme \<Rightarrow> addr \<times> 'a pmm_scheme" where
  "alloc_frame_from i s =
     (if i < PMM_TOTAL_FRAMES then
        (if \<not> test_bit i s then
           (let s1 = set_bit_bm i s;
                s2 = s1\<lparr>free_memory := free_memory s1 - PAGE_SIZE\<rparr>
            in (frame_addr i, s2\<lparr>mem := memset (mem s2) (frame_addr i) 0 PAGE_SIZE\<rparr>))
         else alloc_frame_from (Suc i) s)
      else (0, kprintf ''PMM: ERROR - Out of physical frames!\<newline>'' [] s))"
  by pat_completeness auto
termination
  by (relation "measure (\<lambda>(i, s). PMM_TOTAL_FRAMES - i)") auto

declare alloc_frame_from.simps [simp del]

definition alloc_frame :: "'a pmm_scheme \<Rightarrow> addr \<times> 'a pmm_scheme" where
  "alloc_frame s = alloc_frame_from 0 s"

text \<open>The state after frame \<open>i\<close> has been handed out.\<close>

definition take_frame :: "nat \<Rightarrow> 'a pmm_scheme \<Rightarrow> 'a pmm_scheme" where
  "take_frame i s =
     (let s1 = set_bit_bm i s
      in s1\<lparr>mem := memset (mem s1) (frame_addr i) 0 PAGE_SIZE,
            free_memory := free_memory s - PAGE_SIZE\<rparr>)"

definition free_frame :: "addr \<Rightarrow> 'a pmm_scheme \<Rightarrow> 'a pmm_scheme" where
  "free_frame frame s =
     (if frame = 0 then s
      else if frame < PMM_RAM_BASE \<or> frame \<ge> PMM_MAX_ADDRESS then
        kprintf ''PMM: Attempt to free invalid frame at %p\<newline>'' [VWord frame] s
      else if frame mod PAGE_SIZE \<noteq> 0 then
        kprintf ''PMM: Attempt to free unaligned address %p\<newline>'' [VWord frame] s
      else
        (let frame_idx = unat ((frame - PMM_RAM_BASE) div PAGE_SIZE)
         in if frame_idx \<ge> PMM_TOTAL_FRAMES then
              kprintf ''PMM: Frame index %zu out of range\<newline>'' [VWord (of_nat frame_idx)] s
            else if \<not> test_bit frame_idx s then
              kprintf ''PMM: Warning - double free detected for frame %p\<newline>'' [VWord frame] s
            else
              (let s1 = clear_bit frame_idx s
               in s1\<lparr>free_memory := free_memory s1 + PAGE_SIZE\<rparr>)))"

definition pmm_get_total_memory :: "'a pmm_scheme \<Rightarrow> u64" where
  "pmm_get_total_memory s = total_memory s"

definition pmm_get_free_memory :: "'a pmm_scheme \<Rightarrow> u64" where
  "pmm_get_free_memory s = free_memory s"

definition pmm_get_highest_usable_address :: "'a pmm_scheme \<Rightarrow> u64" where
  "pmm_get_highest_usable_address s = highest_usable_address s"

section \<open>Abstraction and invariant\<close>

definition free_frames :: "'a pmm_scheme \<Rightarrow> nat set" where
  "free_frames s = {i. i < PMM_TOTAL_FRAMES \<and> \<not> test_bit i s}"

text \<open>The bytes of the bitmap that hold the bits of the managed frames.\<close>

definition bitmap_bytes :: "'a pmm_scheme \<Rightarrow> addr set" where
  "bitmap_bytes s = region (frame_bitmap s) (PMM_TOTAL_FRAMES div 8)"

text \<open>
  The counter of free memory agrees with the bitmap, and no free frame holds a part of the
  bitmap, so that handing out and zeroing a frame leaves the bitmap alone.
\<close>

definition pmm_inv :: "'a pmm_scheme \<Rightarrow> bool" where
  "pmm_inv s \<longleftrightarrow>
     unat (free_memory s) = 4096 * card (free_frames s)
     \<and> (\<forall>i \<in> free_frames s. region (frame_addr i) 4096 \<inter> bitmap_bytes s = {})"

text \<open>What \<^verbatim>\<open>src/src/linker.ld\<close> fixes: the bitmap of 128 KB lies inside the kernel image,
  and the image inside the managed memory. \<open>kb\<close> are the bounds of the kernel.\<close>

definition layout_ok :: "linker_syms \<Rightarrow> addr \<times> addr \<Rightarrow> bool" where
  "layout_ok ls kb =
     (case kb of (ks, ke) \<Rightarrow>
        PMM_RAM_BASE \<le> ks \<and> ks \<le> sym_pmm_bitmap_start ls
        \<and> unat (sym_pmm_bitmap_start ls) + 0x20000 = unat (sym_pmm_bitmap_end ls)
        \<and> sym_pmm_bitmap_end ls \<le> ke \<and> ke \<le> PMM_MAX_ADDRESS)"

definition kernel_bounds :: "linker_syms \<Rightarrow> kernel_boot_params option \<Rightarrow> addr \<times> addr" where
  "kernel_bounds ls params =
     (case params of
        Some ps \<Rightarrow> (kernel_phys_start ps, kernel_phys_end ps)
      | None \<Rightarrow> (sym_kernel_start ls, sym_kernel_end ls))"

text \<open>The frames that overlap the addresses from \<open>a\<close> up to \<open>b\<close>.\<close>

definition frames_of :: "addr \<Rightarrow> addr \<Rightarrow> nat set" where
  "frames_of a b = {(unat a - 0x40000000) div 4096 .. (unat b - 1 - 0x40000000) div 4096}"

definition init_acct :: "'a pmm_scheme \<Rightarrow> bool" where
  "init_acct s \<longleftrightarrow>
     unat (free_memory s) = 4096 * card (free_frames s)
     \<and> unat (total_memory s) = 4096 * card (free_frames s)"

text \<open>The symbols of the image under \<^verbatim>\<open>src/build\<close> and a machine before initialisation.\<close>

definition image_syms :: linker_syms where
  "image_syms = \<lparr>sym_kernel_start = 0x40080000, sym_text_end = 0x4008528c,
     sym_rodata_start = 0x40085290, sym_rodata_end = 0x4008671c, sym_rodata_load = 0x40085290,
     sym_data_start = 0x40086720, sym_data_end = 0x40086768, sym_data_load = 0x40086720,
     sym_bss_start = 0x400867a8, sym_bss_end = 0x40086860,
     sym_stack_top = 0x40096f40, sym_stack_bottom = 0x40086f40,
     sym_pmm_bitmap_start = 0x40097000, sym_pmm_bitmap_end = 0x400b7000, sym_kernel_end = 0x400b7000\<rparr>"

definition idle_uart :: uart_dev where
  "idle_uart = \<lparr>uart_ibrd = 0, uart_fbrd = 0, uart_lcrh = 0, uart_imsc = 0, uart_cr = 0,
     tx_busy = [], tx_out = [], rx_line = [], rx_stale = 0\<rparr>"

definition reset_pmm :: pmm where
  "reset_pmm = \<lparr>mem = (\<lambda>_. 0), uart = idle_uart, frame_bitmap = 0x40097000,
     total_memory = 0, free_memory = 0, highest_usable_address = 0\<rparr>"

section \<open>Bits of the bitmap\<close>

lemma bit_ops_fields [simp]:
  "frame_bitmap (set_bit_bm i s) = frame_bitmap s" "frame_bitmap (clear_bit i s) = frame_bitmap s"
  "total_memory (set_bit_bm i s) = total_memory s" "total_memory (clear_bit i s) = total_memory s"
  "free_memory (set_bit_bm i s) = free_memory s" "free_memory (clear_bit i s) = free_memory s"
  "highest_usable_address (set_bit_bm i s) = highest_usable_address s"
  "highest_usable_address (clear_bit i s) = highest_usable_address s"
  by (simp_all add: set_bit_bm_def clear_bit_def Let_def)

lemma test_bit_iff: "test_bit i s \<longleftrightarrow> bit (mem s (bitmap_byte i s)) (i mod 8)"
  by (simp add: test_bit_def bit_iff_and_push_bit_not_eq_0)

lemma bitmap_byte_eq_iff:
  assumes "i < PMM_TOTAL_FRAMES" and "j < PMM_TOTAL_FRAMES"
  shows "of_nat (j div 8) = (of_nat (i div 8) :: addr) \<longleftrightarrow> j div 8 = i div 8"
  using assms by (simp add: of_nat64_inject)

lemma bit_byte_exp: "bit (2 ^ (i mod 8) :: byte) (j mod 8) \<longleftrightarrow> j mod 8 = i mod 8"
  by (auto simp: bit_exp_iff)

lemma div_mod_8_eq: "(j::nat) div 8 = i div 8 \<Longrightarrow> j mod 8 = i mod 8 \<Longrightarrow> j = i"
  by (metis div_mult_mod_eq)

lemma test_set_bit:
  assumes "i < PMM_TOTAL_FRAMES" and "j < PMM_TOTAL_FRAMES"
  shows "test_bit j (set_bit_bm i s) \<longleftrightarrow> j = i \<or> test_bit j s"
proof -
  have "test_bit j (set_bit_bm i s) \<longleftrightarrow>
      (if j div 8 = i div 8 then j mod 8 = i mod 8 \<or> test_bit j s else test_bit j s)"
    unfolding test_bit_iff
    by (auto simp: set_bit_bm_def Let_def bitmap_byte_def bitmap_byte_eq_iff [OF assms]
        bit_or_iff bit_byte_exp)
  then show ?thesis using div_mod_8_eq [of j i] by auto
qed

lemma test_clear_bit:
  assumes "i < PMM_TOTAL_FRAMES" and "j < PMM_TOTAL_FRAMES"
  shows "test_bit j (clear_bit i s) \<longleftrightarrow> j \<noteq> i \<and> test_bit j s"
proof -
  have "test_bit j (clear_bit i s) \<longleftrightarrow>
      (if j div 8 = i div 8 then j mod 8 \<noteq> i mod 8 \<and> test_bit j s else test_bit j s)"
    unfolding test_bit_iff
    by (auto simp: clear_bit_def Let_def bitmap_byte_def bitmap_byte_eq_iff [OF assms]
        bit_and_iff bit_not_iff bit_byte_exp)
  then show ?thesis using div_mod_8_eq [of j i] by auto
qed

lemma bitmap_byte_in: "i < PMM_TOTAL_FRAMES \<Longrightarrow> bitmap_byte i s \<in> bitmap_bytes s"
  by (simp add: bitmap_byte_def bitmap_bytes_def in_region_offset less_mult_imp_div_less)

lemma test_bit_cong:
  assumes "\<And>x. x \<in> bitmap_bytes s \<Longrightarrow> mem t x = mem s x" and "frame_bitmap t = frame_bitmap s"
    and "i < PMM_TOTAL_FRAMES"
  shows "test_bit i t = test_bit i s"
  using assms bitmap_byte_in [of i s] by (simp add: test_bit_def bitmap_byte_def)

lemma free_frames_cong:
  assumes "\<And>x. x \<in> bitmap_bytes s \<Longrightarrow> mem t x = mem s x" and "frame_bitmap t = frame_bitmap s"
  shows "free_frames t = free_frames s"
  using test_bit_cong [OF assms] by (auto simp: free_frames_def)

lemma free_frames_set_bit:
  "i < PMM_TOTAL_FRAMES \<Longrightarrow> free_frames (set_bit_bm i s) = free_frames s - {i}"
  by (auto simp: free_frames_def test_set_bit)

lemma free_frames_clear_bit:
  "i < PMM_TOTAL_FRAMES \<Longrightarrow> free_frames (clear_bit i s) = insert i (free_frames s)"
  by (auto simp: free_frames_def test_clear_bit)

lemma free_frames_bound: "i \<in> free_frames s \<Longrightarrow> i < PMM_TOTAL_FRAMES"
  by (simp add: free_frames_def)

lemma finite_free_frames [simp]: "finite (free_frames s)"
  by (simp add: free_frames_def)

lemma card_free_frames_le: "card (free_frames s) \<le> PMM_TOTAL_FRAMES"
proof -
  have "card (free_frames s) \<le> card {..<PMM_TOTAL_FRAMES}"
    by (intro card_mono) (auto simp: free_frames_def)
  then show ?thesis by simp
qed

lemma card_free_frames_room:
  assumes "i \<notin> free_frames s" and "i < PMM_TOTAL_FRAMES"
  shows "Suc (card (free_frames s)) \<le> PMM_TOTAL_FRAMES"
proof -
  have "insert i (free_frames s) \<subseteq> {..<PMM_TOTAL_FRAMES}"
    using assms(2) by (auto simp: free_frames_def)
  then have "card (insert i (free_frames s)) \<le> card {..<PMM_TOTAL_FRAMES}"
    by (intro card_mono) auto
  then show ?thesis using assms(1) by simp
qed

lemma bitmap_bytes_simps [simp]:
  "bitmap_bytes (set_bit_bm i s) = bitmap_bytes s" "bitmap_bytes (clear_bit i s) = bitmap_bytes s"
  by (simp_all add: bitmap_bytes_def)

lemma set_bit_mem_outside:
  "i < PMM_TOTAL_FRAMES \<Longrightarrow> x \<notin> bitmap_bytes s \<Longrightarrow> mem (set_bit_bm i s) x = mem s x"
  using bitmap_byte_in [of i s] by (auto simp: set_bit_bm_def Let_def)

lemma clear_bit_mem_outside:
  "i < PMM_TOTAL_FRAMES \<Longrightarrow> x \<notin> bitmap_bytes s \<Longrightarrow> mem (clear_bit i s) x = mem s x"
  using bitmap_byte_in [of i s] by (auto simp: clear_bit_def Let_def)

section \<open>Frames\<close>

lemma unat_frame_addr: "i < PMM_TOTAL_FRAMES \<Longrightarrow> unat (frame_addr i) = 0x40000000 + i * 4096"
  by (simp add: frame_addr_def unat_word_ariths mod_simps)

lemma frame_addr_inject:
  "i < PMM_TOTAL_FRAMES \<Longrightarrow> j < PMM_TOTAL_FRAMES \<Longrightarrow> frame_addr i = frame_addr j \<longleftrightarrow> i = j"
  using unat_frame_addr [of i] unat_frame_addr [of j] by (metis add_left_cancel mult_right_cancel zero_neq_numeral)

lemma frame_regions_disjoint:
  assumes "i < PMM_TOTAL_FRAMES" and "j < PMM_TOTAL_FRAMES" and "i \<noteq> j"
  shows "region (frame_addr i) 4096 \<inter> region (frame_addr j) 4096 = {}"
  using assms
  by (intro disjoint_regions_inter) (auto simp: disjoint_regions_def unat_frame_addr)

section \<open>Allocation\<close>

lemma alloc_frame_from_first:
  assumes "i \<in> free_frames s" and "\<And>j. k \<le> j \<Longrightarrow> j < i \<Longrightarrow> test_bit j s" and "k \<le> i"
  shows "alloc_frame_from k s = (frame_addr i, take_frame i s)"
  using assms
proof (induction "i - k" arbitrary: k)
  case 0
  then show ?case
    by (subst alloc_frame_from.simps) (simp add: free_frames_def take_frame_def Let_def)
next
  case (Suc n)
  then have "test_bit k s" and "k < PMM_TOTAL_FRAMES" by (auto simp: free_frames_def)
  with Suc show ?case by (subst alloc_frame_from.simps) simp
qed

lemma alloc_frame_from_none:
  "(\<And>j. k \<le> j \<Longrightarrow> j < PMM_TOTAL_FRAMES \<Longrightarrow> test_bit j s) \<Longrightarrow>
   alloc_frame_from k s = (0, kprintf ''PMM: ERROR - Out of physical frames!\<newline>'' [] s)"
proof (induction "PMM_TOTAL_FRAMES - k" arbitrary: k)
  case 0
  then show ?case by (subst alloc_frame_from.simps) simp
next
  case (Suc n)
  then show ?case by (subst alloc_frame_from.simps) simp
qed

lemma alloc_frame_some:
  assumes "free_frames s \<noteq> {}"
  shows "alloc_frame s = (frame_addr (Min (free_frames s)), take_frame (Min (free_frames s)) s)"
proof -
  have mem: "Min (free_frames s) \<in> free_frames s" using assms by simp
  have "test_bit j s" if "j < Min (free_frames s)" for j
  proof (rule ccontr)
    assume "\<not> test_bit j s"
    moreover have "j < PMM_TOTAL_FRAMES" using mem that by (simp add: free_frames_def)
    ultimately have "j \<in> free_frames s" by (simp add: free_frames_def)
    then have "Min (free_frames s) \<le> j" by (intro Min_le) auto
    with that show False by simp
  qed
  with mem show ?thesis unfolding alloc_frame_def by (intro alloc_frame_from_first) auto
qed

lemma alloc_frame_none:
  "free_frames s = {} \<Longrightarrow>
   alloc_frame s = (0, kprintf ''PMM: ERROR - Out of physical frames!\<newline>'' [] s)"
  unfolding alloc_frame_def by (rule alloc_frame_from_none) (auto simp: free_frames_def)

lemma take_frame_fields [simp]:
  "frame_bitmap (take_frame i s) = frame_bitmap s" "total_memory (take_frame i s) = total_memory s"
  "highest_usable_address (take_frame i s) = highest_usable_address s"
  "free_memory (take_frame i s) = free_memory s - PAGE_SIZE" "uart (take_frame i s) = uart s"
  "bitmap_bytes (take_frame i s) = bitmap_bytes s"
  by (simp_all add: take_frame_def Let_def bitmap_bytes_def set_bit_bm_def)

lemma pmm_inv_frame_bitmap_disjoint:
  "pmm_inv s \<Longrightarrow> i \<in> free_frames s \<Longrightarrow> region (frame_addr i) 4096 \<inter> bitmap_bytes s = {}"
  by (simp add: pmm_inv_def)

lemma take_frame_mem:
  assumes "pmm_inv s" and "i \<in> free_frames s" and "x \<notin> bitmap_bytes s"
  shows "mem (take_frame i s) x = (if x \<in> region (frame_addr i) 4096 then 0 else mem s x)"
  using assms by (simp add: take_frame_def Let_def memset_apply set_bit_mem_outside free_frames_def)

lemma take_frame_free_frames:
  assumes "pmm_inv s" and "i \<in> free_frames s"
  shows "free_frames (take_frame i s) = free_frames s - {i}"
proof -
  have "free_frames (take_frame i s) = free_frames (set_bit_bm i s)"
    using pmm_inv_frame_bitmap_disjoint [OF assms]
    by (intro free_frames_cong) (auto simp: take_frame_def Let_def memset_apply)
  then show ?thesis using free_frames_bound [OF assms(2)] by (simp add: free_frames_set_bit)
qed

lemma take_frame_inv:
  assumes "pmm_inv s" and "i \<in> free_frames s"
  shows "pmm_inv (take_frame i s)"
proof -
  define k where "k = card (free_frames s - {i})"
  have card: "card (free_frames s) = Suc k"
    unfolding k_def using assms(2) by (intro card.remove) simp_all
  have free: "unat (free_memory s) = 4096 * Suc k"
    using assms(1) unfolding pmm_inv_def card by blast
  then have "unat PAGE_SIZE \<le> unat (free_memory s)" by simp
  then have "unat (free_memory s - PAGE_SIZE) = unat (free_memory s) - unat PAGE_SIZE"
    by (intro unat_diff_le) (simp only: word_le_nat_alt)
  with free have "unat (free_memory s - PAGE_SIZE) = 4096 * k" by simp
  then show ?thesis
    using assms(1) unfolding pmm_inv_def take_frame_free_frames [OF assms] k_def by simp
qed

lemma pmm_inv_kprintf [simp]: "pmm_inv (kprintf f a s) = pmm_inv s"
proof -
  have "free_frames (kprintf f a s) = free_frames s"
    by (rule free_frames_cong) (simp_all add: kprintf_def)
  then show ?thesis by (simp add: pmm_inv_def bitmap_bytes_def kprintf_def)
qed

section \<open>Release\<close>

lemma frame_addr_index:
  assumes "i < PMM_TOTAL_FRAMES"
  shows "unat ((frame_addr i - PMM_RAM_BASE) div PAGE_SIZE) = i"
    and "frame_addr i \<noteq> 0" and "\<not> frame_addr i < PMM_RAM_BASE"
    and "\<not> frame_addr i \<ge> PMM_MAX_ADDRESS" and "frame_addr i mod PAGE_SIZE = 0"
proof -
  note u = unat_frame_addr [OF assms]
  have ge: "PMM_RAM_BASE \<le> frame_addr i" using u by (simp add: word_le_nat_alt)
  then show "\<not> frame_addr i < PMM_RAM_BASE" by simp
  show "unat ((frame_addr i - PMM_RAM_BASE) div PAGE_SIZE) = i"
    using u by (simp add: unat_div unat_diff_le [OF ge])
  show "frame_addr i \<noteq> 0" using u by (auto simp: word_unat_eq_iff)
  show "\<not> frame_addr i \<ge> PMM_MAX_ADDRESS" using u assms by (simp add: word_le_nat_alt)
  show "frame_addr i mod PAGE_SIZE = 0"
    using u by (simp add: word_unat_eq_iff unat_mod mod_add_eq [symmetric])
qed

lemma free_frame_at:
  "i < PMM_TOTAL_FRAMES \<Longrightarrow>
   free_frame (frame_addr i) s =
     (if test_bit i s
      then (clear_bit i s)\<lparr>free_memory := free_memory s + PAGE_SIZE\<rparr>
      else kprintf ''PMM: Warning - double free detected for frame %p\<newline>'' [VWord (frame_addr i)] s)"
  by (simp add: free_frame_def frame_addr_index Let_def)

lemma aligned_frame_addr:
  assumes "PMM_RAM_BASE \<le> a" and "a < PMM_MAX_ADDRESS" and "a mod PAGE_SIZE = 0"
  shows "\<exists>i < PMM_TOTAL_FRAMES. a = frame_addr i"
proof -
  have a: "0x40000000 \<le> unat a" "unat a < 0x80000000" "unat a mod 4096 = 0"
    using assms by (simp_all add: word_le_nat_alt word_less_nat_alt word_unat_eq_iff unat_mod)
  then obtain q where q: "unat a = 4096 * q" by (metis dvdE mod_0_imp_dvd)
  have i: "q - 262144 < PMM_TOTAL_FRAMES" using a q by linarith
  moreover have "unat a = 0x40000000 + (q - 262144) * 4096" using a q by linarith
  ultimately have "unat a = unat (frame_addr (q - 262144))" by (simp add: unat_frame_addr)
  then have "a = frame_addr (q - 262144)" by (simp only: word_unat_eq_iff)
  with i show ?thesis by blast
qed

lemma free_frames_field [simp]:
  "free_frames (s\<lparr>free_memory := v\<rparr>) = free_frames s"
  "free_frames (s\<lparr>total_memory := v\<rparr>) = free_frames s"
  "free_frames (s\<lparr>highest_usable_address := v\<rparr>) = free_frames s"
  "free_frames (kprintf f a s) = free_frames s"
  by (rule free_frames_cong; simp add: kprintf_def)+

lemma free_frame_inv:
  assumes "pmm_inv s" and "i < PMM_TOTAL_FRAMES" and "test_bit i s"
    and "region (frame_addr i) 4096 \<inter> bitmap_bytes s = {}"
  shows "pmm_inv (free_frame (frame_addr i) s)
       \<and> free_frames (free_frame (frame_addr i) s) = insert i (free_frames s)"
proof -
  have i: "i \<notin> free_frames s" using assms(3) by (simp add: free_frames_def)
  define k where "k = card (free_frames s)"
  have "Suc k \<le> PMM_TOTAL_FRAMES" using card_free_frames_room [OF i assms(2)] by (simp add: k_def)
  moreover have free: "unat (free_memory s) = 4096 * k"
    using assms(1) by (simp add: pmm_inv_def k_def)
  ultimately have "unat (free_memory s + PAGE_SIZE) = 4096 * Suc k"
    by (subst unat_add_no_wrap) simp_all
  then show ?thesis
    using assms i
    by (auto simp: free_frame_at pmm_inv_def free_frames_clear_bit k_def bitmap_bytes_def)
qed

section \<open>Initialisation\<close>

lemma mark_free_step_acct:
  assumes "init_acct s" and "i < PMM_TOTAL_FRAMES"
  shows "init_acct (mark_free_step i s) \<and> free_frames (mark_free_step i s) = insert i (free_frames s)
    \<and> frame_bitmap (mark_free_step i s) = frame_bitmap s"
proof (cases "test_bit i s")
  case True
  then have i: "i \<notin> free_frames s" by (simp add: free_frames_def)
  define k where "k = card (free_frames s)"
  have "Suc k \<le> PMM_TOTAL_FRAMES" using card_free_frames_room [OF i assms(2)] by (simp add: k_def)
  moreover have "unat (free_memory s) = 4096 * k" "unat (total_memory s) = 4096 * k"
    using assms(1) by (simp_all add: init_acct_def k_def)
  ultimately have "unat (free_memory s + PAGE_SIZE) = 4096 * Suc k"
      "unat (total_memory s + PAGE_SIZE) = 4096 * Suc k"
    by (subst unat_add_no_wrap; simp)+
  then show ?thesis
    using True i assms(2)
    by (simp add: mark_free_step_def Let_def init_acct_def free_frames_clear_bit k_def)
next
  case False
  then have "i \<in> free_frames s" using assms(2) by (simp add: free_frames_def)
  then show ?thesis
    using False assms
    by (simp add: mark_free_step_def init_acct_def free_frames_clear_bit insert_absorb)
qed

lemma mark_free_loop_acct:
  assumes "init_acct s" and "e < PMM_TOTAL_FRAMES"
  shows "init_acct (mark_free_loop i e s) \<and> free_frames (mark_free_loop i e s) = free_frames s \<union> {i..e}
    \<and> frame_bitmap (mark_free_loop i e s) = frame_bitmap s"
  using assms
proof (induction i e s rule: mark_free_loop.induct)
  case (1 i e s)
  let ?t = "if i \<le> e then mark_free_loop (Suc i) e (mark_free_step i s) else s"
  have eq: "mark_free_loop i e s = ?t" by (rule mark_free_loop.simps)
  have "init_acct ?t \<and> free_frames ?t = free_frames s \<union> {i..e} \<and> frame_bitmap ?t = frame_bitmap s"
  proof (cases "i \<le> e")
    case True
    then have "{i..e} = insert i {Suc i..e}" by auto
    with True 1 mark_free_step_acct [of s i] show ?thesis by auto
  qed (use 1 in simp)
  then show ?case unfolding eq .
qed

text \<open>On an all-used range from the bottom, the highest address ends behind the last frame.\<close>

lemma mark_free_loop_highest:
  assumes "e < PMM_TOTAL_FRAMES" and "i \<le> Suc e" and "\<And>j. i \<le> j \<Longrightarrow> j \<le> e \<Longrightarrow> test_bit j s"
    and "unat (highest_usable_address s) = 0x40000000 + i * 4096"
  shows "unat (highest_usable_address (mark_free_loop i e s)) = 0x40000000 + Suc e * 4096"
  using assms
proof (induction i e s rule: mark_free_loop.induct)
  case (1 i e s)
  show ?case
  proof (cases "i \<le> e")
    case True
    let ?top = "PMM_RAM_BASE + (of_nat i + 1) * PAGE_SIZE :: u64"
    have "?top = frame_addr i + PAGE_SIZE" by (simp add: frame_addr_def algebra_simps)
    moreover have u: "unat (frame_addr i) = 0x40000000 + i * 4096"
      using "1.prems" True by (intro unat_frame_addr) simp
    ultimately have top: "unat ?top = 0x40000000 + Suc i * 4096"
      using "1.prems" True by (simp only:) (subst unat_add_no_wrap, simp_all)
    have "test_bit i s" using "1.prems" True by simp
    then have st: "mark_free_step i s = clear_bit i
        (s\<lparr>total_memory := total_memory s + PAGE_SIZE, free_memory := free_memory s + PAGE_SIZE,
           highest_usable_address := ?top\<rparr>)"
      using top "1.prems"(4) by (simp add: mark_free_step_def Let_def word_less_nat_alt del: of_nat_Suc)
    have "test_bit j (mark_free_step i s)" if "Suc i \<le> j" "j \<le> e" for j
    proof -
      have "test_bit j (s\<lparr>total_memory := t, free_memory := f, highest_usable_address := h\<rparr>)" for t f h
        using "1.prems"(3) [of j] that True by (simp add: test_bit_def bitmap_byte_def)
      with that "1.prems"(1) True show ?thesis unfolding st by (simp add: test_clear_bit)
    qed
    with 1 True top st have "unat (highest_usable_address (mark_free_loop (Suc i) e (mark_free_step i s)))
        = 0x40000000 + Suc e * 4096"
      by (intro "1.IH") simp_all
    then show ?thesis using True by (subst mark_free_loop.simps) simp
  next
    case False
    with 1 show ?thesis by (subst mark_free_loop.simps) simp
  qed
qed

lemma mark_used_step_acct:
  assumes "init_acct s" and "i < PMM_TOTAL_FRAMES"
  shows "init_acct (mark_used_step i s) \<and> free_frames (mark_used_step i s) = free_frames s - {i}
    \<and> frame_bitmap (mark_used_step i s) = frame_bitmap s
    \<and> highest_usable_address (mark_used_step i s) = highest_usable_address s"
proof (cases "test_bit i s")
  case False
  then have i: "i \<in> free_frames s" using assms(2) by (simp add: free_frames_def)
  define k where "k = card (free_frames s - {i})"
  have card: "card (free_frames s) = Suc k"
    unfolding k_def using i by (intro card.remove) simp_all
  have u: "unat (free_memory s) = 4096 * Suc k" "unat (total_memory s) = 4096 * Suc k"
    using assms(1) by (simp_all add: init_acct_def card)
  then have ge: "PAGE_SIZE \<le> free_memory s" "PAGE_SIZE \<le> total_memory s"
    by (simp_all add: word_le_nat_alt)
  have "unat (free_memory s - PAGE_SIZE) = 4096 * k" "unat (total_memory s - PAGE_SIZE) = 4096 * k"
    using u by (simp_all add: unat_diff_le [OF ge(1)] unat_diff_le [OF ge(2)])
  then show ?thesis
    using False assms(2) ge
    by (simp add: mark_used_step_def Let_def init_acct_def free_frames_set_bit k_def)
next
  case True
  then have "i \<notin> free_frames s" by (simp add: free_frames_def)
  with True assms show ?thesis by (simp add: mark_used_step_def)
qed

lemma mark_used_loop_acct:
  assumes "init_acct s" and "e < PMM_TOTAL_FRAMES"
  shows "init_acct (mark_used_loop i e s) \<and> free_frames (mark_used_loop i e s) = free_frames s - {i..e}
    \<and> frame_bitmap (mark_used_loop i e s) = frame_bitmap s
    \<and> highest_usable_address (mark_used_loop i e s) = highest_usable_address s"
  using assms
proof (induction i e s rule: mark_used_loop.induct)
  case (1 i e s)
  let ?t = "if i \<le> e then mark_used_loop (Suc i) e (mark_used_step i s) else s"
  have eq: "mark_used_loop i e s = ?t" by (rule mark_used_loop.simps)
  have "init_acct ?t \<and> free_frames ?t = free_frames s - {i..e} \<and> frame_bitmap ?t = frame_bitmap s
      \<and> highest_usable_address ?t = highest_usable_address s"
  proof (cases "i \<le> e")
    case True
    then have "{i..e} = insert i {Suc i..e}" by auto
    with True 1 mark_used_step_acct [of s i] show ?thesis by auto
  qed (use 1 in simp)
  then show ?case unfolding eq .
qed

lemma mark_range_used_acct:
  assumes "init_acct s" and "PMM_RAM_BASE \<le> a" and "a < b" and "b \<le> PMM_MAX_ADDRESS"
  shows "init_acct (mark_range_used a (b - a) s)
    \<and> free_frames (mark_range_used a (b - a) s) = free_frames s - frames_of a b
    \<and> frame_bitmap (mark_range_used a (b - a) s) = frame_bitmap s
    \<and> highest_usable_address (mark_range_used a (b - a) s) = highest_usable_address s"
proof -
  have u: "0x40000000 \<le> unat a" "unat a < unat b" "unat b \<le> 0x80000000"
    using assms by (simp_all add: word_le_nat_alt word_less_nat_alt)
  have rs: "unat (range_start a) = (unat a - 0x40000000) div 4096"
    using assms(2) by (simp add: range_start_def unat_div unat_diff_le)
  have "PMM_RAM_BASE < b" using u by (simp add: word_less_nat_alt)
  moreover have "unat (b - 0x40000001) = unat b - 0x40000001"
    using u by (subst unat_diff_le) (simp_all add: word_le_nat_alt)
  ultimately have re: "unat (range_end a (b - a)) = (unat b - 1 - 0x40000000) div 4096"
    by (simp add: range_end_def unat_div)
  have "(unat a - 0x40000000) div 4096 < PMM_TOTAL_FRAMES"
    and lt: "(unat b - 1 - 0x40000000) div 4096 < PMM_TOTAL_FRAMES"
    using u by (intro less_mult_imp_div_less; simp)+
  then have "mark_range_used a (b - a) s =
      mark_used_loop ((unat a - 0x40000000) div 4096) ((unat b - 1 - 0x40000000) div 4096) s"
    by (simp add: mark_range_used_def rs re)
  then show ?thesis
    using mark_used_loop_acct [OF assms(1) lt] by (simp add: frames_of_def)
qed

lemma mark_all_free_acct:
  assumes "init_acct s" and "free_frames s = {}" and "highest_usable_address s = PMM_RAM_BASE"
  defines "t \<equiv> mark_range_free PMM_RAM_BASE PMM_MANAGEABLE_SIZE s"
  shows "init_acct t \<and> free_frames t = {..<PMM_TOTAL_FRAMES} \<and> frame_bitmap t = frame_bitmap s
    \<and> highest_usable_address t = PMM_MAX_ADDRESS"
proof -
  have "range_start PMM_RAM_BASE = 0" by (simp add: range_start_def)
  moreover have "range_end PMM_RAM_BASE PMM_MANAGEABLE_SIZE = 262143" by (simp add: range_end_def)
  ultimately have t: "t = mark_free_loop 0 262143 s"
    by (simp add: t_def mark_range_free_def)
  have "test_bit j s" if "j \<le> 262143" for j using assms(2) that by (auto simp: free_frames_def)
  then have "unat (highest_usable_address t) = 0x80000000"
    using assms(3) mark_free_loop_highest [of 262143 0 s] by (simp add: t)
  then have "highest_usable_address t = PMM_MAX_ADDRESS" by (simp add: word_unat_eq_iff)
  moreover have "{0..262143} = {..<PMM_TOTAL_FRAMES}" by auto
  ultimately show ?thesis
    using mark_free_loop_acct [OF assms(1), of 262143 0] assms(2) by (simp add: t)
qed

lemma bits_all_set:
  assumes "0x20000 = unat n"
  shows "free_frames (s\<lparr>mem := memset (mem s) (frame_bitmap s) 0xFF n, total_memory := a,
            free_memory := b, highest_usable_address := c\<rparr>) = {}"
proof -
  have "bitmap_byte j s \<in> region (frame_bitmap s) (unat n)" if "j < PMM_TOTAL_FRAMES" for j
    using bitmap_byte_in [OF that, of s] region_mono [of "PMM_TOTAL_FRAMES div 8" "unat n" "frame_bitmap s"] assms
    by (auto simp: bitmap_bytes_def)
  moreover have "bit (0xFF :: byte) (j mod 8)" for j :: nat
  proof -
    have "(0xFF :: byte) = - 1" by simp
    then show ?thesis by (simp only: bit_minus_1_iff) simp
  qed
  ultimately show ?thesis
    by (auto simp: free_frames_def test_bit_iff bitmap_byte_def memset_apply)
qed

lemma init_used_disjoint:
  assumes lay: "layout_ok ls (ks, ke)" and bm: "frame_bitmap s = sym_pmm_bitmap_start ls"
    and i: "i < PMM_TOTAL_FRAMES" "i \<notin> frames_of ks ke"
  shows "region (frame_addr i) 4096 \<inter> bitmap_bytes s = {}"
  unfolding bitmap_bytes_def
proof (rule disjoint_regions_inter)
  have u: "0x40000000 \<le> unat ks" "unat ks \<le> unat (frame_bitmap s)"
      "unat (frame_bitmap s) + 0x20000 \<le> unat ke" "unat ke \<le> 0x80000000"
    using lay bm by (simp_all add: layout_ok_def word_le_nat_alt)
  have "unat (frame_addr i) + 4096 \<le> unat ks \<or> unat ke \<le> unat (frame_addr i)"
  proof (cases "i < (unat ks - 0x40000000) div 4096")
    case True
    then have "Suc i * 4096 \<le> (unat ks - 0x40000000) div 4096 * 4096" by (intro mult_le_mono1) simp
    also have "\<dots> \<le> unat ks - 0x40000000" by (rule div_times_less_eq_dividend)
    finally have "i * 4096 + 4096 \<le> unat ks - 0x40000000" by simp
    then have "unat (frame_addr i) + 4096 \<le> unat ks"
      using le_add_diff_inverse [OF u(1)] unfolding unat_frame_addr [OF i(1)] by linarith
    then show ?thesis ..
  next
    case False
    with i(2) have "(unat ke - 1 - 0x40000000) div 4096 < i" by (auto simp: frames_of_def)
    then have lt: "unat ke - 0x40000001 < i * 4096" by (simp add: div_less_iff_less_mult)
    have "0x40000001 \<le> unat ke" using u by linarith
    then have "unat ke \<le> unat (frame_addr i)"
      using lt le_add_diff_inverse [of "0x40000001" "unat ke"] unfolding unat_frame_addr [OF i(1)] by linarith
    then show ?thesis ..
  qed
  then show "disjoint_regions (frame_addr i) 4096 (frame_bitmap s) (PMM_TOTAL_FRAMES div 8)"
    using u by (auto simp: disjoint_regions_def)
  show "unat (frame_addr i) + 4096 \<le> 2 ^ 64" using i(1) by (simp add: unat_frame_addr)
  show "unat (frame_bitmap s) + PMM_TOTAL_FRAMES div 8 \<le> 2 ^ 64" using u by simp
qed

lemma init_core:
  assumes lay: "layout_ok ls (ks, ke)" and bm: "frame_bitmap s = sym_pmm_bitmap_start ls"
    and n: "n = sym_pmm_bitmap_end ls - sym_pmm_bitmap_start ls"
    and s2: "s2 = s\<lparr>mem := memset (mem s) (frame_bitmap s) 0xFF n, total_memory := 0,
              free_memory := 0, highest_usable_address := PMM_RAM_BASE\<rparr>"
    and s3: "s3 = mark_range_used ks (ke - ks) (mark_range_free PMM_RAM_BASE PMM_MANAGEABLE_SIZE s2)"
    and s4: "s4 = mark_range_used (frame_bitmap s3) n s3"
  shows "init_acct s4 \<and> free_frames s4 = {..<PMM_TOTAL_FRAMES} - frames_of ks ke
    \<and> frame_bitmap s4 = frame_bitmap s \<and> highest_usable_address s4 = PMM_MAX_ADDRESS"
proof -
  define bs be where "bs = sym_pmm_bitmap_start ls" and "be = sym_pmm_bitmap_end ls"
  have l: "PMM_RAM_BASE \<le> ks" "ks \<le> bs" "unat bs + 0x20000 = unat be" "be \<le> ke" "ke \<le> PMM_MAX_ADDRESS"
    using lay by (simp_all add: layout_ok_def bs_def be_def)
  have lt: "bs < be" "ks < ke" "PMM_RAM_BASE \<le> bs" "be \<le> PMM_MAX_ADDRESS"
    using l by (auto simp: word_less_nat_alt word_le_nat_alt)
  have "unat n = unat be - unat bs"
    unfolding n bs_def [symmetric] be_def [symmetric] using lt(1) by (intro unat_diff_le) simp
  then have "0x20000 = unat n" using l(3) by simp
  then have "free_frames s2 = {}" unfolding s2 by (rule bits_all_set)
  moreover from this have "init_acct s2" by (simp add: init_acct_def s2)
  moreover define f where "f = mark_range_free PMM_RAM_BASE PMM_MANAGEABLE_SIZE s2"
  ultimately have f: "init_acct f \<and> free_frames f = {..<PMM_TOTAL_FRAMES}
      \<and> frame_bitmap f = bs \<and> highest_usable_address f = PMM_MAX_ADDRESS"
    using mark_all_free_acct [of s2] bm by (simp add: s2 bs_def)
  then have g: "init_acct s3 \<and> free_frames s3 = {..<PMM_TOTAL_FRAMES} - frames_of ks ke
      \<and> frame_bitmap s3 = bs \<and> highest_usable_address s3 = PMM_MAX_ADDRESS"
    using mark_range_used_acct [OF _ l(1) lt(2) l(5), of f] unfolding s3 f_def [symmetric] by simp
  have sub: "frames_of bs be \<subseteq> frames_of ks ke"
    using l by (auto simp: frames_of_def word_le_nat_alt intro: div_le_mono order_trans)
  have "s4 = mark_range_used bs (be - bs) s3" using g by (simp add: s4 n bs_def be_def)
  then show ?thesis
    using mark_range_used_acct [OF _ lt(3) lt(1) lt(4), of s3] g sub bm by (auto simp: bs_def)
qed

lemma kprintf_pmm_fields [simp]:
  "mem (kprintf f a s) = mem s" "frame_bitmap (kprintf f a s) = frame_bitmap s"
  "total_memory (kprintf f a s) = total_memory s" "free_memory (kprintf f a s) = free_memory s"
  "highest_usable_address (kprintf f a s) = highest_usable_address s"
  "init_acct (kprintf f a s) = init_acct s" "bitmap_bytes (kprintf f a s) = bitmap_bytes s"
  by (simp_all add: init_acct_def bitmap_bytes_def, simp_all add: kprintf_def)

lemma frame_alloc_init_acct:
  assumes "layout_ok ls (ks, ke)" and "kernel_bounds ls params = (ks, ke)"
    and "frame_bitmap s = sym_pmm_bitmap_start ls"
  defines "t \<equiv> frame_alloc_init ls params s"
  shows "init_acct t \<and> free_frames t = {..<PMM_TOTAL_FRAMES} - frames_of ks ke
    \<and> frame_bitmap t = frame_bitmap s \<and> highest_usable_address t = PMM_MAX_ADDRESS"
  using assms(2,3) init_core [OF assms(1) _ refl refl refl refl,
      of "kprintf ''PMM: Bitmap size: %zu bytes, located at %p\<newline>''
            [VWord (sym_pmm_bitmap_end ls - sym_pmm_bitmap_start ls), VWord (frame_bitmap s)]
            (kprintf ''PMM: Initializing Physical Memory Manager...\<newline>'' [] s)"]
  by (cases params) (simp_all add: t_def frame_alloc_init_def kernel_bounds_def Let_def)

section \<open>The frame supply as an interface\<close>

text \<open>
  What a client of the frame allocator relies on: a call either fails on an exhausted
  supply or hands out a non-null frame of the supply, zeroed, and removes exactly this
  frame; memory outside the frame and outside the manager's own bytes is untouched.
\<close>

locale frame_supply =
  fixes alloc :: "'s \<Rightarrow> addr \<times> 's"
    and avail :: "'s \<Rightarrow> addr set"
    and own :: "'s \<Rightarrow> addr set"
    and memory :: "'s \<Rightarrow> memory"
    and good :: "'s \<Rightarrow> bool"
  assumes alloc_exhausted: "good s \<Longrightarrow> avail s = {} \<Longrightarrow> alloc s = (a, t) \<Longrightarrow> a = 0 \<and> avail t = {} \<and> good t"
    and alloc_member: "good s \<Longrightarrow> avail s \<noteq> {} \<Longrightarrow> alloc s = (a, t) \<Longrightarrow>
          a \<in> avail s \<and> a \<noteq> 0 \<and> avail t = avail s - {a} \<and> own t = own s \<and> good t"
    and alloc_memory: "good s \<Longrightarrow> avail s \<noteq> {} \<Longrightarrow> alloc s = (a, t) \<Longrightarrow> x \<notin> own s \<Longrightarrow>
          memory t x = (if x \<in> region a 4096 then 0 else memory s x)"
    and avail_finite: "finite (avail s)"
begin

fun alloc_many :: "nat \<Rightarrow> 's \<Rightarrow> addr list \<times> 's" where
  "alloc_many 0 s = ([], s)"
| "alloc_many (Suc n) s =
     (case alloc s of (a, t) \<Rightarrow> case alloc_many n t of (as, u) \<Rightarrow> (a # as, u))"

lemma alloc_many_distinct:
  "good s \<Longrightarrow> n \<le> card (avail s) \<Longrightarrow> alloc_many n s = (as, u) \<Longrightarrow>
   length as = n \<and> distinct as \<and> 0 \<notin> set as \<and> set as \<subseteq> avail s
   \<and> avail u = avail s - set as \<and> good u"
proof (induction n arbitrary: s as)
  case (Suc n)
  obtain a t where a: "alloc s = (a, t)" by (cases "alloc s")
  obtain as' where as: "as = a # as'" and rec: "alloc_many n t = (as', u)"
    using Suc.prems(3) a by (auto split: prod.splits)
  have ne: "avail s \<noteq> {}" using Suc.prems(2) by auto
  note m = alloc_member [OF Suc.prems(1) ne a]
  then have "card (avail t) = card (avail s) - 1" by simp
  then have "n \<le> card (avail t)" using Suc.prems(2) by linarith
  with Suc.IH [of t as'] m rec as show ?case by auto
qed auto

end

text \<open>The state sequence of repeated calls, at the top level of the model.\<close>

fun alloc_frames :: "nat \<Rightarrow> 'a pmm_scheme \<Rightarrow> addr list \<times> 'a pmm_scheme" where
  "alloc_frames 0 s = ([], s)"
| "alloc_frames (Suc n) s =
     (case alloc_frame s of (a, t) \<Rightarrow> case alloc_frames n t of (as, u) \<Rightarrow> (a # as, u))"

interpretation pmm_supply: frame_supply alloc_frame "\<lambda>s. frame_addr ` free_frames s" bitmap_bytes mem pmm_inv
proof
  fix s t :: "'a pmm_scheme" and a
  assume s: "pmm_inv s" "frame_addr ` free_frames s = {}" and a: "alloc_frame s = (a, t)"
  then show "a = 0 \<and> frame_addr ` free_frames t = {} \<and> pmm_inv t"
    by (auto simp: alloc_frame_none)
next
  fix s t :: "'a pmm_scheme" and a
  assume s: "pmm_inv s" "frame_addr ` free_frames s \<noteq> {}" and a: "alloc_frame s = (a, t)"
  define i where "i = Min (free_frames s)"
  have i: "i \<in> free_frames s" using s(2) by (simp add: i_def)
  have at: "a = frame_addr i" "t = take_frame i s" using a s(2) by (simp_all add: alloc_frame_some i_def)
  have "inj_on frame_addr (free_frames s)"
    by (rule inj_onI) (simp add: frame_addr_inject free_frames_bound)
  then have "frame_addr ` (free_frames s - {i}) = frame_addr ` free_frames s - {frame_addr i}"
    using i by (simp add: inj_on_image_set_diff)
  then show "a \<in> frame_addr ` free_frames s \<and> a \<noteq> 0
      \<and> frame_addr ` free_frames t = frame_addr ` free_frames s - {a}
      \<and> bitmap_bytes t = bitmap_bytes s \<and> pmm_inv t"
    using s(1) i by (simp add: at take_frame_free_frames take_frame_inv frame_addr_index free_frames_bound)
next
  fix s t :: "'a pmm_scheme" and a x
  assume "pmm_inv s" "frame_addr ` free_frames s \<noteq> {}" "alloc_frame s = (a, t)" "x \<notin> bitmap_bytes s"
  then show "mem t x = (if x \<in> region a 4096 then 0 else mem s x)"
    using take_frame_mem [of s "Min (free_frames s)" x] by (auto simp: alloc_frame_some)
qed simp

lemma alloc_frames_many: "alloc_frames n s = pmm_supply.alloc_many n s"
  by (induction n arbitrary: s) (auto split: prod.splits)

section \<open>Theorems\<close>

text \<open>
  C16. \<open>frame_alloc_init\<close>, with boot parameters or without, leaves exactly the frames that
  do not overlap the kernel free, the counters equal to their number of bytes, and the
  invariant established; the highest usable address is the end of the managed gigabyte.
\<close>

theorem frame_alloc_init_correct:
  assumes "layout_ok ls (ks, ke)" and "kernel_bounds ls params = (ks, ke)"
    and "frame_bitmap s = sym_pmm_bitmap_start ls"
  defines "t \<equiv> frame_alloc_init ls params s"
  shows "pmm_inv t \<and> free_frames t = {..<PMM_TOTAL_FRAMES} - frames_of ks ke
    \<and> unat (free_memory t) = 4096 * card ({..<PMM_TOTAL_FRAMES} - frames_of ks ke)
    \<and> total_memory t = free_memory t \<and> highest_usable_address t = PMM_MAX_ADDRESS"
proof -
  note a = frame_alloc_init_acct [OF assms(1-3)]
  have "region (frame_addr i) 4096 \<inter> bitmap_bytes t = {}" if "i \<in> free_frames t" for i
    using that a assms(3) init_used_disjoint [OF assms(1), of t i] by (simp add: t_def)
  with a show ?thesis by (auto simp: t_def pmm_inv_def init_acct_def word_unat_eq_iff)
qed

lemma image_layout: "layout_ok image_syms (0x40080000, 0x400b7000)"
  "kernel_bounds image_syms None = (0x40080000, 0x400b7000)"
  "frame_bitmap reset_pmm = sym_pmm_bitmap_start image_syms"
  by (simp_all add: layout_ok_def kernel_bounds_def image_syms_def reset_pmm_def)

lemma image_frames: "frames_of 0x40080000 0x400b7000 = {128..182}"
  by (simp add: frames_of_def)

theorem frame_alloc_init_correct_witness:
  "pmm_inv (frame_alloc_init image_syms None reset_pmm)
   \<and> free_frames (frame_alloc_init image_syms None reset_pmm) = {..<PMM_TOTAL_FRAMES} - {128..182}"
  using frame_alloc_init_correct [OF image_layout] by (simp add: image_frames)

text \<open>The booted manager, from which the witnesses below start.\<close>

lemma booted_pmm:
  "pmm_inv (frame_alloc_init image_syms None reset_pmm)"
  "free_frames (frame_alloc_init image_syms None reset_pmm) = {..<PMM_TOTAL_FRAMES} - {128..182}"
  "total_memory (frame_alloc_init image_syms None reset_pmm)
     = free_memory (frame_alloc_init image_syms None reset_pmm)"
proof -
  note a = frame_alloc_init_acct [OF image_layout]
  then have f: "free_frames (frame_alloc_init image_syms None reset_pmm) = {..<PMM_TOTAL_FRAMES} - {128..182}"
    by (simp add: image_frames)
  then show "free_frames (frame_alloc_init image_syms None reset_pmm) = {..<PMM_TOTAL_FRAMES} - {128..182}" .
  show "pmm_inv (frame_alloc_init image_syms None reset_pmm)"
    using a f image_frames init_used_disjoint [OF image_layout(1), of "frame_alloc_init image_syms None reset_pmm"]
      image_layout(3)
    by (auto simp: pmm_inv_def init_acct_def)
  show "total_memory (frame_alloc_init image_syms None reset_pmm)
     = free_memory (frame_alloc_init image_syms None reset_pmm)"
    using a by (simp add: init_acct_def word_unat_eq_iff)
qed

lemma booted_not_exhausted: "{..<PMM_TOTAL_FRAMES} - {128..182} \<noteq> {}"
proof -
  have "0 \<in> {..<PMM_TOTAL_FRAMES} - {128..182}" by simp
  then show ?thesis by blast
qed

text \<open>
  C15. While a frame is free, \<open>alloc_frame\<close> returns the one with the lowest address,
  marks exactly it as used, zeroes it, leaves every byte outside the frame and the bitmap
  as it was, lowers the free counter by one page and keeps the invariant.
\<close>

theorem alloc_frame_correct:
  assumes "pmm_inv s" and "free_frames s \<noteq> {}"
  shows "\<exists>t i. alloc_frame s = (frame_addr i, t) \<and> i = Min (free_frames s)
    \<and> pmm_inv t \<and> free_frames t = free_frames s - {i}
    \<and> (\<forall>x. x \<in> region (frame_addr i) 4096 \<longrightarrow> mem t x = 0)
    \<and> (\<forall>x. x \<notin> region (frame_addr i) 4096 \<longrightarrow> x \<notin> bitmap_bytes s \<longrightarrow> mem t x = mem s x)
    \<and> free_memory t = free_memory s - PAGE_SIZE \<and> total_memory t = total_memory s"
proof (intro exI conjI)
  define i where "i = Min (free_frames s)"
  have i: "i \<in> free_frames s" using assms(2) by (simp add: i_def)
  show "alloc_frame s = (frame_addr i, take_frame i s)"
    using assms(2) by (simp add: i_def alloc_frame_some)
  show "i = Min (free_frames s)" by (rule i_def)
  show "pmm_inv (take_frame i s)" by (rule take_frame_inv [OF assms(1) i])
  show "free_frames (take_frame i s) = free_frames s - {i}" by (rule take_frame_free_frames [OF assms(1) i])
  show "\<forall>x. x \<in> region (frame_addr i) 4096 \<longrightarrow> mem (take_frame i s) x = 0"
    by (simp add: take_frame_def Let_def memset_apply)
  show "\<forall>x. x \<notin> region (frame_addr i) 4096 \<longrightarrow> x \<notin> bitmap_bytes s \<longrightarrow> mem (take_frame i s) x = mem s x"
    using take_frame_mem [OF assms(1) i] by simp
qed simp_all

theorem alloc_frame_correct_witness:
  "\<exists>t. alloc_frame (frame_alloc_init image_syms None reset_pmm) = (0x40000000, t)
     \<and> free_frames t = {1..<PMM_TOTAL_FRAMES} - {128..182}"
proof -
  have "Min ({..<PMM_TOTAL_FRAMES} - {128..182}) = 0" by (rule Min_eqI) auto
  moreover have "{..<PMM_TOTAL_FRAMES} - {128..182} - {0} = {1..<PMM_TOTAL_FRAMES} - {128..182}" by auto
  ultimately show ?thesis
    using alloc_frame_correct [OF booted_pmm(1)] booted_not_exhausted
    by (auto simp: booted_pmm(2) frame_addr_def)
qed

text \<open>
  C17. Any number of calls, up to the number of free frames, hands out that many different
  frames, none of them null, and leaves exactly the others free.
\<close>

theorem alloc_frames_distinct:
  assumes "pmm_inv s" and "n \<le> card (free_frames s)" and "alloc_frames n s = (as, t)"
  shows "length as = n \<and> distinct as \<and> 0 \<notin> set as \<and> set as \<subseteq> frame_addr ` free_frames s
    \<and> frame_addr ` free_frames t = frame_addr ` free_frames s - set as \<and> pmm_inv t"
proof -
  have "inj_on frame_addr (free_frames s)"
    by (rule inj_onI) (simp add: frame_addr_inject free_frames_bound)
  then show ?thesis
    using pmm_supply.alloc_many_distinct [of s n as t] assms by (simp add: alloc_frames_many card_image)
qed

theorem alloc_frames_distinct_witness:
  "distinct (fst (alloc_frames 1000 (frame_alloc_init image_syms None reset_pmm)))"
proof -
  have "card ({..<PMM_TOTAL_FRAMES} - {128..182}) = card {..<PMM_TOTAL_FRAMES} - card {128..182::nat}"
    by (intro card_Diff_subset) auto
  then show ?thesis
    using alloc_frames_distinct [OF booted_pmm(1), of 1000] by (simp add: booted_pmm(2) prod_eq_iff)
qed

text \<open>
  C18. Releasing the frame that was just allocated restores the set of free frames and the
  counters, and keeps the invariant.
\<close>

theorem alloc_free_roundtrip:
  assumes "pmm_inv s" and "free_frames s \<noteq> {}" and "alloc_frame s = (a, t)"
  shows "free_frames (free_frame a t) = free_frames s \<and> free_memory (free_frame a t) = free_memory s
    \<and> total_memory (free_frame a t) = total_memory s \<and> pmm_inv (free_frame a t)"
proof -
  define i where "i = Min (free_frames s)"
  have i: "i \<in> free_frames s" using assms(2) by (simp add: i_def)
  note ib = free_frames_bound [OF i]
  have at: "a = frame_addr i" "t = take_frame i s"
    using assms(2,3) by (simp_all add: alloc_frame_some i_def)
  have "i \<notin> free_frames t" using take_frame_free_frames [OF assms(1) i] by (simp add: at)
  then have used: "test_bit i t" using ib by (simp add: free_frames_def)
  moreover have "region (frame_addr i) 4096 \<inter> bitmap_bytes t = {}"
    using pmm_inv_frame_bitmap_disjoint [OF assms(1) i] by (simp add: at)
  ultimately have "pmm_inv (free_frame a t) \<and> free_frames (free_frame a t) = insert i (free_frames t)"
    using free_frame_inv [OF _ ib, of t] take_frame_inv [OF assms(1) i] by (simp add: at)
  then show ?thesis
    using used i ib take_frame_free_frames [OF assms(1) i] by (auto simp: at free_frame_at)
qed

theorem alloc_free_roundtrip_witness:
  "case alloc_frame (frame_alloc_init image_syms None reset_pmm) of (a, t) \<Rightarrow>
     free_frames (free_frame a t) = {..<PMM_TOTAL_FRAMES} - {128..182}"
  using alloc_free_roundtrip [OF booted_pmm(1)] booted_not_exhausted
  by (simp add: booted_pmm(2) split: prod.splits)

text \<open>
  C19. \<open>free_frame\<close> rejects null, addresses outside the managed memory, unaligned
  addresses and frames that are free already: only the console changes.
\<close>

theorem free_frame_rejects:
  assumes "frame \<notin> frame_addr ` ({..<PMM_TOTAL_FRAMES} - free_frames s)"
  shows "\<exists>u. free_frame frame s = s\<lparr>uart := u\<rparr>"
proof (cases "\<exists>i < PMM_TOTAL_FRAMES. frame = frame_addr i")
  case True
  then obtain i where i: "i < PMM_TOTAL_FRAMES" "frame = frame_addr i" by blast
  with assms have "i \<in> free_frames s" by auto
  then have "\<not> test_bit i s" by (simp add: free_frames_def)
  with i show ?thesis by (auto simp: free_frame_at kprintf_def)
next
  case False
  then have "frame < PMM_RAM_BASE \<or> frame \<ge> PMM_MAX_ADDRESS \<or> frame mod PAGE_SIZE \<noteq> 0"
    using aligned_frame_addr [of frame] by (meson not_le)
  moreover have "\<exists>u. s = s\<lparr>uart := u\<rparr>" by (rule exI [of _ "uart s"]) simp
  ultimately show ?thesis by (auto simp: free_frame_def kprintf_def)
qed

theorem free_frame_rejects_witness: "\<exists>u. free_frame 0x40001008 reset_pmm = reset_pmm\<lparr>uart := u\<rparr>"
proof (rule free_frame_rejects, rule notI)
  assume "0x40001008 \<in> frame_addr ` ({..<PMM_TOTAL_FRAMES} - free_frames reset_pmm)"
  then obtain i where "i < PMM_TOTAL_FRAMES" "0x40001008 = frame_addr i" by auto
  then show False using frame_addr_index(5) [of i] by simp
qed

text \<open>
  \<open>free_frame\<close> does not protect the kernel's own frames: after initialisation it
  accepts every one of them, the frame can be handed out and zeroed next, and the free
  memory is reported to exceed the total.
\<close>

lemma free_frame_releases_kernel:
  assumes "layout_ok ls (ks, ke)" and "kernel_bounds ls params = (ks, ke)"
    and "frame_bitmap s = sym_pmm_bitmap_start ls"
    and "i \<in> frames_of ks ke" and "i < PMM_TOTAL_FRAMES"
  defines "t \<equiv> free_frame (frame_addr i) (frame_alloc_init ls params s)"
  shows "i \<in> free_frames t \<and> total_memory t < free_memory t"
proof -
  define u where "u = frame_alloc_init ls params s"
  have u: "init_acct u" "free_frames u = {..<PMM_TOTAL_FRAMES} - frames_of ks ke"
    using frame_alloc_init_acct [OF assms(1-3)] by (simp_all add: u_def)
  then have i: "i \<notin> free_frames u" "test_bit i u" using assms(4,5) by (auto simp: free_frames_def)
  have "unat (free_memory u + PAGE_SIZE) = unat (free_memory u) + 4096"
    using card_free_frames_room [OF i(1) assms(5)] u(1)
    by (subst unat_add_no_wrap) (simp_all add: init_acct_def)
  then have "total_memory u < free_memory u + PAGE_SIZE"
    using u(1) by (simp add: init_acct_def word_less_nat_alt)
  then show ?thesis
    using i assms(5) by (simp add: t_def u_def [symmetric] free_frame_at free_frames_clear_bit)
qed

end
