(* ===== verification/Kheap.thy ===== *)
theory Kheap
  imports Frame_Alloc
begin

text \<open>
  The kernel heap of \<^verbatim>\<open>src/src/memory/kheap.c\<close>: blocks with a 48-byte header in
  memory, doubly linked in physical order, and a doubly linked free list through the free
  ones. Headers are decoded from and stored to the byte memory field by field, in the
  AArch64 layout of \<open>struct heap_block\<close>; the three list heads are static variables.
\<close>

section \<open>State and headers\<close>

record kheap = pmm +
  free_list_head :: addr
  heap_start :: addr
  heap_end :: addr

record heap_block =
  hb_size :: u64
  hb_is_free :: bool
  hb_next :: addr
  hb_prev :: addr
  hb_next_free :: addr
  hb_prev_free :: addr

abbreviation HEAP_HEADER_SIZE :: u64 where "HEAP_HEADER_SIZE \<equiv> 48"
abbreviation HEAP_MIN_BLOCK_SIZE :: u64 where "HEAP_MIN_BLOCK_SIZE \<equiv> 96"

text \<open>The header at an address. \<open>is_free\<close> is a byte, followed by seven bytes of padding.\<close>

definition hdr :: "memory \<Rightarrow> addr \<Rightarrow> heap_block" where
  "hdr m b = \<lparr>hb_size = load64 m b, hb_is_free = (m (b + 8) \<noteq> 0), hb_next = load64 m (b + 16),
     hb_prev = load64 m (b + 24), hb_next_free = load64 m (b + 32), hb_prev_free = load64 m (b + 40)\<rparr>"

definition set_size :: "addr \<Rightarrow> u64 \<Rightarrow> 'a kheap_scheme \<Rightarrow> 'a kheap_scheme" where
  "set_size b v s = s\<lparr>mem := store64 (mem s) b v\<rparr>"

definition set_is_free :: "addr \<Rightarrow> bool \<Rightarrow> 'a kheap_scheme \<Rightarrow> 'a kheap_scheme" where
  "set_is_free b v s = s\<lparr>mem := (mem s)(b + 8 := (if v then 1 else 0))\<rparr>"

definition set_next :: "addr \<Rightarrow> addr \<Rightarrow> 'a kheap_scheme \<Rightarrow> 'a kheap_scheme" where
  "set_next b v s = s\<lparr>mem := store64 (mem s) (b + 16) v\<rparr>"

definition set_prev :: "addr \<Rightarrow> addr \<Rightarrow> 'a kheap_scheme \<Rightarrow> 'a kheap_scheme" where
  "set_prev b v s = s\<lparr>mem := store64 (mem s) (b + 24) v\<rparr>"

definition set_next_free :: "addr \<Rightarrow> addr \<Rightarrow> 'a kheap_scheme \<Rightarrow> 'a kheap_scheme" where
  "set_next_free b v s = s\<lparr>mem := store64 (mem s) (b + 32) v\<rparr>"

definition set_prev_free :: "addr \<Rightarrow> addr \<Rightarrow> 'a kheap_scheme \<Rightarrow> 'a kheap_scheme" where
  "set_prev_free b v s = s\<lparr>mem := store64 (mem s) (b + 40) v\<rparr>"

section \<open>Free list\<close>

definition add_to_free_list :: "addr \<Rightarrow> 'a kheap_scheme \<Rightarrow> 'a kheap_scheme" where
  "add_to_free_list block s =
     (let s1 = set_is_free block True s;
          s2 = set_next_free block (free_list_head s1) s1;
          s3 = set_prev_free block 0 s2;
          s4 = (if free_list_head s3 \<noteq> 0 then set_prev_free (free_list_head s3) block s3 else s3)
      in s4\<lparr>free_list_head := block\<rparr>)"

definition remove_from_free_list :: "addr \<Rightarrow> 'a kheap_scheme \<Rightarrow> 'a kheap_scheme" where
  "remove_from_free_list block s =
     (let s1 = (if hb_prev_free (hdr (mem s) block) \<noteq> 0
                then set_next_free (hb_prev_free (hdr (mem s) block)) (hb_next_free (hdr (mem s) block)) s
                else s\<lparr>free_list_head := hb_next_free (hdr (mem s) block)\<rparr>);
          s2 = (if hb_next_free (hdr (mem s1) block) \<noteq> 0
                then set_prev_free (hb_next_free (hdr (mem s1) block)) (hb_prev_free (hdr (mem s1) block)) s1
                else s1);
          s3 = set_is_free block False s2;
          s4 = set_next_free block 0 s3
      in set_prev_free block 0 s4)"

text \<open>
  Merging block \<open>b\<close> into its predecessor \<open>a\<close>: the statements that
  \<open>expand_heap\<close> and both halves of \<open>coalesce\<close> repeat.
\<close>

definition absorb :: "addr \<Rightarrow> addr \<Rightarrow> 'a kheap_scheme \<Rightarrow> 'a kheap_scheme" where
  "absorb a b s =
     (let s1 = set_size a (hb_size (hdr (mem s) a) + (hb_size (hdr (mem s) b) + HEAP_HEADER_SIZE)) s;
          s2 = set_next a (hb_next (hdr (mem s1) b)) s1;
          s3 = (if hb_next (hdr (mem s2) a) \<noteq> 0 then set_prev (hb_next (hdr (mem s2) a)) a s2 else s2)
      in if heap_end s3 = b then s3\<lparr>heap_end := a\<rparr> else s3)"

section \<open>Expansion\<close>

text \<open>One iteration behind a successful \<open>alloc_frame\<close>: the new block and its links.\<close>

definition link_frame :: "addr \<Rightarrow> 'a kheap_scheme \<Rightarrow> 'a kheap_scheme" where
  "link_frame frame s =
     (let s1 = set_size frame (PAGE_SIZE - HEAP_HEADER_SIZE) s;
          s2 = set_is_free frame True s1;
          s3 = set_next frame 0 s2;
          s4 = (if heap_end s3 \<noteq> 0
                then set_next (heap_end s3) frame (set_prev frame (heap_end s3) s3)
                else set_prev frame 0 (s3\<lparr>heap_start := frame\<rparr>))
      in s4\<lparr>heap_end := frame\<rparr>)"

text \<open>The loop over the pages; \<open>None\<close> is the early \<open>return false\<close>.\<close>

fun expand_loop :: "nat \<Rightarrow> addr \<Rightarrow> 'a kheap_scheme \<Rightarrow> addr option \<times> 'a kheap_scheme" where
  "expand_loop 0 new_block s = (Some new_block, s)"
| "expand_loop (Suc n) new_block s =
     (case alloc_frame s of (frame, s1) \<Rightarrow>
        if frame = 0 then
          (None, kprintf ''KHeap Error: Failed to allocate frame during expansion!\<newline>'' [] s1)
        else expand_loop n (if new_block = 0 then frame else new_block) (link_frame frame s1))"

definition pages_needed :: "u64 \<Rightarrow> u64" where
  "pages_needed min_expand_size =
     (let n = (min_expand_size + HEAP_HEADER_SIZE + PAGE_SIZE - 1) div PAGE_SIZE
      in if n = 0 then 1 else n)"

definition expand_heap :: "u64 \<Rightarrow> 'a kheap_scheme \<Rightarrow> bool \<times> 'a kheap_scheme" where
  "expand_heap min_expand_size s =
     (let s0 = kprintf ''KHeap: Expanding heap by %zu pages\<newline>'' [VWord (pages_needed min_expand_size)] s
      in case expand_loop (unat (pages_needed min_expand_size)) 0 s0 of
           (None, s1) \<Rightarrow> (False, s1)
         | (Some new_block, s1) \<Rightarrow>
             if new_block = 0 then (False, s1)
             else
               (let prev_block = hb_prev (hdr (mem s1) new_block)
                in if prev_block \<noteq> 0 \<and> hb_is_free (hdr (mem s1) prev_block)
                   then (True, add_to_free_list prev_block
                                 (absorb prev_block new_block (remove_from_free_list prev_block s1)))
                   else (True, add_to_free_list new_block s1)))"

section \<open>Coalescing\<close>

definition clear_header :: "addr \<Rightarrow> 'a kheap_scheme \<Rightarrow> 'a kheap_scheme" where
  "clear_header b s = s\<lparr>mem := memset (mem s) b 0 HEAP_HEADER_SIZE\<rparr>"

definition coalesce_next :: "addr \<Rightarrow> 'a kheap_scheme \<Rightarrow> 'a kheap_scheme" where
  "coalesce_next current s =
     (let next_block = hb_next (hdr (mem s) current)
      in if next_block \<noteq> 0 \<and> hb_is_free (hdr (mem s) next_block) then
           (let s0 = kprintf ''KHeap: Coalescing forward %p (%zu) with %p (%zu)\<newline>''
                       [VWord current, VWord (hb_size (hdr (mem s) current)),
                        VWord next_block, VWord (hb_size (hdr (mem s) next_block))] s;
                s1 = remove_from_free_list next_block s0;
                s2 = absorb current next_block s1
            in clear_header next_block s2)
         else s)"

definition coalesce_prev :: "addr \<Rightarrow> 'a kheap_scheme \<Rightarrow> addr \<times> 'a kheap_scheme" where
  "coalesce_prev current s =
     (let prev_block = hb_prev (hdr (mem s) current)
      in if prev_block \<noteq> 0 \<and> hb_is_free (hdr (mem s) prev_block) then
           (let s0 = kprintf ''KHeap: Coalescing backward %p (%zu) with %p (%zu)\<newline>''
                       [VWord prev_block, VWord (hb_size (hdr (mem s) prev_block)),
                        VWord current, VWord (hb_size (hdr (mem s) current))] s;
                s1 = remove_from_free_list prev_block s0;
                s2 = absorb prev_block current s1
            in (prev_block, clear_header current s2))
         else (current, s))"

definition coalesce :: "addr \<Rightarrow> 'a kheap_scheme \<Rightarrow> addr \<times> 'a kheap_scheme" where
  "coalesce block s =
     (if block = 0 \<or> \<not> hb_is_free (hdr (mem s) block) then (block, s)
      else coalesce_prev block (coalesce_next block s))"

section \<open>Interface\<close>

definition kheap_init :: "'a kheap_scheme \<Rightarrow> 'a kheap_scheme" where
  "kheap_init s =
     (let s1 = s\<lparr>free_list_head := 0, heap_start := 0, heap_end := 0\<rparr>;
          s2 = snd (expand_heap (PAGE_SIZE * 4) s1)
      in kprintf ''KHeap: Initialized.\<newline>'' [] s2)"

text \<open>The first-fit search along the free list; 0 is \<open>best_fit == NULL\<close>.\<close>

partial_function (option) first_fit :: "memory \<Rightarrow> addr \<Rightarrow> u64 \<Rightarrow> addr option" where
  "first_fit m current_free size' =
     (if current_free \<noteq> 0 then
        (if hb_size (hdr m current_free) \<ge> size' then Some current_free
         else first_fit m (hb_next_free (hdr m current_free)) size')
      else Some 0)"

definition align8 :: "u64 \<Rightarrow> u64" where
  "align8 size' = (size' + 8 - 1) AND NOT (8 - 1)"

text \<open>From the block that was found to the data pointer: unlink, split, zero.\<close>

definition split_block :: "addr \<Rightarrow> u64 \<Rightarrow> 'a kheap_scheme \<Rightarrow> 'a kheap_scheme" where
  "split_block best_fit size' s =
     (let remaining_size = hb_size (hdr (mem s) best_fit) - size' - HEAP_HEADER_SIZE;
          new_free_block = best_fit + HEAP_HEADER_SIZE + size';
          s1 = set_size new_free_block remaining_size s;
          s2 = set_is_free new_free_block True s1;
          s3 = set_next new_free_block (hb_next (hdr (mem s2) best_fit)) s2;
          s4 = set_prev new_free_block best_fit s3;
          s5 = (if hb_next (hdr (mem s4) new_free_block) \<noteq> 0
                then set_prev (hb_next (hdr (mem s4) new_free_block)) new_free_block s4
                else s4\<lparr>heap_end := new_free_block\<rparr>);
          s6 = set_size best_fit size' s5;
          s7 = set_next best_fit new_free_block s6;
          s8 = add_to_free_list new_free_block s7
      in kprintf ''KHeap: Split block %p. Allocated %zu, remaining %zu at %p\<newline>''
           [VWord best_fit, VWord (hb_size (hdr (mem s8) best_fit)),
            VWord (hb_size (hdr (mem s8) new_free_block)), VWord new_free_block] s8)"

definition take_block :: "addr \<Rightarrow> u64 \<Rightarrow> 'a kheap_scheme \<Rightarrow> addr \<times> 'a kheap_scheme" where
  "take_block best_fit size' s =
     (let s1 = remove_from_free_list best_fit s;
          s2 = (if hb_size (hdr (mem s1) best_fit) \<ge> size' + HEAP_MIN_BLOCK_SIZE
                then split_block best_fit size' s1
                else kprintf ''KHeap: Allocated whole block %p (%zu) for size %zu\<newline>''
                       [VWord best_fit, VWord (hb_size (hdr (mem s1) best_fit)), VWord size'] s1);
          s3 = set_is_free best_fit False s2;
          data_ptr = best_fit + HEAP_HEADER_SIZE
      in (data_ptr, s3\<lparr>mem := memset (mem s3) data_ptr 0 (hb_size (hdr (mem s3) best_fit))\<rparr>))"

text \<open>\<open>None\<close> is a search that does not end; a null result is the pointer 0.\<close>

definition kmalloc :: "u64 \<Rightarrow> 'a kheap_scheme \<Rightarrow> (addr \<times> 'a kheap_scheme) option" where
  "kmalloc size0 s =
     (if size0 = 0 then Some (0, s)
      else
        (let size' = align8 size0;
             total_size_needed = size' + HEAP_HEADER_SIZE
         in do {
              best_fit \<leftarrow> first_fit (mem s) (free_list_head s) size';
              if best_fit = 0 then
                (case expand_heap total_size_needed s of
                   (False, s1) \<Rightarrow>
                     Some (0, kprintf ''KHeap Error: Failed to expand heap for allocation of size %zu\<newline>''
                                [VWord size'] s1)
                 | (True, s1) \<Rightarrow>
                     do {
                       best_fit \<leftarrow> first_fit (mem s1) (free_list_head s1) size';
                       if best_fit = 0 then
                         Some (0, kprintf ''KHeap Error: Still no suitable block after expansion!\<newline>'' [] s1)
                       else Some (take_block best_fit size' s1)
                     })
              else Some (take_block best_fit size' s)
            }))"

definition kfree :: "addr \<Rightarrow> 'a kheap_scheme \<Rightarrow> 'a kheap_scheme" where
  "kfree ptr s =
     (if ptr = 0 then s
      else
        (let block = ptr - HEAP_HEADER_SIZE
         in if hb_is_free (hdr (mem s) block) then
              kprintf ''KHeap Warning: Double free detected for pointer %p\<newline>'' [VWord ptr] s
            else
              (let s0 = kprintf ''KHeap: kfree(%p) - block %p, size %zu\<newline>''
                          [VWord ptr, VWord block, VWord (hb_size (hdr (mem s) block))] s;
                   s1 = set_is_free block True s0
               in case coalesce block s1 of
                    (coalesced_block, s2) \<Rightarrow>
                      (let s3 = add_to_free_list coalesced_block s2
                       in if coalesced_block = block
                          then kprintf ''KHeap: Added block %p (%zu) to free list\<newline>''
                                 [VWord coalesced_block, VWord (hb_size (hdr (mem s3) coalesced_block))] s3
                          else kprintf ''KHeap: Added coalesced block %p (%zu) to free list\<newline>''
                                 [VWord coalesced_block, VWord (hb_size (hdr (mem s3) coalesced_block))] s3))))"

end
