(* ===== verification/Kheap_View.thy ===== *)
theory Kheap_View
  imports Kheap
begin

text \<open>
  The header operations of the heap on an abstract heap: a set \<open>B\<close> of block addresses and
  a function \<open>H\<close> that gives each its header. \<open>tiled\<close> says that the blocks fill an
  address range without gaps and that the physical links follow their order;
  \<open>listed\<close> that the free-list links of a set of blocks are consistent. Both are stated
  block by block, so that they also hold of free blocks that no chain from the list head
  reaches. The lemmas show what each group of header updates does to the two.
\<close>

section \<open>Abstract headers\<close>

type_synonym headers = "addr \<Rightarrow> heap_block"

named_theorems view_simps

definition blk_end :: "headers \<Rightarrow> addr \<Rightarrow> nat" where
  "blk_end H b = unat b + 48 + unat (hb_size (H b))"

definition tiled :: "addr set \<Rightarrow> headers \<Rightarrow> addr \<Rightarrow> addr \<Rightarrow> nat \<Rightarrow> nat \<Rightarrow> bool" where
  "tiled B H hs he lo hi \<longleftrightarrow>
     finite B \<and> 0 < lo \<and> hi \<le> 0x80000000 \<and> hs \<in> B \<and> he \<in> B
     \<and> unat hs = lo \<and> hb_prev (H hs) = 0 \<and> blk_end H he = hi \<and> hb_next (H he) = 0
     \<and> (\<forall>b \<in> B. lo \<le> unat b \<and> blk_end H b \<le> hi \<and> 8 dvd unat b \<and> 8 dvd unat (hb_size (H b)))
     \<and> (\<forall>b \<in> B. \<forall>c \<in> B. unat b < unat c \<longrightarrow> blk_end H b \<le> unat c)
     \<and> (\<forall>b \<in> B. b \<noteq> he \<longrightarrow> hb_next (H b) \<in> B \<and> unat (hb_next (H b)) = blk_end H b
                            \<and> hb_prev (H (hb_next (H b))) = b)
     \<and> (\<forall>b \<in> B. b \<noteq> hs \<longrightarrow> hb_prev (H b) \<in> B \<and> hb_next (H (hb_prev (H b))) = b)"

definition listed :: "addr set \<Rightarrow> headers \<Rightarrow> addr \<Rightarrow> bool" where
  "listed F H head \<longleftrightarrow>
     0 \<notin> F \<and> (head \<noteq> 0 \<longrightarrow> head \<in> F \<and> hb_prev_free (H head) = 0)
     \<and> (\<forall>b \<in> F. (hb_next_free (H b) \<noteq> 0 \<longrightarrow>
                  hb_next_free (H b) \<in> F \<and> hb_prev_free (H (hb_next_free (H b))) = b)
             \<and> (hb_prev_free (H b) \<noteq> 0 \<longrightarrow>
                  hb_prev_free (H b) \<in> F \<and> hb_next_free (H (hb_prev_free (H b))) = b))"

definition v_add :: "headers \<Rightarrow> addr \<Rightarrow> addr \<Rightarrow> headers" where
  "v_add H head b =
     (let H1 = H(b := (H b)\<lparr>hb_is_free := True, hb_next_free := head, hb_prev_free := 0\<rparr>)
      in if head \<noteq> 0 then H1(head := (H1 head)\<lparr>hb_prev_free := b\<rparr>) else H1)"

definition v_remove :: "headers \<Rightarrow> addr \<Rightarrow> headers" where
  "v_remove H b =
     (let p = hb_prev_free (H b); n = hb_next_free (H b);
          H1 = (if p \<noteq> 0 then H(p := (H p)\<lparr>hb_next_free := n\<rparr>) else H);
          H2 = (if n \<noteq> 0 then H1(n := (H1 n)\<lparr>hb_prev_free := p\<rparr>) else H1)
      in H2(b := (H2 b)\<lparr>hb_is_free := False, hb_next_free := 0, hb_prev_free := 0\<rparr>))"

definition v_remove_head :: "headers \<Rightarrow> addr \<Rightarrow> addr \<Rightarrow> addr" where
  "v_remove_head H head b = (if hb_prev_free (H b) \<noteq> 0 then head else hb_next_free (H b))"

definition v_absorb :: "headers \<Rightarrow> addr \<Rightarrow> addr \<Rightarrow> headers" where
  "v_absorb H a b =
     (let n = hb_next (H b);
          H1 = H(a := (H a)\<lparr>hb_size := hb_size (H a) + (hb_size (H b) + 48), hb_next := n\<rparr>)
      in if n \<noteq> 0 then H1(n := (H1 n)\<lparr>hb_prev := a\<rparr>) else H1)"

definition v_split :: "headers \<Rightarrow> addr \<Rightarrow> u64 \<Rightarrow> addr \<Rightarrow> headers" where
  "v_split H a n new =
     (let nx = hb_next (H a);
          H1 = H(new := (H new)\<lparr>hb_size := hb_size (H a) - n - 48, hb_is_free := True,
                               hb_next := nx, hb_prev := a\<rparr>);
          H2 = (if nx \<noteq> 0 then H1(nx := (H1 nx)\<lparr>hb_prev := new\<rparr>) else H1)
      in H2(a := (H2 a)\<lparr>hb_size := n, hb_next := new\<rparr>))"

definition v_link :: "headers \<Rightarrow> addr \<Rightarrow> addr \<Rightarrow> headers" where
  "v_link H he f =
     (let H1 = H(f := (H f)\<lparr>hb_size := 4048, hb_is_free := True, hb_next := 0, hb_prev := he\<rparr>)
      in if he \<noteq> 0 then H1(he := (H1 he)\<lparr>hb_next := f\<rparr>) else H1)"

section \<open>Consequences of the tiling\<close>

lemma tiledD:
  assumes "tiled B H hs he lo hi"
  shows "finite B" "0 < lo" "hi \<le> 0x80000000" "hs \<in> B" "he \<in> B" "unat hs = lo"
    "hb_prev (H hs) = 0" "blk_end H he = hi" "hb_next (H he) = 0"
  using assms by (simp_all add: tiled_def)

lemma tiled_block:
  assumes "tiled B H hs he lo hi" and "b \<in> B"
  shows "lo \<le> unat b" "blk_end H b \<le> hi" "8 dvd unat b" "8 dvd unat (hb_size (H b))"
    "b \<noteq> he \<Longrightarrow> hb_next (H b) \<in> B" "b \<noteq> he \<Longrightarrow> unat (hb_next (H b)) = blk_end H b"
    "b \<noteq> he \<Longrightarrow> hb_prev (H (hb_next (H b))) = b"
    "b \<noteq> hs \<Longrightarrow> hb_prev (H b) \<in> B" "b \<noteq> hs \<Longrightarrow> hb_next (H (hb_prev (H b))) = b"
  using assms by (auto simp: tiled_def)

lemma tiled_order:
  "tiled B H hs he lo hi \<Longrightarrow> b \<in> B \<Longrightarrow> c \<in> B \<Longrightarrow> unat b < unat c \<Longrightarrow> blk_end H b \<le> unat c"
  by (simp add: tiled_def)

lemma tiled_sep:
  assumes "tiled B H hs he lo hi" and "b \<in> B" and "c \<in> B" and "b \<noteq> c"
  shows "blk_end H b \<le> unat c \<or> blk_end H c \<le> unat b"
proof -
  from assms(4) have "unat b < unat c \<or> unat c < unat b" by (metis linorder_neqE_nat word_unat_eq_iff)
  with assms show ?thesis by (auto dest: tiled_order)
qed

lemma tiled_nonzero: "tiled B H hs he lo hi \<Longrightarrow> b \<in> B \<Longrightarrow> b \<noteq> 0"
  using tiled_block(1) [of B H hs he lo hi b] tiledD(2) [of B H hs he lo hi] by auto

lemma tiled_next_nonzero:
  "tiled B H hs he lo hi \<Longrightarrow> b \<in> B \<Longrightarrow> hb_next (H b) \<noteq> 0 \<longleftrightarrow> b \<noteq> he"
  using tiled_block(5) tiled_nonzero tiledD(9) by metis

lemma tiled_prev_nonzero:
  "tiled B H hs he lo hi \<Longrightarrow> b \<in> B \<Longrightarrow> hb_prev (H b) \<noteq> 0 \<longleftrightarrow> b \<noteq> hs"
  using tiled_block(8) tiled_nonzero tiledD(7) by metis

lemma tiled_cong:
  assumes "tiled B H hs he lo hi"
    and "\<And>b. b \<in> B \<Longrightarrow> hb_size (H' b) = hb_size (H b) \<and> hb_next (H' b) = hb_next (H b) \<and> hb_prev (H' b) = hb_prev (H b)"
  shows "tiled B H' hs he lo hi"
proof -
  have e: "blk_end H' b = blk_end H b" if "b \<in> B" for b using assms(2) [OF that] by (simp add: blk_end_def)
  show ?thesis using assms e unfolding tiled_def by auto
qed

lemma listed_cong:
  assumes "listed F H head"
    and "\<And>b. b \<in> F \<Longrightarrow> hb_next_free (H' b) = hb_next_free (H b) \<and> hb_prev_free (H' b) = hb_prev_free (H b)"
  shows "listed F H' head"
  using assms unfolding listed_def by auto

section \<open>Free list\<close>

lemma v_add_fields [view_simps]:
  "hb_size (v_add H head b c) = hb_size (H c)" "hb_next (v_add H head b c) = hb_next (H c)"
  "hb_prev (v_add H head b c) = hb_prev (H c)"
  "hb_is_free (v_add H head b c) = (c = b \<or> hb_is_free (H c))"
  by (auto simp: v_add_def Let_def)

lemma v_remove_fields [view_simps]:
  "hb_size (v_remove H b c) = hb_size (H c)" "hb_next (v_remove H b c) = hb_next (H c)"
  "hb_prev (v_remove H b c) = hb_prev (H c)"
  "hb_is_free (v_remove H b c) = (c \<noteq> b \<and> hb_is_free (H c))"
  by (auto simp: v_remove_def Let_def)

lemma listed_add:
  assumes "listed F H head" and "b \<notin> F" and "b \<noteq> 0"
  shows "listed (insert b F) (v_add H head b) b"
  using assms unfolding listed_def v_add_def Let_def by auto

lemma v_remove_links:
  assumes "c \<noteq> b" and "c \<noteq> 0"
  shows "hb_next_free (v_remove H b c) = (if c = hb_prev_free (H b) then hb_next_free (H b) else hb_next_free (H c))"
    "hb_prev_free (v_remove H b c) = (if c = hb_next_free (H b) then hb_prev_free (H b) else hb_prev_free (H c))"
  using assms by (auto simp: v_remove_def Let_def)

lemma listedD:
  assumes "listed F H head"
  shows "0 \<notin> F" "head \<noteq> 0 \<Longrightarrow> head \<in> F" "head \<noteq> 0 \<Longrightarrow> hb_prev_free (H head) = 0"
    "b \<in> F \<Longrightarrow> hb_next_free (H b) \<noteq> 0 \<Longrightarrow> hb_next_free (H b) \<in> F"
    "b \<in> F \<Longrightarrow> hb_next_free (H b) \<noteq> 0 \<Longrightarrow> hb_prev_free (H (hb_next_free (H b))) = b"
    "b \<in> F \<Longrightarrow> hb_prev_free (H b) \<noteq> 0 \<Longrightarrow> hb_prev_free (H b) \<in> F"
    "b \<in> F \<Longrightarrow> hb_prev_free (H b) \<noteq> 0 \<Longrightarrow> hb_next_free (H (hb_prev_free (H b))) = b"
  using assms by (simp_all add: listed_def)

lemma listed_remove:
  assumes L: "listed F H head" and b: "b \<in> F"
  shows "listed (F - {b}) (v_remove H b) (v_remove_head H head b)"
proof -
  let ?n = "hb_next_free (H b)" and ?p = "hb_prev_free (H b)" and ?H = "v_remove H b"
  note D = listedD [OF L]
  have nz: "c \<noteq> 0" if "c \<in> F" for c using that D(1) by blast
  have links: "hb_next_free (?H c) = (if c = ?p then ?n else hb_next_free (H c))"
    "hb_prev_free (?H c) = (if c = ?n then ?p else hb_prev_free (H c))" if "c \<in> F" "c \<noteq> b" for c
    using v_remove_links [OF that(2) nz [OF that(1)]] by blast+
  have next': "hb_next_free (?H c) \<in> F - {b} \<and> hb_prev_free (?H (hb_next_free (?H c))) = c"
    if c: "c \<in> F" "c \<noteq> b" and n: "hb_next_free (?H c) \<noteq> 0" for c
  proof (cases "c = ?p")
    case True
    then have n': "hb_next_free (?H c) = ?n" "?n \<noteq> 0" using links c n by auto
    have "?n \<noteq> b" using D(5) [OF b n'(2)] c True by metis
    then show ?thesis using n' True D(4) [OF b] links(2) [of ?n] by auto
  next
    case False
    then have n': "hb_next_free (?H c) = hb_next_free (H c)" "hb_next_free (H c) \<noteq> 0" using links c n by auto
    have "hb_next_free (H c) \<noteq> b" using D(5) [OF c(1) n'(2)] False by metis
    moreover have "hb_next_free (H c) \<noteq> ?n" using D(5) [OF c(1) n'(2)] D(5) [OF b] n'(2) c(2) by metis
    ultimately show ?thesis using n' D(4,5) [OF c(1) n'(2)] links(2) [of "hb_next_free (H c)"] by auto
  qed
  have prev': "hb_prev_free (?H c) \<in> F - {b} \<and> hb_next_free (?H (hb_prev_free (?H c))) = c"
    if c: "c \<in> F" "c \<noteq> b" and n: "hb_prev_free (?H c) \<noteq> 0" for c
  proof (cases "c = ?n")
    case True
    then have n': "hb_prev_free (?H c) = ?p" "?p \<noteq> 0" using links c n by auto
    have "?p \<noteq> b" using D(7) [OF b n'(2)] c True by metis
    then show ?thesis using n' True D(6) [OF b] links(1) [of ?p] by auto
  next
    case False
    then have n': "hb_prev_free (?H c) = hb_prev_free (H c)" "hb_prev_free (H c) \<noteq> 0" using links c n by auto
    have "hb_prev_free (H c) \<noteq> b" using D(7) [OF c(1) n'(2)] False by metis
    moreover have "hb_prev_free (H c) \<noteq> ?p" using D(7) [OF c(1) n'(2)] D(7) [OF b] n'(2) c(2) by metis
    ultimately show ?thesis using n' D(6,7) [OF c(1) n'(2)] links(1) [of "hb_prev_free (H c)"] by auto
  qed
  have "v_remove_head H head b \<in> F - {b} \<and> hb_prev_free (?H (v_remove_head H head b)) = 0"
    if h: "v_remove_head H head b \<noteq> 0"
  proof (cases "?p = 0")
    case True
    then have n': "v_remove_head H head b = ?n" "?n \<noteq> 0" using h by (auto simp: v_remove_head_def)
    have "?n \<noteq> b" using D(5) [OF b n'(2)] True nz [OF b] by metis
    then show ?thesis using n' True D(4) [OF b] links(2) [of ?n] by auto
  next
    case False
    then have h': "v_remove_head H head b = head" "head \<noteq> 0" using h by (auto simp: v_remove_head_def)
    have "head \<noteq> b" using False D(3) [OF h'(2)] by metis
    moreover have "head \<noteq> ?n" using D(3,5) h'(2) b nz [OF b] by metis
    ultimately show ?thesis using h' D(2,3) [OF h'(2)] links(2) [of head] by auto
  qed
  with next' prev' D(1) show ?thesis unfolding listed_def by blast
qed

section \<open>Merging, splitting, growing\<close>

lemma tiledI:
  assumes "finite B" "0 < lo" "hi \<le> 0x80000000" "hs \<in> B" "he \<in> B"
    and "unat hs = lo" "hb_prev (H hs) = 0" "blk_end H he = hi" "hb_next (H he) = 0"
    and "\<And>b. b \<in> B \<Longrightarrow> lo \<le> unat b \<and> blk_end H b \<le> hi \<and> 8 dvd unat b \<and> 8 dvd unat (hb_size (H b))"
    and "\<And>b c. b \<in> B \<Longrightarrow> c \<in> B \<Longrightarrow> unat b < unat c \<Longrightarrow> blk_end H b \<le> unat c"
    and "\<And>b. b \<in> B \<Longrightarrow> b \<noteq> he \<Longrightarrow> hb_next (H b) \<in> B \<and> unat (hb_next (H b)) = blk_end H b
                            \<and> hb_prev (H (hb_next (H b))) = b"
    and "\<And>b. b \<in> B \<Longrightarrow> b \<noteq> hs \<Longrightarrow> hb_prev (H b) \<in> B \<and> hb_next (H (hb_prev (H b))) = b"
  shows "tiled B H hs he lo hi"
  using assms unfolding tiled_def by blast

lemma blk_end_unfold: "unat b + 48 \<le> blk_end H b" "unat b < blk_end H b"
  by (simp_all add: blk_end_def)

lemma v_absorb_fields [view_simps]:
  "hb_is_free (v_absorb H a b c) = hb_is_free (H c)"
  "hb_next_free (v_absorb H a b c) = hb_next_free (H c)"
  "hb_prev_free (v_absorb H a b c) = hb_prev_free (H c)"
  "hb_size (v_absorb H a b c) = (if c = a then hb_size (H a) + (hb_size (H b) + 48) else hb_size (H c))"
  "hb_next (v_absorb H a b c) = (if c = a then hb_next (H b) else hb_next (H c))"
  "hb_prev (v_absorb H a b c) = (if c = hb_next (H b) \<and> c \<noteq> 0 then a else hb_prev (H c))"
  by (auto simp: v_absorb_def Let_def)

lemma absorb_facts:
  assumes T: "tiled B H hs he lo hi" and a: "a \<in> B" "a \<noteq> he" and b: "b = hb_next (H a)"
  shows "b \<in> B" and "hb_prev (H b) = a" and "a \<noteq> b" and "b \<noteq> hs" and "unat b = blk_end H a"
    and "unat (hb_size (v_absorb H a b a)) = unat (hb_size (H a)) + unat (hb_size (H b)) + 48"
    and "blk_end (v_absorb H a b) a = blk_end H b" and "c \<noteq> a \<Longrightarrow> blk_end (v_absorb H a b) c = blk_end H c"
    and "he \<noteq> b \<Longrightarrow> hb_next (H b) \<in> B" and "he \<noteq> b \<Longrightarrow> unat (hb_next (H b)) = blk_end H b"
    and "he \<noteq> b \<Longrightarrow> hb_next (H b) \<noteq> b"
proof -
  show bB: "b \<in> B" and bu: "unat b = blk_end H a" and "hb_prev (H b) = a"
    using tiled_block(5-7) [OF T a(1)] a(2) b by auto
  show "a \<noteq> b" using bu blk_end_unfold(2) [of a H] by auto
  have le: "blk_end H b \<le> 0x80000000" using tiled_block(2) [OF T bB] tiledD(3) [OF T] by simp
  have "unat (hb_size (H b) + 48) = unat (hb_size (H b)) + 48"
    using le by (subst unat_add_no_wrap) (auto simp: blk_end_def)
  then show sz: "unat (hb_size (v_absorb H a b a)) = unat (hb_size (H a)) + unat (hb_size (H b)) + 48"
    using le bu by (simp add: view_simps, subst unat_add_no_wrap) (auto simp: blk_end_def)
  show "blk_end (v_absorb H a b) a = blk_end H b" using sz bu by (simp add: blk_end_def)
  show "blk_end (v_absorb H a b) c = blk_end H c" if "c \<noteq> a" using that by (simp add: blk_end_def view_simps)
  show "hb_next (H b) \<in> B" "unat (hb_next (H b)) = blk_end H b" "hb_next (H b) \<noteq> b" if "he \<noteq> b"
    using tiled_block(5,6) [OF T bB] that blk_end_unfold(2) [of b H] by auto
  show "b \<noteq> hs" using bu tiled_block(1) [OF T a(1)] blk_end_unfold(2) [of a H] tiledD(6) [OF T] by auto
qed

lemma absorb_next:
  assumes T: "tiled B H hs he lo hi" and a: "a \<in> B" "a \<noteq> he" and b: "b = hb_next (H a)"
    and c: "c \<in> B - {b}" "c \<noteq> (if he = b then a else he)"
  defines "H' \<equiv> v_absorb H a b"
  shows "hb_next (H' c) \<in> B - {b} \<and> unat (hb_next (H' c)) = blk_end H' c \<and> hb_prev (H' (hb_next (H' c))) = c"
proof -
  note A = absorb_facts [OF T a b, folded H'_def]
  show ?thesis
  proof (cases "c = a")
    case True
    then have "he \<noteq> b" using c(2) by auto
    with True A(7) A(9-11) show ?thesis using tiled_nonzero [OF T A(9)] by (auto simp: H'_def view_simps)
  next
    case False
    then have ne: "c \<noteq> he" and cB: "c \<in> B" using c by auto
    note N = tiled_block(5-7) [OF T cB ne]
    have "hb_next (H c) \<noteq> b" using N(3) A(2) False by auto
    moreover have "hb_next (H c) \<noteq> hb_next (H b)"
    proof
      assume eq: "hb_next (H c) = hb_next (H b)"
      then have "b \<noteq> he" using N(1) tiled_nonzero [OF T] tiledD(9) [OF T] by auto
      then show False using tiled_block(7) [OF T A(1)] N(3) eq c by auto
    qed
    ultimately show ?thesis using N False A(8) [OF False] by (auto simp: H'_def view_simps)
  qed
qed

lemma absorb_prev:
  assumes T: "tiled B H hs he lo hi" and a: "a \<in> B" "a \<noteq> he" and b: "b = hb_next (H a)"
    and c: "c \<in> B - {b}" "c \<noteq> hs"
  defines "H' \<equiv> v_absorb H a b"
  shows "hb_prev (H' c) \<in> B - {b} \<and> hb_next (H' (hb_prev (H' c))) = c"
proof -
  have cB: "c \<in> B" using c by simp
  note P = tiled_block(8,9) [OF T cB c(2)]
  show ?thesis
  proof (cases "c = hb_next (H b)")
    case True
    then show ?thesis using a absorb_facts(3) [OF T a b] tiled_nonzero [OF T cB] by (auto simp: H'_def view_simps)
  next
    case False
    then have "hb_prev (H c) \<noteq> b" using P by auto
    moreover have "hb_prev (H c) \<noteq> a" using P b c by auto
    ultimately show ?thesis using P False by (auto simp: H'_def view_simps)
  qed
qed

lemma absorb_first:
  assumes T: "tiled B H hs he lo hi" and a: "a \<in> B" "a \<noteq> he" and b: "b = hb_next (H a)"
  shows "hb_prev (v_absorb H a b hs) = 0"
proof (cases "hs = hb_next (H b)")
  case True
  note A = absorb_facts [OF T a b]
  show ?thesis
  proof (cases "he = b")
    case True
    with \<open>hs = hb_next (H b)\<close> show ?thesis using tiledD(9) [OF T] tiled_nonzero [OF T tiledD(4) [OF T]] by simp
  next
    case False
    then show ?thesis
      using A(10) True tiledD(6) [OF T] tiled_block(1) [OF T A(1)] blk_end_unfold(2) [of b H] by simp
  qed
qed (simp add: view_simps tiledD(7) [OF T])

lemma tiled_absorb:
  assumes T: "tiled B H hs he lo hi" and a: "a \<in> B" "a \<noteq> he" and b: "b = hb_next (H a)"
  shows "tiled (B - {b}) (v_absorb H a b) hs (if he = b then a else he) lo hi"
proof (rule tiledI)
  let ?H = "v_absorb H a b"
  note A = absorb_facts [OF T a b]
  show "finite (B - {b})" "0 < lo" "hi \<le> 0x80000000" "hs \<in> B - {b}" "unat hs = lo"
    using tiledD [OF T] A(4) by auto
  show "(if he = b then a else he) \<in> B - {b}" using a A(3) tiledD(5) [OF T] by auto
  show "hb_prev (?H hs) = 0" by (rule absorb_first [OF T a b])
  show "blk_end ?H (if he = b then a else he) = hi" using A(7) A(8) [of he] a(2) tiledD(8) [OF T] by auto
  show "hb_next (?H (if he = b then a else he)) = 0" using a(2) tiledD(9) [OF T] by (auto simp: view_simps)
  fix c assume c: "c \<in> B - {b}"
  have "8 dvd unat (hb_size (?H c))"
    using c tiled_block(4) [OF T] a(1) A(1,6) by (cases "c = a") (auto simp: view_simps)
  moreover have "blk_end ?H c \<le> hi" using c tiled_block(2) [OF T] A(1,7) A(8) [of c] by (cases "c = a") auto
  ultimately show "lo \<le> unat c \<and> blk_end ?H c \<le> hi \<and> 8 dvd unat c \<and> 8 dvd unat (hb_size (?H c))"
    using c tiled_block(1,3) [OF T] by auto
  show "blk_end ?H c \<le> unat d" if d: "d \<in> B - {b}" "unat c < unat d" for d
  proof -
    have "blk_end H b \<le> unat d" if "c = a"
      using tiled_sep [OF T A(1), of d] tiled_order [OF T a(1), of d] d that A(5) blk_end_unfold(2) [of d H] by auto
    then show ?thesis using A(7) A(8) [of c] tiled_order [OF T, of c d] c d by (cases "c = a") auto
  qed
qed (fact absorb_next [OF T a b] absorb_prev [OF T a b])+

lemma v_split_fields:
  assumes "new \<noteq> a" and "hb_next (H a) \<noteq> a" and "hb_next (H a) \<noteq> new"
  shows "hb_next_free (v_split H a n new c) = hb_next_free (H c)"
    "hb_prev_free (v_split H a n new c) = hb_prev_free (H c)"
    "hb_is_free (v_split H a n new c) = (c = new \<or> hb_is_free (H c))"
    "hb_size (v_split H a n new c)
       = (if c = a then n else if c = new then hb_size (H a) - n - 48 else hb_size (H c))"
    "hb_next (v_split H a n new c)
       = (if c = a then new else if c = new then hb_next (H a) else hb_next (H c))"
    "hb_prev (v_split H a n new c)
       = (if c = new then a else if c = hb_next (H a) \<and> c \<noteq> 0 then new else hb_prev (H c))"
  using assms by (auto simp: v_split_def Let_def)

lemma split_address:
  assumes T: "tiled B H hs he lo hi" and a: "a \<in> B" and n: "unat n + 48 \<le> unat (hb_size (H a))"
  shows "unat (a + 48 + n) = unat a + 48 + unat n" "a + 48 + n \<notin> B" "hb_next (H a) \<noteq> a"
    "unat (hb_size (H a) - n - 48) = unat (hb_size (H a)) - unat n - 48"
proof -
  have le: "unat a + 48 + unat (hb_size (H a)) \<le> 0x80000000"
    using tiled_block(2) [OF T a] tiledD(3) [OF T] by (simp add: blk_end_def)
  then have "unat (a + 48) = unat a + 48" by (subst unat_add_no_wrap) auto
  with le n show u: "unat (a + 48 + n) = unat a + 48 + unat n" by (subst unat_add_no_wrap) auto
  show "a + 48 + n \<notin> B"
  proof
    assume "a + 48 + n \<in> B"
    from tiled_order [OF T a this] u n show False by (simp add: blk_end_def)
  qed
  show "hb_next (H a) \<noteq> a"
    using tiled_block(6) [OF T a] tiledD(9) [OF T] tiled_nonzero [OF T a] blk_end_unfold(2) [of a H] by (metis nat_neq_iff)
  have "unat (hb_size (H a) - n) = unat (hb_size (H a)) - unat n"
    using n by (intro unat_diff_le) (simp add: word_le_nat_alt)
  with n show "unat (hb_size (H a) - n - 48) = unat (hb_size (H a)) - unat n - 48"
    by (subst unat_diff_le) (simp_all add: word_le_nat_alt)
qed

lemma split_ends:
  assumes T: "tiled B H hs he lo hi" and a: "a \<in> B" and n: "unat n + 48 \<le> unat (hb_size (H a))"
    and new: "new = a + 48 + n"
  shows "new \<noteq> a" and "hb_next (H a) \<noteq> new" and "unat a < unat new" and "unat new < blk_end H a"
    and "blk_end (v_split H a n new) a = unat new" and "blk_end (v_split H a n new) new = blk_end H a"
    and "c \<noteq> a \<Longrightarrow> c \<noteq> new \<Longrightarrow> blk_end (v_split H a n new) c = blk_end H c"
proof -
  note S = split_address [OF T a n, folded new]
  show an: "new \<noteq> a" using S(2) a by blast
  show nn: "hb_next (H a) \<noteq> new"
  proof (cases "a = he")
    case True
    then show ?thesis using tiledD(9) [OF T] S(1) by auto
  qed (use S(2) tiled_block(5) [OF T a] in auto)
  note F = v_split_fields [where H = H, OF an S(3) nn]
  show "unat a < unat new" "unat new < blk_end H a" using S(1) n by (auto simp: blk_end_def)
  show "blk_end (v_split H a n new) a = unat new" using S(1) by (simp add: blk_end_def F)
  show "blk_end (v_split H a n new) new = blk_end H a" using an n S(1,4) by (simp add: blk_end_def F)
  show "blk_end (v_split H a n new) c = blk_end H c" if "c \<noteq> a" "c \<noteq> new" using that by (simp add: blk_end_def F)
qed

lemma split_order:
  assumes T: "tiled B H hs he lo hi" and a: "a \<in> B" and n: "unat n + 48 \<le> unat (hb_size (H a))"
    and new: "new = a + 48 + n" and c: "c \<in> insert new B" and d: "d \<in> insert new B" "unat c < unat d"
  shows "blk_end (v_split H a n new) c \<le> unat d"
proof -
  note E = split_ends [OF T a n new]
  have up: "blk_end H a \<le> unat d" if "unat a < unat d" "d \<noteq> new" using tiled_order [OF T a] that d by auto
  have down: "blk_end H c \<le> unat a" if "c \<noteq> new" "c \<noteq> a" "unat c < unat new"
    using tiled_sep [OF T _ a, of c] c that E(4) by auto
  consider "c = new" | "c = a" | "c \<noteq> new" "c \<noteq> a" by blast
  then show ?thesis
  proof cases
    case 1
    with d have "d \<noteq> new" by auto
    then show ?thesis using up E(3,6) 1 d by auto
  next
    case 2
    then show ?thesis using up E(4,5) d by (cases "d = new") auto
  next
    case 3
    then show ?thesis using E(3) E(7) [of c] down tiled_order [OF T, of c d] c d by (cases "d = new") auto
  qed
qed

lemma split_next:
  assumes T: "tiled B H hs he lo hi" and a: "a \<in> B" and n: "unat n + 48 \<le> unat (hb_size (H a))"
    and new: "new = a + 48 + n" and c: "c \<in> insert new B" and h: "c \<noteq> (if a = he then new else he)"
  defines "H' \<equiv> v_split H a n new"
  shows "hb_next (H' c) \<in> insert new B \<and> unat (hb_next (H' c)) = blk_end H' c \<and> hb_prev (H' (hb_next (H' c))) = c"
proof -
  note S = split_address [OF T a n, folded new] and E = split_ends [OF T a n new, folded H'_def]
  note F = v_split_fields [where H = H and n = n, OF E(1) S(3) E(2), folded H'_def]
  consider "c = new" | "c = a" | "c \<noteq> new" "c \<noteq> a" by blast
  then show ?thesis
  proof cases
    case 1
    then have "a \<noteq> he" using h by auto
    then show ?thesis using 1 E(1,2,6) tiled_block(5,6) [OF T a] tiled_nonzero [OF T] by (auto simp: F)
  next
    case 2
    then show ?thesis using E(5) by (auto simp: F)
  next
    case 3
    then have cB: "c \<in> B" "c \<noteq> he" using c h by (auto split: if_splits)
    note N = tiled_block(5-7) [OF T cB]
    have "hb_next (H c) \<noteq> hb_next (H a)"
      using N 3 tiled_block(7) [OF T a] tiledD(9) [OF T] tiled_nonzero [OF T N(1)] by metis
    then show ?thesis using 3 N E(7) S(2) by (auto simp: F)
  qed
qed

lemma split_prev:
  assumes T: "tiled B H hs he lo hi" and a: "a \<in> B" and n: "unat n + 48 \<le> unat (hb_size (H a))"
    and new: "new = a + 48 + n" and c: "c \<in> insert new B" and h: "c \<noteq> hs"
  defines "H' \<equiv> v_split H a n new"
  shows "hb_prev (H' c) \<in> insert new B \<and> hb_next (H' (hb_prev (H' c))) = c"
proof -
  note S = split_address [OF T a n, folded new] and E = split_ends [OF T a n new]
  note F = v_split_fields [where H = H and n = n, OF E(1) S(3) E(2), folded H'_def]
  consider "c = new" | "c \<noteq> new" "c = hb_next (H a)" | "c \<noteq> new" "c \<noteq> hb_next (H a)" by blast
  then show ?thesis
  proof cases
    case 1
    then show ?thesis using a E(1) by (auto simp: F)
  next
    case 2
    then show ?thesis using E(1) c tiled_nonzero [OF T] by (auto simp: F)
  next
    case 3
    then have "c \<in> B" using c by blast
    from tiled_block(8,9) [OF T this h] show ?thesis using 3 S(2) by (auto simp: F)
  qed
qed

lemma tiled_split:
  assumes T: "tiled B H hs he lo hi" and a: "a \<in> B" and n: "unat n + 48 \<le> unat (hb_size (H a))"
    and dvd: "8 dvd unat n" and new: "new = a + 48 + n"
  shows "tiled (insert new B) (v_split H a n new) hs (if a = he then new else he) lo hi"
proof -
  let ?H = "v_split H a n new"
  note S = split_address [OF T a n, folded new] and E = split_ends [OF T a n new]
  note F = v_split_fields [where H = H, OF E(1) S(3) E(2)]
  have hs_n: "hs \<noteq> hb_next (H a)" using tiledD(4,6,9) [OF T] tiled_block(1,6) [OF T a] tiled_nonzero [OF T]
      blk_end_unfold(2) [of a H] by (metis leD)
  show ?thesis
  proof (rule tiledI)
    show "finite (insert new B)" "0 < lo" "hi \<le> 0x80000000" "hs \<in> insert new B" "unat hs = lo"
      using tiledD [OF T] by auto
    show "(if a = he then new else he) \<in> insert new B" using tiledD(5) [OF T] by auto
    show "hb_prev (?H hs) = 0" using tiledD(4,7) [OF T] S(2) hs_n by (auto simp: F)
    show "blk_end ?H (if a = he then new else he) = hi"
      using E(6) E(7) [of he] tiledD(5,8) [OF T] S(2) by auto
    show "hb_next (?H (if a = he then new else he)) = 0"
      using tiledD(5,9) [OF T] S(2) E(1) by (auto simp: F)
    fix c assume c: "c \<in> insert new B"
    have "8 dvd unat (hb_size (H a)) - unat n - 48"
      by (intro dvd_diff_nat dvd tiled_block(4) [OF T a]) simp
    then have "8 dvd unat (hb_size (?H c))"
      using c dvd tiled_block(4) [OF T] S(4) by (auto simp: F)
    moreover have "8 dvd unat new" using S(1) dvd tiled_block(3) [OF T a] by simp
    moreover have "blk_end ?H c \<le> hi"
      using c tiled_block(2) [OF T] a E(4-6) E(7) [of c] by (cases "c = a"; cases "c = new") force+
    ultimately show "lo \<le> unat c \<and> blk_end ?H c \<le> hi \<and> 8 dvd unat c \<and> 8 dvd unat (hb_size (?H c))"
      using c tiled_block(1,3) [OF T] a E(3) by fastforce
  qed (fact split_order [OF T a n new] split_next [OF T a n new] split_prev [OF T a n new])+
qed

lemma v_link_fields [view_simps]:
  "hb_next_free (v_link H he f c) = hb_next_free (H c)"
  "hb_prev_free (v_link H he f c) = hb_prev_free (H c)"
  "hb_is_free (v_link H he f c) = (c = f \<or> hb_is_free (H c))"
  "hb_size (v_link H he f c) = (if c = f then 4048 else hb_size (H c))"
  "hb_prev (v_link H he f c) = (if c = f then he else hb_prev (H c))"
  "he \<noteq> f \<Longrightarrow> hb_next (v_link H he f c)
     = (if c = he \<and> he \<noteq> 0 then f else if c = f then 0 else hb_next (H c))"
  by (auto simp: v_link_def Let_def)

lemma tiled_first:
  assumes "0 < unat f" and "unat f + 4096 \<le> 0x80000000" and "8 dvd unat f"
  shows "tiled {f} (v_link H 0 f) f f (unat f) (unat f + 4096)"
  using assms by (auto simp: tiled_def v_link_def blk_end_def)

lemma tiled_link:
  assumes T: "tiled B H hs he lo hi" and f: "unat f = hi" and hi: "hi + 4096 \<le> 0x80000000"
    and dvd: "8 dvd hi"
  shows "tiled (insert f B) (v_link H he f) hs f lo (hi + 4096)"
proof -
  let ?H = "v_link H he f"
  have fB: "f \<notin> B" using tiled_block(2) [OF T] f blk_end_unfold(2) [of f H] by fastforce
  have hef: "he \<noteq> f" and he0: "he \<noteq> 0" using fB tiledD(5) [OF T] tiled_nonzero [OF T] by auto
  note F = view_simps v_link_fields(6) [OF hef]
  have ef: "blk_end ?H f = hi + 4096" using f by (simp add: blk_end_def F)
  have ec: "blk_end ?H c = blk_end H c" if "c \<noteq> f" for c using that by (simp add: blk_end_def F)
  show ?thesis
  proof (rule tiledI)
    show "finite (insert f B)" "0 < lo" "hs \<in> insert f B" "unat hs = lo" "f \<in> insert f B"
      using tiledD [OF T] by auto
    show "hi + 4096 \<le> 0x80000000" by (rule hi)
    show "hb_prev (?H hs) = 0" using tiledD(4,7) [OF T] fB by (auto simp: F)
    show "blk_end ?H f = hi + 4096" by (rule ef)
    show "hb_next (?H f) = 0" using hef by (simp add: F)
    fix c assume c: "c \<in> insert f B"
    show "lo \<le> unat c \<and> blk_end ?H c \<le> hi + 4096 \<and> 8 dvd unat c \<and> 8 dvd unat (hb_size (?H c))"
    proof (cases "c = f")
      case True
      then show ?thesis using ef f dvd tiled_block(1,2) [OF T tiledD(4) [OF T]] blk_end_unfold(2) [of hs H] by (auto simp: F)
    next
      case False
      with c tiled_block(1-4) [OF T, of c] ec show ?thesis by (auto simp: F)
    qed
    {
      fix d assume d: "d \<in> insert f B" "unat c < unat d"
      have "c \<noteq> f" using d c tiled_block(2) [OF T, of d] f blk_end_unfold(2) [of d H] by auto
      then show "blk_end ?H c \<le> unat d"
        using ec c d f tiled_block(2) [OF T, of c] tiled_order [OF T, of c d] by auto
    }
    {
      assume n: "c \<noteq> f"
      then have cB: "c \<in> B" using c by simp
      show "hb_next (?H c) \<in> insert f B \<and> unat (hb_next (?H c)) = blk_end ?H c \<and> hb_prev (?H (hb_next (?H c))) = c"
      proof (cases "c = he")
        case True
        then show ?thesis using he0 f ec [OF hef] tiledD(8) [OF T] by (auto simp: F)
      next
        case False
        then show ?thesis using tiled_block(5-7) [OF T cB] n fB ec by (auto simp: F)
      qed
    }
    {
      assume n: "c \<noteq> hs"
      show "hb_prev (?H c) \<in> insert f B \<and> hb_next (?H (hb_prev (?H c))) = c"
      proof (cases "c = f")
        case True
        then show ?thesis using he0 tiledD(5) [OF T] by (auto simp: F)
      next
        case False
        then have cB: "c \<in> B" using c by simp
        have "hb_prev (H c) \<noteq> he"
          using tiled_block(9) [OF T cB n] tiledD(9) [OF T] tiled_nonzero [OF T cB] by auto
        moreover have "hb_prev (H c) \<noteq> f" using tiled_block(8) [OF T cB n] fB by auto
        ultimately show ?thesis using False tiled_block(8,9) [OF T cB n] by (auto simp: F)
      qed
    }
  qed
qed

end
