(* ===== verification/Kheap_Inv.thy ===== *)
theory Kheap_Inv
  imports Kheap_View
begin

text \<open>
  The heap operations on byte memory refine the header operations of \<open>Kheap_View\<close>: headers
  of different blocks do not overlap, so that a store to one field changes that field of one
  header. From this follow the invariant of the heap, its preservation by every operation,
  the termination of the free-list search and the frame conditions on the data of
  allocated blocks.
\<close>

section \<open>Headers in memory\<close>

lemma hdr_store_fields:
  "hdr (store64 m b v) b = (hdr m b)\<lparr>hb_size := v\<rparr>"
  "hdr (m(b + 8 := w)) b = (hdr m b)\<lparr>hb_is_free := (w \<noteq> 0)\<rparr>"
  "hdr (store64 m (b + 16) v) b = (hdr m b)\<lparr>hb_next := v\<rparr>"
  "hdr (store64 m (b + 24) v) b = (hdr m b)\<lparr>hb_prev := v\<rparr>"
  "hdr (store64 m (b + 32) v) b = (hdr m b)\<lparr>hb_next_free := v\<rparr>"
  "hdr (store64 m (b + 40) v) b = (hdr m b)\<lparr>hb_prev_free := v\<rparr>"
  by (simp_all add: hdr_def field_simps_off del: load.simps store.simps)

lemma hdr_cong:
  assumes "\<And>x. x \<in> region c 48 \<Longrightarrow> m x = m' x"
  shows "hdr m c = hdr m' c"
proof -
  have "load64 m (c + k) = load64 m' (c + k)" if "unat k + 8 \<le> 48" for k
    using assms region_off_subset [OF that, of c] by (intro load_cong) auto
  from this [of 0] this [of 16] this [of 24] this [of 32] this [of 40]
  have l: "load64 m c = load64 m' c" "load64 m (c + 16) = load64 m' (c + 16)"
    "load64 m (c + 24) = load64 m' (c + 24)" "load64 m (c + 32) = load64 m' (c + 32)"
    "load64 m (c + 40) = load64 m' (c + 40)" by simp_all
  have "m (c + 8) = m' (c + 8)" by (rule assms) (simp add: region_def)
  with l show ?thesis by (simp add: hdr_def)
qed

section \<open>Memory that an operation may change\<close>

definition hdrs :: "addr set \<Rightarrow> addr set" where
  "hdrs B = (\<Union>b \<in> B. region b 48)"

definition touches :: "addr set \<Rightarrow> 'a kheap_scheme \<Rightarrow> 'a kheap_scheme \<Rightarrow> bool" where
  "touches R s t \<longleftrightarrow> (\<forall>x. x \<notin> R \<longrightarrow> mem t x = mem s x) \<and> frame_bitmap t = frame_bitmap s
     \<and> total_memory t = total_memory s \<and> free_memory t = free_memory s
     \<and> highest_usable_address t = highest_usable_address s"

lemma touches_refl [simp]: "touches R s s"
  by (simp add: touches_def)

lemma touches_trans [trans]: "touches R s t \<Longrightarrow> touches R t u \<Longrightarrow> touches R s u"
  by (auto simp: touches_def)

lemma touches_mono: "touches R s t \<Longrightarrow> R \<subseteq> R' \<Longrightarrow> touches R' s t"
  by (auto simp: touches_def)

lemma touches_heads [simp]:
  "touches R s (t\<lparr>free_list_head := a\<rparr>) = touches R s t" "touches R s (t\<lparr>heap_end := a\<rparr>) = touches R s t"
  "touches R s (t\<lparr>heap_start := a\<rparr>) = touches R s t"
  by (simp_all add: touches_def)

lemma touches_kprintf [simp]: "touches R s (kprintf f as t) = touches R s t"
  by (simp add: touches_def kprintf_def)

lemma touches_mem:
  "(\<And>x. x \<notin> R \<Longrightarrow> m x = mem s x) \<Longrightarrow> touches R s (s\<lparr>mem := m\<rparr>)"
  by (simp add: touches_def)

definition hview :: "addr set \<Rightarrow> headers \<Rightarrow> 'a kheap_scheme \<Rightarrow> bool" where
  "hview B H s \<longleftrightarrow> (\<forall>c \<in> B. hdr (mem s) c = H c)"

definition separate :: "addr set \<Rightarrow> bool" where
  "separate B \<longleftrightarrow> (\<forall>b \<in> B. \<forall>c \<in> B. b \<noteq> c \<longrightarrow> region b 48 \<inter> region c 48 = {})"

lemma hview_read: "hview B H s \<Longrightarrow> b \<in> B \<Longrightarrow> hdr (mem s) b = H b"
  by (simp add: hview_def)

lemma hview_mono: "hview B H s \<Longrightarrow> B' \<subseteq> B \<Longrightarrow> hview B' H s"
  by (auto simp: hview_def)

lemma separate_mono: "separate B \<Longrightarrow> B' \<subseteq> B \<Longrightarrow> separate B'"
  by (auto simp: separate_def)

lemma hview_heads [simp]:
  "hview B H (s\<lparr>free_list_head := a\<rparr>) = hview B H s" "hview B H (s\<lparr>heap_end := a\<rparr>) = hview B H s"
  "hview B H (s\<lparr>heap_start := a\<rparr>) = hview B H s" "hview B H (kprintf f as s) = hview B H s"
  by (simp_all add: hview_def kprintf_def)

lemma hview_touches:
  assumes "hview B H s" and "touches R s t" and "R \<inter> hdrs B = {}"
  shows "hview B H t"
  unfolding hview_def
proof
  fix c assume c: "c \<in> B"
  have "hdr (mem t) c = hdr (mem s) c"
    using assms(2,3) c by (intro hdr_cong) (auto simp: touches_def hdrs_def)
  then show "hdr (mem t) c = H c" using assms(1) c by (simp add: hview_def)
qed

lemma hview_update:
  assumes "separate B" and "b \<in> B" and "hview B H s" and "touches (region b 48) s t"
    and "hdr (mem t) b = h"
  shows "hview B (H(b := h)) t"
proof -
  have "hview (B - {b}) H t"
    using assms(1-4) by (intro hview_touches [OF hview_mono [OF assms(3)] assms(4)])
      (auto simp: separate_def hdrs_def)
  with assms(5) show ?thesis by (auto simp: hview_def)
qed

lemma touches_setters:
  "touches (region b 48) s (set_size b v s)" "touches (region b 48) s (set_is_free b f s)"
  "touches (region b 48) s (set_next b v s)" "touches (region b 48) s (set_prev b v s)"
  "touches (region b 48) s (set_next_free b v s)" "touches (region b 48) s (set_prev_free b v s)"
proof -
  have st: "store64 m (b + k) v x = m x" if "x \<notin> region b 48" "unat k + 8 \<le> 48" for m k v x
    using that region_off_subset [OF that(2), of b] by (intro store_outside) auto
  from st [where k = 0] show "touches (region b 48) s (set_size b v s)"
    unfolding set_size_def by (intro touches_mem) simp
  show "touches (region b 48) s (set_next b v s)" "touches (region b 48) s (set_prev b v s)"
    "touches (region b 48) s (set_next_free b v s)" "touches (region b 48) s (set_prev_free b v s)"
    unfolding set_next_def set_prev_def set_next_free_def set_prev_free_def
    by (intro touches_mem st; simp)+
  have "b + 8 \<in> region b 48" by (simp add: region_def)
  then show "touches (region b 48) s (set_is_free b f s)"
    unfolding set_is_free_def by (intro touches_mem) auto
qed

lemma setters_hview:
  assumes "hview B H s" and "separate B" and "b \<in> B"
  shows "hview B (H(b := (H b)\<lparr>hb_size := v\<rparr>)) (set_size b v s)"
    "hview B (H(b := (H b)\<lparr>hb_is_free := f\<rparr>)) (set_is_free b f s)"
    "hview B (H(b := (H b)\<lparr>hb_next := v\<rparr>)) (set_next b v s)"
    "hview B (H(b := (H b)\<lparr>hb_prev := v\<rparr>)) (set_prev b v s)"
    "hview B (H(b := (H b)\<lparr>hb_next_free := v\<rparr>)) (set_next_free b v s)"
    "hview B (H(b := (H b)\<lparr>hb_prev_free := v\<rparr>)) (set_prev_free b v s)"
  using hview_read [OF assms(1,3)]
  by (intro hview_update [OF assms(2,3,1)] touches_setters;
      simp add: set_size_def set_is_free_def set_next_def set_prev_def set_next_free_def
        set_prev_free_def hdr_store_fields)+

lemma setters_heads [simp]:
  "free_list_head (set_size b v s) = free_list_head s" "free_list_head (set_is_free b f s) = free_list_head s"
  "free_list_head (set_next b v s) = free_list_head s" "free_list_head (set_prev b v s) = free_list_head s"
  "free_list_head (set_next_free b v s) = free_list_head s" "free_list_head (set_prev_free b v s) = free_list_head s"
  "heap_start (set_size b v s) = heap_start s" "heap_start (set_is_free b f s) = heap_start s"
  "heap_start (set_next b v s) = heap_start s" "heap_start (set_prev b v s) = heap_start s"
  "heap_start (set_next_free b v s) = heap_start s" "heap_start (set_prev_free b v s) = heap_start s"
  "heap_end (set_size b v s) = heap_end s" "heap_end (set_is_free b f s) = heap_end s"
  "heap_end (set_next b v s) = heap_end s" "heap_end (set_prev b v s) = heap_end s"
  "heap_end (set_next_free b v s) = heap_end s" "heap_end (set_prev_free b v s) = heap_end s"
  by (simp_all add: set_size_def set_is_free_def set_next_def set_prev_def set_next_free_def set_prev_free_def)

lemma kprintf_heads [simp]:
  "free_list_head (kprintf f as s) = free_list_head s" "heap_start (kprintf f as s) = heap_start s"
  "heap_end (kprintf f as s) = heap_end s"
  by (simp_all add: kprintf_def)

section \<open>The operations refine the abstract ones\<close>

text \<open>
  \<open>reach B s H t\<close>: state \<open>t\<close> has the headers \<open>H\<close> on \<open>B\<close> and differs from \<open>s\<close>
  only in the headers of \<open>B\<close> and in what is no memory.
\<close>

definition reach :: "addr set \<Rightarrow> 'a kheap_scheme \<Rightarrow> headers \<Rightarrow> 'a kheap_scheme \<Rightarrow> bool" where
  "reach B s H t \<longleftrightarrow> separate B \<and> hview B H t \<and> touches (hdrs B) s t"

lemma reach_refl: "separate B \<Longrightarrow> hview B H s \<Longrightarrow> reach B s H s"
  by (simp add: reach_def)

lemma reach_trans: "reach B s H t \<Longrightarrow> reach B t H' u \<Longrightarrow> reach B s H' u"
  by (auto simp: reach_def intro: touches_trans)

lemma reach_read: "reach B s H t \<Longrightarrow> b \<in> B \<Longrightarrow> hdr (mem t) b = H b"
  by (simp add: reach_def hview_def)

lemma reach_heads [simp]:
  "reach B s H (t\<lparr>free_list_head := a\<rparr>) = reach B s H t" "reach B s H (t\<lparr>heap_end := a\<rparr>) = reach B s H t"
  "reach B s H (t\<lparr>heap_start := a\<rparr>) = reach B s H t" "reach B s H (kprintf f as t) = reach B s H t"
  by (simp_all add: reach_def)

lemma reach_setters:
  assumes "reach B s H t" and "b \<in> B"
  shows "reach B s (H(b := (H b)\<lparr>hb_size := v\<rparr>)) (set_size b v t)"
    "reach B s (H(b := (H b)\<lparr>hb_is_free := f\<rparr>)) (set_is_free b f t)"
    "reach B s (H(b := (H b)\<lparr>hb_next := v\<rparr>)) (set_next b v t)"
    "reach B s (H(b := (H b)\<lparr>hb_prev := v\<rparr>)) (set_prev b v t)"
    "reach B s (H(b := (H b)\<lparr>hb_next_free := v\<rparr>)) (set_next_free b v t)"
    "reach B s (H(b := (H b)\<lparr>hb_prev_free := v\<rparr>)) (set_prev_free b v t)"
proof -
  have r: "touches (hdrs B) s u" if "touches (region b 48) t u" for u
    using that assms by (auto simp: reach_def hdrs_def intro!: touches_trans [of _ s t u] elim!: touches_mono)
  show "reach B s (H(b := (H b)\<lparr>hb_size := v\<rparr>)) (set_size b v t)"
    "reach B s (H(b := (H b)\<lparr>hb_is_free := f\<rparr>)) (set_is_free b f t)"
    "reach B s (H(b := (H b)\<lparr>hb_next := v\<rparr>)) (set_next b v t)"
    "reach B s (H(b := (H b)\<lparr>hb_prev := v\<rparr>)) (set_prev b v t)"
    "reach B s (H(b := (H b)\<lparr>hb_next_free := v\<rparr>)) (set_next_free b v t)"
    "reach B s (H(b := (H b)\<lparr>hb_prev_free := v\<rparr>)) (set_prev_free b v t)"
    using assms by (simp_all add: reach_def setters_hview r touches_setters)
qed

lemma reach_upd:
  assumes "reach B s H t" and "H' = H"
  shows "reach B s H' t"
  using assms by simp

lemma add_refines:
  assumes r: "reach B s H t" and b: "b \<in> B" and h: "free_list_head t \<noteq> 0 \<Longrightarrow> free_list_head t \<in> B"
  shows "reach B s (v_add H (free_list_head t) b) (add_to_free_list b t)"
proof -
  note s1 = reach_setters(2) [OF r b, of True]
  note s2 = reach_setters(5) [OF s1 b, of "free_list_head t"]
  note s3 = reach_setters(6) [OF s2 b, of 0]
  show ?thesis
  proof (cases "free_list_head t = 0")
    case True
    show ?thesis using s3 True by (simp add: add_to_free_list_def Let_def v_add_def)
  next
    case False
    show ?thesis using reach_setters(6) [OF s3 h [OF False], of b] False
      by (simp add: add_to_free_list_def Let_def v_add_def)
  qed
qed

lemma add_heads [simp]:
  "free_list_head (add_to_free_list b s) = b" "heap_start (add_to_free_list b s) = heap_start s"
  "heap_end (add_to_free_list b s) = heap_end s"
  by (simp_all add: add_to_free_list_def Let_def)

lemma remove_refines:
  assumes r: "reach B s H t" and b: "b \<in> B"
    and p: "hb_prev_free (H b) \<noteq> 0 \<Longrightarrow> hb_prev_free (H b) \<in> B"
    and n: "hb_next_free (H b) \<noteq> 0 \<Longrightarrow> hb_next_free (H b) \<in> B"
  shows "reach B s (v_remove H b) (remove_from_free_list b t)"
    and "free_list_head (remove_from_free_list b t) = v_remove_head H (free_list_head t) b"
proof -
  let ?p = "hb_prev_free (H b)" and ?n = "hb_next_free (H b)"
  define H1 where "H1 = (if ?p \<noteq> 0 then H(?p := (H ?p)\<lparr>hb_next_free := ?n\<rparr>) else H)"
  define t1 where "t1 = (if ?p \<noteq> 0 then set_next_free ?p ?n t else t\<lparr>free_list_head := ?n\<rparr>)"
  define H2 where "H2 = (if ?n \<noteq> 0 then H1(?n := (H1 ?n)\<lparr>hb_prev_free := ?p\<rparr>) else H1)"
  define t2 where "t2 = (if ?n \<noteq> 0 then set_prev_free ?n ?p t1 else t1)"
  have 0: "hdr (mem t) b = H b" by (rule reach_read [OF r b])
  have r1: "reach B s H1 t1" using reach_setters(5) [OF r p] r by (simp add: H1_def t1_def)
  have 1: "hb_next_free (hdr (mem t1) b) = ?n" "hb_prev_free (hdr (mem t1) b) = ?p"
    using reach_read [OF r1 b] by (auto simp: H1_def)
  have r2: "reach B s H2 t2" using reach_setters(6) [OF r1 n] r1 by (simp add: H2_def t2_def)
  note s1 = reach_setters(2) [OF r2 b, of False]
  note s2 = reach_setters(5) [OF s1 b, of 0]
  note s3 = reach_setters(6) [OF s2 b, of 0]
  have eq: "remove_from_free_list b t = set_prev_free b 0 (set_next_free b 0 (set_is_free b False t2))"
    unfolding remove_from_free_list_def Let_def 0 t1_def [symmetric] 1 t2_def [symmetric] by (rule refl)
  show "reach B s (v_remove H b) (remove_from_free_list b t)"
    using s3 unfolding eq v_remove_def Let_def H1_def [symmetric] H2_def [symmetric] by simp
  show "free_list_head (remove_from_free_list b t) = v_remove_head H (free_list_head t) b"
    by (simp add: eq t2_def t1_def v_remove_head_def)
qed

lemma remove_heads [simp]:
  "heap_start (remove_from_free_list b s) = heap_start s"
  "heap_end (remove_from_free_list b s) = heap_end s"
  by (simp_all add: remove_from_free_list_def Let_def)

lemma absorb_refines:
  assumes r: "reach B s H t" and a: "a \<in> B" and b: "b \<in> B" and ab: "a \<noteq> b"
    and n: "hb_next (H b) \<noteq> 0 \<Longrightarrow> hb_next (H b) \<in> B"
  shows "reach B s (v_absorb H a b) (absorb a b t)"
proof -
  let ?n = "hb_next (H b)"
  note s1 = reach_setters(1) [OF r a, of "hb_size (H a) + (hb_size (H b) + 48)"]
  note s2 = reach_setters(3) [OF s1 a, of ?n]
  note s3 = reach_setters(4) [OF s2 n, of a]
  note e = reach_read [OF r a] reach_read [OF r b] reach_read [OF s1 b] reach_read [OF s2 a]
  show ?thesis
    using s2 s3 e ab by (auto simp: absorb_def Let_def v_absorb_def fun_upd_def[symmetric])
qed

lemma absorb_heads [simp]:
  "free_list_head (absorb a b s) = free_list_head s" "heap_start (absorb a b s) = heap_start s"
  "heap_end (absorb a b s) = (if heap_end s = b then a else heap_end s)"
  by (simp_all add: absorb_def Let_def)

lemma split_refines:
  assumes r: "reach B s H t" and a: "a \<in> B" and new: "new \<in> B" "new = a + 48 + n" and an: "new \<noteq> a"
    and nx: "hb_next (H a) \<noteq> 0 \<Longrightarrow> hb_next (H a) \<in> B" "hb_next (H a) \<noteq> a" "hb_next (H a) \<noteq> new"
    and h: "free_list_head t \<noteq> 0 \<Longrightarrow> free_list_head t \<in> B"
  shows "reach B s (v_add (v_split H a n new) (free_list_head t) new) (split_block a n t)"
    and "free_list_head (split_block a n t) = new" and "heap_start (split_block a n t) = heap_start t"
    and "heap_end (split_block a n t) = (if hb_next (H a) = 0 then new else heap_end t)"
proof -
  let ?n = "hb_next (H a)"
  note s1 = reach_setters(1) [OF r new(1), of "hb_size (H a) - n - 48"]
  note s2 = reach_setters(2) [OF s1 new(1), of True]
  note s3 = reach_setters(3) [OF s2 new(1), of ?n]
  note s4 = reach_setters(4) [OF s3 new(1), of a]
  define t4 where "t4 = set_prev new a (set_next new ?n (set_is_free new True
      (set_size new (hb_size (H a) - n - 48) t)))"
  define H4 where "H4 = H(new := (H new)\<lparr>hb_size := hb_size (H a) - n - 48, hb_is_free := True,
      hb_next := ?n, hb_prev := a\<rparr>)"
  have s4': "reach B s H4 t4" using s4 by (simp add: t4_def H4_def)
  define t5 where "t5 = (if ?n \<noteq> 0 then set_prev ?n new t4 else t4\<lparr>heap_end := new\<rparr>)"
  define H5 where "H5 = (if ?n \<noteq> 0 then H4(?n := (H4 ?n)\<lparr>hb_prev := new\<rparr>) else H4)"
  have s5: "reach B s H5 t5" using reach_setters(4) [OF s4' nx(1)] s4' by (simp add: t5_def H5_def)
  note s6 = reach_setters(1) [OF s5 a, of n]
  note s7 = reach_setters(3) [OF s6 a, of new]
  define t7 where "t7 = set_next a new (set_size a n t5)"
  have s7': "reach B s (v_split H a n new) t7"
    using s7 unfolding v_split_def Let_def H4_def [symmetric] H5_def [symmetric] t7_def by simp
  have h7: "free_list_head t7 = free_list_head t" by (simp add: t7_def t5_def t4_def)
  note s8 = add_refines [OF s7' new(1), unfolded h7, OF h]
  have e: "hdr (mem t) a = H a" "hdr (mem (set_is_free new True
      (set_size new (hb_size (H a) - n - 48) t))) a = H a" "hdr (mem t4) new = H4 new"
    using reach_read [OF r a] reach_read [OF s2 a] an reach_read [OF s4' new(1)] by auto
  have sp: "split_block a n t = kprintf ''KHeap: Split block %p. Allocated %zu, remaining %zu at %p\<newline>''
           [VWord a, VWord (hb_size (hdr (mem (add_to_free_list new t7)) a)),
            VWord (hb_size (hdr (mem (add_to_free_list new t7)) new)), VWord new] (add_to_free_list new t7)"
    using e by (simp add: split_block_def Let_def new(2)[symmetric] t4_def[symmetric])
      (simp add: H4_def t5_def t7_def)
  show "reach B s (v_add (v_split H a n new) (free_list_head t) new) (split_block a n t)"
    using s8 by (simp add: sp)
  show "free_list_head (split_block a n t) = new" "heap_start (split_block a n t) = heap_start t"
    "heap_end (split_block a n t) = (if ?n = 0 then new else heap_end t)"
    by (simp_all add: sp t7_def t5_def t4_def)
qed

lemma link_refines:
  assumes r: "reach B s H t" and f: "f \<in> B" and he: "heap_end t \<noteq> 0 \<Longrightarrow> heap_end t \<in> B" "heap_end t \<noteq> f"
  shows "reach B s (v_link H (heap_end t) f) (link_frame f t)"
proof -
  note s1 = reach_setters(1) [OF r f, of 4048]
  note s2 = reach_setters(2) [OF s1 f, of True]
  note s3 = reach_setters(3) [OF s2 f, of 0]
  note s4 = reach_setters(4) [OF s3 f, of "heap_end t"]
  show ?thesis
  proof (cases "heap_end t = 0")
    case True
    have sw: "set_prev f v (u\<lparr>heap_start := w\<rparr>) = (set_prev f v u)\<lparr>heap_start := w\<rparr>" for v w u
      by (simp add: set_prev_def)
    show ?thesis using s4 True by (simp add: link_frame_def Let_def v_link_def sw)
  next
    case False
    show ?thesis using reach_setters(3) [OF s4 he(1) [OF False], of f] False
      by (simp add: link_frame_def Let_def v_link_def)
  qed
qed

lemma link_heads [simp]:
  "free_list_head (link_frame f s) = free_list_head s" "heap_end (link_frame f s) = f"
  "heap_start (link_frame f s) = (if heap_end s = 0 then f else heap_start s)"
  by (simp_all add: link_frame_def Let_def)

lemma clear_touches: "touches (region b 48) s (clear_header b s)"
  unfolding clear_header_def by (intro touches_mem) (simp add: memset_apply)

lemma clear_refines:
  assumes "reach B s H t" and "b \<in> B"
  shows "reach B s (H(b := hdr (\<lambda>_. 0) b)) (clear_header b t)"
proof -
  have "hdr (mem (clear_header b t)) b = hdr (\<lambda>_. 0) b"
    by (rule hdr_cong) (simp add: clear_header_def memset_apply)
  then have "hview B (H(b := hdr (\<lambda>_. 0) b)) (clear_header b t)"
    using assms by (intro hview_update [OF _ assms(2) _ clear_touches]) (auto simp: reach_def)
  moreover have "touches (hdrs B) t (clear_header b t)"
    using assms(2) by (intro touches_mono [OF clear_touches]) (auto simp: hdrs_def)
  ultimately show ?thesis using assms(1) by (auto simp: reach_def intro: touches_trans)
qed

lemma clear_heads [simp]:
  "free_list_head (clear_header b s) = free_list_head s" "heap_start (clear_header b s) = heap_start s"
  "heap_end (clear_header b s) = heap_end s"
  by (simp_all add: clear_header_def)

section \<open>Invariant of the block structure\<close>

text \<open>
  Blocks \<open>B\<close>, of which those of \<open>F\<close> are free, tile the range from \<open>lo\<close> to \<open>hi\<close>. The
  block \<open>x\<close>, if it is one, is between two lists: its flag says nothing.
\<close>

definition heap_inv :: "addr set \<Rightarrow> addr set \<Rightarrow> addr \<Rightarrow> nat \<Rightarrow> nat \<Rightarrow> 'a kheap_scheme \<Rightarrow> bool" where
  "heap_inv B F x lo hi s \<longleftrightarrow>
     tiled B (hdr (mem s)) (heap_start s) (heap_end s) lo hi \<and> F \<subseteq> B
     \<and> listed F (hdr (mem s)) (free_list_head s)
     \<and> (\<forall>c \<in> B - {x}. hb_is_free (hdr (mem s) c) = (c \<in> F))"

lemma tiled_low: "tiled B H hs he lo hi \<Longrightarrow> b \<in> B \<Longrightarrow> unat b + 48 \<le> 0x80000000"
  using tiled_block(2) [of B H hs he lo hi b] tiledD(3) [of B H hs he lo hi] blk_end_unfold(1) [of b H] by simp

lemma tiled_separate: "tiled B H hs he lo hi \<Longrightarrow> separate B"
proof (unfold separate_def, intro ballI impI)
  fix b c assume T: "tiled B H hs he lo hi" and bc: "b \<in> B" "c \<in> B" "b \<noteq> c"
  then have "disjoint_regions b 48 c 48"
    using tiled_sep [OF T bc] blk_end_unfold(1) [of b H] blk_end_unfold(1) [of c H]
    by (auto simp: disjoint_regions_def)
  then show "region b 48 \<inter> region c 48 = {}"
    using tiled_low [OF T bc(1)] tiled_low [OF T bc(2)] by (intro disjoint_regions_inter) auto
qed

lemma heap_invD:
  assumes "heap_inv B F x lo hi s"
  shows "tiled B (hdr (mem s)) (heap_start s) (heap_end s) lo hi" "F \<subseteq> B"
    "listed F (hdr (mem s)) (free_list_head s)"
    "c \<in> B \<Longrightarrow> c \<noteq> x \<Longrightarrow> hb_is_free (hdr (mem s) c) = (c \<in> F)" "separate B"
    "reach B s (hdr (mem s)) s" "free_list_head s \<noteq> 0 \<Longrightarrow> free_list_head s \<in> B"
proof -
  show T: "tiled B (hdr (mem s)) (heap_start s) (heap_end s) lo hi" and "F \<subseteq> B"
    and "listed F (hdr (mem s)) (free_list_head s)"
    and "c \<in> B \<Longrightarrow> c \<noteq> x \<Longrightarrow> hb_is_free (hdr (mem s) c) = (c \<in> F)"
    using assms by (simp_all add: heap_inv_def)
  then show "free_list_head s \<noteq> 0 \<Longrightarrow> free_list_head s \<in> B" by (auto simp: listed_def)
  show "separate B" by (rule tiled_separate [OF T])
  then show "reach B s (hdr (mem s)) s" by (intro reach_refl) (simp_all add: hview_def)
qed

lemma heap_invI:
  assumes "reach B s H t" and "B' \<subseteq> B" and "tiled B' H (heap_start t) (heap_end t) lo hi" and "F \<subseteq> B'"
    and "listed F H (free_list_head t)" and "\<And>c. c \<in> B' \<Longrightarrow> c \<noteq> x \<Longrightarrow> hb_is_free (H c) = (c \<in> F)"
  shows "heap_inv B' F x lo hi t"
proof -
  have h: "hdr (mem t) c = H c" if "c \<in> B'" for c using assms(1,2) that reach_read by blast
  have "tiled B' (hdr (mem t)) (heap_start t) (heap_end t) lo hi"
    by (rule tiled_cong [OF assms(3)]) (simp add: h)
  moreover have "listed F (hdr (mem t)) (free_list_head t)"
    using assms(4) by (intro listed_cong [OF assms(5)]) (auto simp: h)
  ultimately show ?thesis using assms(4,6) h by (auto simp: heap_inv_def)
qed

lemma heap_inv_frame:
  assumes "heap_inv B F x lo hi s" and "touches R s t" and "R \<inter> hdrs B = {}"
    and "heap_start t = heap_start s" and "heap_end t = heap_end s" and "free_list_head t = free_list_head s"
  shows "heap_inv B F x lo hi t" and "\<And>c. c \<in> B \<Longrightarrow> hdr (mem t) c = hdr (mem s) c"
proof -
  have v: "hview B (hdr (mem s)) t"
    by (rule hview_touches [OF _ assms(2,3)]) (simp add: hview_def)
  then show "\<And>c. c \<in> B \<Longrightarrow> hdr (mem t) c = hdr (mem s) c" by (simp add: hview_def)
  have "reach B t (hdr (mem s)) t" using v heap_invD(5) [OF assms(1)] by (rule reach_refl [rotated])
  then show "heap_inv B F x lo hi t"
    by (rule heap_invI) (use heap_invD(1-4) [OF assms(1)] assms(4-6) in auto)
qed

lemma heap_inv_kprintf [simp]: "heap_inv B F x lo hi (kprintf f as s) = heap_inv B F x lo hi s"
  by (simp add: heap_inv_def)

lemma remove_step:
  assumes "heap_inv B F x lo hi s" and "b \<in> F"
  shows "reach B s (v_remove (hdr (mem s)) b) (remove_from_free_list b s)"
    and "heap_inv B (F - {b}) x lo hi (remove_from_free_list b s)"
proof -
  note D = heap_invD [OF assms(1)]
  note L = listedD [OF D(3)]
  have bB: "b \<in> B" using assms(2) D(2) by blast
  have pn: "hb_prev_free (hdr (mem s) b) \<noteq> 0 \<Longrightarrow> hb_prev_free (hdr (mem s) b) \<in> B"
    "hb_next_free (hdr (mem s) b) \<noteq> 0 \<Longrightarrow> hb_next_free (hdr (mem s) b) \<in> B"
    using L(4,6) [OF assms(2)] D(2) by auto
  note R = remove_refines [OF D(6) bB pn]
  show r: "reach B s (v_remove (hdr (mem s)) b) (remove_from_free_list b s)" by (rule R(1))
  show "heap_inv B (F - {b}) x lo hi (remove_from_free_list b s)"
  proof (rule heap_invI [OF r])
    show "tiled B (v_remove (hdr (mem s)) b) (heap_start (remove_from_free_list b s))
        (heap_end (remove_from_free_list b s)) lo hi"
      using tiled_cong [OF D(1)] by (simp add: view_simps)
    show "listed (F - {b}) (v_remove (hdr (mem s)) b) (free_list_head (remove_from_free_list b s))"
      using listed_remove [OF D(3) assms(2)] R(2) by simp
  qed (use D(2,4) in \<open>auto simp: view_simps\<close>)
qed

lemma add_step:
  assumes "heap_inv B F x lo hi s" and "x \<in> B" and "x \<notin> F"
  shows "reach B s (v_add (hdr (mem s)) (free_list_head s) x) (add_to_free_list x s)"
    and "heap_inv B (insert x F) 0 lo hi (add_to_free_list x s)"
proof -
  note D = heap_invD [OF assms(1)]
  show r: "reach B s (v_add (hdr (mem s)) (free_list_head s) x) (add_to_free_list x s)"
    by (rule add_refines [OF D(6) assms(2) D(7)])
  show "heap_inv B (insert x F) 0 lo hi (add_to_free_list x s)"
  proof (rule heap_invI [OF r])
    show "tiled B (v_add (hdr (mem s)) (free_list_head s) x) (heap_start (add_to_free_list x s))
        (heap_end (add_to_free_list x s)) lo hi"
      using tiled_cong [OF D(1)] by (simp add: view_simps)
    show "listed (insert x F) (v_add (hdr (mem s)) (free_list_head s) x) (free_list_head (add_to_free_list x s))"
      using listed_add [OF D(3) assms(3)] tiled_nonzero [OF D(1) assms(2)] by simp
  qed (use D(2,4) assms(2) in \<open>auto simp: view_simps\<close>)
qed

lemma absorb_step:
  assumes "heap_inv B F x lo hi s" and "a \<in> B" and "a \<noteq> heap_end s" and b: "b = hb_next (hdr (mem s) a)"
    and "b \<notin> F" and "x = y \<or> x = b"
  shows "reach B s (v_absorb (hdr (mem s)) a b) (absorb a b s)"
    and "heap_inv (B - {b}) F y lo hi (absorb a b s)" and "b \<in> B" and "a \<noteq> b"
proof -
  note D = heap_invD [OF assms(1)]
  show bB: "b \<in> B" using tiled_block(5) [OF D(1) assms(2,3)] b by simp
  show ab: "a \<noteq> b" using tiled_block(6) [OF D(1) assms(2,3)] b blk_end_unfold(2) [of a "hdr (mem s)"] by auto
  have "hb_next (hdr (mem s) b) \<in> B" if "hb_next (hdr (mem s) b) \<noteq> 0"
    using that tiled_next_nonzero [OF D(1) bB] tiled_block(5) [OF D(1) bB] by simp
  then show r: "reach B s (v_absorb (hdr (mem s)) a b) (absorb a b s)"
    by (rule absorb_refines [OF D(6) assms(2) bB ab])
  show "heap_inv (B - {b}) F y lo hi (absorb a b s)"
  proof (rule heap_invI [OF r])
    show "tiled (B - {b}) (v_absorb (hdr (mem s)) a b) (heap_start (absorb a b s))
        (heap_end (absorb a b s)) lo hi"
      using tiled_absorb [OF D(1) assms(2,3) b] by simp
    show "listed F (v_absorb (hdr (mem s)) a b) (free_list_head (absorb a b s))"
      using listed_cong [OF D(3)] by (simp add: view_simps)
  qed (use D(2,4) assms(5,6) in \<open>auto simp: view_simps\<close>)
qed

lemma clear_step:
  assumes "heap_inv B F x lo hi s" and "separate (insert b B)" and "b \<notin> B"
  shows "heap_inv B F x lo hi (clear_header b s)" and "touches (region b 48) s (clear_header b s)"
    and "\<And>c. c \<in> B \<Longrightarrow> hdr (mem (clear_header b s)) c = hdr (mem s) c"
proof -
  have d: "region b 48 \<inter> hdrs B = {}" using assms(2,3) by (auto simp: separate_def hdrs_def)
  show "touches (region b 48) s (clear_header b s)" by (rule clear_touches)
  show "heap_inv B F x lo hi (clear_header b s)" "\<And>c. c \<in> B \<Longrightarrow> hdr (mem (clear_header b s)) c = hdr (mem s) c"
    using heap_inv_frame [OF assms(1) clear_touches d] by simp_all
qed

section \<open>Freeing\<close>

text \<open>
  One step of coalescing: from blocks \<open>B\<close> with pending block \<open>x\<close> to blocks \<open>B'\<close> with
  pending block \<open>x'\<close>, the allocated blocks and their sizes as before.
\<close>

definition merges :: "addr set \<Rightarrow> addr set \<Rightarrow> addr \<Rightarrow> 'a kheap_scheme \<Rightarrow> addr set \<Rightarrow> addr set \<Rightarrow> addr \<Rightarrow> 'a kheap_scheme \<Rightarrow> bool" where
  "merges B F x s B' F' x' t \<longleftrightarrow>
     touches (hdrs B) s t \<and> B' \<subseteq> B \<and> x' \<in> B' \<and> x' \<notin> F' \<and> B' - F' - {x'} = B - F - {x}
     \<and> (\<forall>c \<in> B - F - {x}. hb_size (hdr (mem t) c) = hb_size (hdr (mem s) c))"

lemma hdrs_mono: "B' \<subseteq> B \<Longrightarrow> hdrs B' \<subseteq> hdrs B"
  by (auto simp: hdrs_def)

lemma merges_trans:
  assumes "merges B F x s B' F' x' t" and "merges B' F' x' t B'' F'' x'' u"
  shows "merges B F x s B'' F'' x'' u"
proof -
  have "touches (hdrs B) s u"
    using assms touches_mono [OF _ hdrs_mono] unfolding merges_def by (meson touches_trans)
  with assms show ?thesis unfolding merges_def by auto
qed

lemma merges_kprintf [simp]: "merges B F x (kprintf f as s) B' F' x' t = merges B F x s B' F' x' t"
proof -
  have "mem (kprintf f as s) = mem s" by (simp add: kprintf_def)
  then show ?thesis by (simp add: merges_def touches_def)
qed

lemma merge_pair:
  assumes I: "heap_inv B F x lo hi s" and a: "a \<in> B" "a \<noteq> heap_end s" and b: "b = hb_next (hdr (mem s) a)"
    and r: "r \<in> F" and pair: "x = a \<and> r = b \<or> x = b \<and> r = a" and x: "x \<notin> F"
  defines "t \<equiv> clear_header b (absorb a b (remove_from_free_list r s))"
  shows "heap_inv (B - {b}) (F - {r}) a lo hi t" and "merges B F x s (B - {b}) (F - {r}) a t"
proof -
  let ?s1 = "remove_from_free_list r s" and ?s2 = "absorb a b (remove_from_free_list r s)"
  note R = remove_step [OF I r]
  have rd: "hdr (mem ?s1) c = v_remove (hdr (mem s)) r c" if "c \<in> B" for c by (rule reach_read [OF R(1) that])
  have b1: "b = hb_next (hdr (mem ?s1) a)" using rd [OF a(1)] b by (simp add: view_simps)
  have "b \<notin> F - {r}" "x = a \<or> x = b" using pair x by auto
  note A = absorb_step [OF R(2) a(1) _ b1 this, simplified, OF a(2)]
  have sep: "separate (insert b (B - {b}))" using heap_invD(5) [OF I] A(3) by (simp add: insert_absorb)
  note C = clear_step [OF A(2) sep, simplified]
  show "heap_inv (B - {b}) (F - {r}) a lo hi t" unfolding t_def by (rule C(1))
  have "touches (hdrs B) s ?s2" using reach_trans [OF R(1) A(1)] by (simp add: reach_def)
  moreover have "touches (hdrs B) ?s2 t"
    unfolding t_def using A(3) by (intro touches_mono [OF clear_touches]) (auto simp: hdrs_def)
  ultimately have "touches (hdrs B) s t" by (rule touches_trans)
  moreover have "hb_size (hdr (mem t) c) = hb_size (hdr (mem s) c)" if c: "c \<in> B - F - {x}" for c
  proof -
    have ne: "c \<noteq> a" "c \<noteq> b" "c \<in> B" using c pair r by auto
    then have "hdr (mem t) c = v_absorb (hdr (mem ?s1)) a b c"
      using C(3) [of c] reach_read [OF A(1), of c] by (simp add: t_def)
    then show ?thesis using ne rd by (simp add: view_simps)
  qed
  ultimately show "merges B F x s (B - {b}) (F - {r}) a t"
    unfolding merges_def using a A(3,4) pair x r by auto
qed

lemma coalesce_next_merges:
  assumes I: "heap_inv B F x lo hi s" and x: "x \<in> B" "x \<notin> F"
  shows "\<exists>B' F'. heap_inv B' F' x lo hi (coalesce_next x s) \<and> merges B F x s B' F' x (coalesce_next x s)"
proof (cases "hb_next (hdr (mem s) x) \<noteq> 0 \<and> hb_is_free (hdr (mem s) (hb_next (hdr (mem s) x)))")
  case True
  let ?b = "hb_next (hdr (mem s) x)"
  note D = heap_invD [OF I]
  have he: "x \<noteq> heap_end s" using True tiled_next_nonzero [OF D(1) x(1)] by simp
  note N = tiled_block(5,6) [OF D(1) x(1) he]
  have "?b \<noteq> x" using N(2) blk_end_unfold(2) [of x "hdr (mem s)"] by auto
  then have bF: "?b \<in> F" using True D(4) [OF N(1)] by simp
  obtain f as where c: "coalesce_next x s = clear_header ?b (absorb x ?b (remove_from_free_list ?b (kprintf f as s)))"
    using True by (simp add: coalesce_next_def Let_def)
  have k: "mem (kprintf f as s) = mem s" by (simp add: kprintf_def)
  have I0: "heap_inv B F x lo hi (kprintf f as s)" using I by simp
  show ?thesis
    using merge_pair [OF I0 x(1), of ?b ?b] he bF x(2) by (intro exI) (simp add: c k)
next
  case False
  then have "coalesce_next x s = s" by (auto simp: coalesce_next_def Let_def)
  with I x show ?thesis by (auto simp: merges_def)
qed

lemma coalesce_prev_merges:
  assumes I: "heap_inv B F x lo hi s" and x: "x \<in> B" "x \<notin> F" and c: "coalesce_prev x s = (x', t)"
  shows "\<exists>B' F'. heap_inv B' F' x' lo hi t \<and> merges B F x s B' F' x' t"
proof (cases "hb_prev (hdr (mem s) x) \<noteq> 0 \<and> hb_is_free (hdr (mem s) (hb_prev (hdr (mem s) x)))")
  case True
  let ?a = "hb_prev (hdr (mem s) x)"
  note D = heap_invD [OF I]
  have hs: "x \<noteq> heap_start s" using True tiled_prev_nonzero [OF D(1) x(1)] by simp
  note P = tiled_block(8,9) [OF D(1) x(1) hs]
  have he: "?a \<noteq> heap_end s" using P tiledD(9) [OF D(1)] tiled_nonzero [OF D(1) x(1)] by auto
  have "?a \<noteq> x" using tiled_block(6) [OF D(1) P(1) he] P(2) blk_end_unfold(2) [of ?a "hdr (mem s)"] by auto
  then have aF: "?a \<in> F" using True D(4) [OF P(1)] by simp
  obtain f as where c: "x' = ?a" "t = clear_header x (absorb ?a x (remove_from_free_list ?a (kprintf f as s)))"
    using True c by (auto simp: coalesce_prev_def Let_def)
  have k: "mem (kprintf f as s) = mem s" by (simp add: kprintf_def)
  have I0: "heap_inv B F x lo hi (kprintf f as s)" using I by simp
  show ?thesis
    using merge_pair [OF I0 P(1), of x ?a] he P(2) aF x(2) by (intro exI) (simp add: c k)
next
  case False
  then have "x' = x" "t = s" using c by (auto simp: coalesce_prev_def Let_def)
  with I x show ?thesis by (auto simp: merges_def)
qed

lemma kfree_step:
  assumes I: "heap_inv B F 0 lo hi s" and b: "b \<in> B" "b \<notin> F"
  defines "t \<equiv> kfree (b + 48) s"
  shows "\<exists>B' F'. heap_inv B' F' 0 lo hi t \<and> touches (hdrs B) s t \<and> B' \<subseteq> B \<and> B' - F' = B - F - {b}
    \<and> (\<forall>c \<in> B' - F'. hb_size (hdr (mem t) c) = hb_size (hdr (mem s) c))
    \<and> (b \<notin> B' \<longrightarrow> (\<forall>y \<in> region b 48. mem t y = 0))"
proof -
  note D = heap_invD [OF I]
  have b0: "b + 48 \<noteq> 0"
  proof
    assume "b + 48 = 0"
    moreover have "unat (b + 48) = unat b + 48"
      using tiled_low [OF D(1) b(1)] by (subst unat_add_no_wrap) auto
    ultimately show False by simp
  qed
  have nf: "\<not> hb_is_free (hdr (mem s) b)" using D(4) [OF b(1)] b tiled_nonzero [OF D(1) b(1)] by simp
  define s1 where "s1 = set_is_free b True
      (kprintf ''KHeap: kfree(%p) - block %p, size %zu\<newline>''
         [VWord (b + 48), VWord b, VWord (hb_size (hdr (mem s) b))] s)"
  have r1: "reach B s ((hdr (mem s))(b := (hdr (mem s) b)\<lparr>hb_is_free := True\<rparr>)) s1"
    unfolding s1_def using D(6) by (intro reach_setters b) simp
  have I1: "heap_inv B F b lo hi s1"
  proof (rule heap_invI [OF r1])
    show "tiled B ((hdr (mem s))(b := (hdr (mem s) b)\<lparr>hb_is_free := True\<rparr>)) (heap_start s1) (heap_end s1) lo hi"
      using tiled_cong [OF D(1)] by (simp add: s1_def)
    show "listed F ((hdr (mem s))(b := (hdr (mem s) b)\<lparr>hb_is_free := True\<rparr>)) (free_list_head s1)"
      using listed_cong [OF D(3)] by (simp add: s1_def)
  qed (use D(2,4) tiled_nonzero [OF D(1)] in auto)
  have h1: "hb_size (hdr (mem s1) c) = hb_size (hdr (mem s) c)" if "c \<in> B" for c
    using reach_read [OF r1 that] by simp
  have f1: "hb_is_free (hdr (mem s1) b)" using reach_read [OF r1 b(1)] by simp
  obtain B1 F1 where 1: "heap_inv B1 F1 b lo hi (coalesce_next b s1)" "merges B F b s1 B1 F1 b (coalesce_next b s1)"
    using coalesce_next_merges [OF I1 b] by blast
  obtain x' s2 where c: "coalesce_prev b (coalesce_next b s1) = (x', s2)" by fastforce
  obtain B2 F2 where 2: "heap_inv B2 F2 x' lo hi s2" "merges B1 F1 b (coalesce_next b s1) B2 F2 x' s2"
    using coalesce_prev_merges [OF 1(1) _ _ c] 1(2) by (auto simp: merges_def)
  note m = merges_trans [OF 1(2) 2(2)]
  then have x': "x' \<in> B2" "x' \<notin> F2" by (auto simp: merges_def)
  note A = add_step [OF 2(1) x']
  define s3 where "s3 = add_to_free_list x' s2"
  have "coalesce b s1 = (x', s2)"
    using f1 tiled_nonzero [OF D(1) b(1)] c by (simp add: coalesce_def)
  then obtain f as where t: "t = kprintf f as s3"
    using b0 nf by (cases "x' = b") (auto simp: t_def kfree_def Let_def s1_def s3_def)
  have "touches (hdrs B) s s1" using r1 by (simp add: reach_def)
  also have "touches (hdrs B) s1 s2" using m by (simp add: merges_def)
  also have "touches (hdrs B) s2 s3"
    using A(1) m by (auto simp: reach_def s3_def merges_def intro: touches_mono [OF _ hdrs_mono])
  finally have "touches (hdrs B) s t" by (simp add: t)
  moreover have "B2 \<subseteq> B" "B2 - insert x' F2 = B - F - {b}" using m x' by (auto simp: merges_def)
  moreover have "hb_size (hdr (mem s3) c) = hb_size (hdr (mem s) c)" if "c \<in> B2 - insert x' F2" for c
    using reach_read [OF A(1), of c] m that h1 by (auto simp: merges_def view_simps s3_def)
  moreover have "mem s3 y = 0" if nb: "b \<notin> B2" and y: "y \<in> region b 48" for y
  proof -
    obtain w where "s2 = clear_header b w"
      using c x' nb by (auto simp: coalesce_prev_def Let_def split: if_splits)
    then have "mem s2 y = 0" using y by (simp add: clear_header_def memset_apply)
    moreover have "B2 \<subseteq> B" using m by (simp add: merges_def)
    then have "region b 48 \<inter> region x 48 = {}" if "x \<in> B2" for x
      using tiled_separate [OF D(1)] b(1) nb that unfolding separate_def by (metis subsetD)
    then have "y \<notin> hdrs B2" using y by (auto simp: hdrs_def)
    ultimately show ?thesis using A(1) by (auto simp: reach_def touches_def s3_def)
  qed
  ultimately show ?thesis
    using A(2) [folded s3_def] by (intro exI [of _ B2] exI [of _ "insert x' F2"]) (simp add: t)
qed

end
