(* ===== verification/Kheap_Alloc.thy ===== *)
theory Kheap_Alloc
  imports Kheap_Inv
begin

text \<open>
  Allocation: the first-fit search walks a finite list and agrees with \<open>find\<close> on it; taking
  a block, splitting it where its rest can hold a block of its own, and growing the heap by
  the next frames keep the block structure.
\<close>

section \<open>The search\<close>

text \<open>The blocks on the free list, in its order.\<close>

inductive chain :: "memory \<Rightarrow> addr \<Rightarrow> addr list \<Rightarrow> bool" for m where
  nil: "chain m 0 []"
| cons: "a \<noteq> 0 \<Longrightarrow> chain m (hb_next_free (hdr m a)) bs \<Longrightarrow> chain m a (a # bs)"

inductive_cases chain_nilE: "chain m a []"
inductive_cases chain_consE: "chain m a (b # bs)"
inductive_simps chain_null: "chain m 0 bs"

lemma chain_unique: "chain m a bs \<Longrightarrow> chain m a cs \<Longrightarrow> bs = cs"
proof (induction arbitrary: cs rule: chain.induct)
  case nil
  then show ?case by (simp add: chain_null)
next
  case (cons a bs)
  from cons.prems show ?case
  proof cases
    case nil
    with cons.hyps(1) show ?thesis by simp
  next
    case (cons cs')
    then show ?thesis using \<open>\<And>cs. chain m (hb_next_free (hdr m a)) cs \<Longrightarrow> bs = cs\<close> by simp
  qed
qed

lemma chain_from:
  assumes "listed F (hdr m) head" and "finite F" and "V \<subseteq> F"
    and "\<And>v. v \<in> V \<Longrightarrow> hb_prev_free (hdr m v) \<noteq> 0 \<Longrightarrow> hb_prev_free (hdr m v) \<in> V"
    and "a \<noteq> 0 \<Longrightarrow> a \<in> F - V \<and> (hb_prev_free (hdr m a) = 0 \<or> hb_prev_free (hdr m a) \<in> V)"
  shows "\<exists>bs. chain m a bs \<and> set bs \<subseteq> F - V \<and> distinct bs"
  using assms(3-5)
proof (induction "card (F - V)" arbitrary: a V rule: less_induct)
  case less
  show ?case
  proof (cases "a = 0")
    case True
    then have "chain m a []" using chain.nil by simp
    then show ?thesis by (intro exI [of _ "[]"]) simp
  next
    case False
    note a = less.prems(3) [OF False]
    note L = listedD [OF assms(1)]
    let ?c = "hb_next_free (hdr m a)"
    have "card (F - insert a V) < card (F - V)"
      using a assms(2) by (intro psubset_card_mono) auto
    moreover have "insert a V \<subseteq> F" using a less.prems(1) by blast
    moreover have "hb_prev_free (hdr m v) \<in> insert a V"
      if "v \<in> insert a V" "hb_prev_free (hdr m v) \<noteq> 0" for v
      using that a less.prems(2) by blast
    moreover have "?c \<in> F - insert a V \<and> (hb_prev_free (hdr m ?c) = 0 \<or> hb_prev_free (hdr m ?c) \<in> insert a V)"
      if "?c \<noteq> 0"
    proof -
      have c: "?c \<in> F" "hb_prev_free (hdr m ?c) = a" using L(4,5) a that by blast+
      have "?c \<notin> V" using c(2) less.prems(2) [of ?c] a False by auto
      moreover have "?c \<noteq> a" using c(2) a False by auto
      ultimately show ?thesis using c by simp
    qed
    ultimately obtain bs where "chain m ?c bs" "set bs \<subseteq> F - insert a V" "distinct bs"
      using less.hyps [of "insert a V" ?c] by blast
    then show ?thesis
      using chain.cons [OF False, of m bs] a by (intro exI [of _ "a # bs"]) auto
  qed
qed

lemma chain_exists:
  assumes "listed F (hdr m) head" and "finite F"
  shows "\<exists>bs. chain m head bs \<and> set bs \<subseteq> F \<and> distinct bs"
  using chain_from [OF assms, of "{}" head] listedD(2,3) [OF assms(1)] by auto

definition or_null :: "addr option \<Rightarrow> addr" where
  "or_null r = (case r of None \<Rightarrow> 0 | Some b \<Rightarrow> b)"

lemma first_fit_chain:
  assumes "chain m a bs"
  shows "first_fit m a n = Some (or_null (find (\<lambda>b. n \<le> hb_size (hdr m b)) bs))"
  using assms
proof induction
  case nil
  show ?case by (subst first_fit.simps) (simp add: or_null_def)
next
  case (cons a bs)
  then show ?case by (subst first_fit.simps) (simp add: or_null_def)
qed

lemma first_fit_total:
  assumes "heap_inv B F x lo hi s"
  shows "\<exists>r. first_fit (mem s) (free_list_head s) n = Some r
    \<and> (r \<noteq> 0 \<longrightarrow> r \<in> F \<and> n \<le> hb_size (hdr (mem s) r))"
proof -
  note D = heap_invD [OF assms]
  have "finite F" using D(1,2) tiledD(1) finite_subset by blast
  then obtain bs where bs: "chain (mem s) (free_list_head s) bs" "set bs \<subseteq> F"
    using chain_exists [OF D(3)] by blast
  then show ?thesis
    using first_fit_chain [OF bs(1), of n]
    by (auto simp: or_null_def find_Some_iff split: option.splits)
qed

section \<open>Taking a block\<close>

lemma data_region:
  assumes T: "tiled B H hs he lo hi" and b: "b \<in> B"
  shows "x \<in> region b (48 + unat (hb_size (H b))) \<longleftrightarrow> unat b \<le> unat x \<and> unat x < blk_end H b"
    "x \<in> region (b + 48) (unat (hb_size (H b))) \<longleftrightarrow> unat b + 48 \<le> unat x \<and> unat x < blk_end H b"
    "x \<in> region b 48 \<longleftrightarrow> unat b \<le> unat x \<and> unat x < unat b + 48"
proof -
  have le: "blk_end H b \<le> 0x80000000" using tiled_block(2) [OF T b] tiledD(3) [OF T] by simp
  then have u: "unat (b + 48) = unat b + 48" by (subst unat_add_no_wrap) (auto simp: blk_end_def)
  show "x \<in> region b (48 + unat (hb_size (H b))) \<longleftrightarrow> unat b \<le> unat x \<and> unat x < blk_end H b"
    using le by (subst in_region_nat) (auto simp: blk_end_def)
  show "x \<in> region (b + 48) (unat (hb_size (H b))) \<longleftrightarrow> unat b + 48 \<le> unat x \<and> unat x < blk_end H b"
    using le u by (subst in_region_nat) (auto simp: blk_end_def)
  show "x \<in> region b 48 \<longleftrightarrow> unat b \<le> unat x \<and> unat x < unat b + 48"
    using le by (subst in_region_nat) (auto simp: blk_end_def)
qed

lemma data_hdrs_disjoint:
  assumes T: "tiled B H hs he lo hi" and b: "b \<in> B"
  shows "region (b + 48) (unat (hb_size (H b))) \<inter> hdrs B = {}"
proof -
  have False if "x \<in> region (b + 48) (unat (hb_size (H b)))" "c \<in> B" "x \<in> region c 48" for x c
  proof (cases "c = b")
    case False
    with that show False
      using tiled_sep [OF T that(2) b] data_region(2) [OF T b] data_region(3) [OF T that(2)]
        blk_end_unfold(1) [of c H] by auto
  qed (use that data_region(2,3) [OF T b] in auto)
  then show ?thesis by (auto simp: hdrs_def)
qed

lemma zero_data_step:
  assumes I: "heap_inv B F x lo hi s" and b: "b \<in> B" and n: "n = hb_size (hdr (mem s) b)"
  defines "t \<equiv> s\<lparr>mem := memset (mem s) (b + 48) 0 n\<rparr>"
  shows "heap_inv B F x lo hi t" and "\<And>c. c \<in> B \<Longrightarrow> hdr (mem t) c = hdr (mem s) c"
    and "touches (region (b + 48) (unat n)) s t"
    and "\<And>y. y \<in> region (b + 48) (unat n) \<Longrightarrow> mem t y = 0"
proof -
  show tc: "touches (region (b + 48) (unat n)) s t"
    unfolding t_def by (intro touches_mem) (simp add: memset_apply)
  have d: "region (b + 48) (unat n) \<inter> hdrs B = {}"
    unfolding n by (rule data_hdrs_disjoint [OF heap_invD(1) [OF I] b])
  show "heap_inv B F x lo hi t" "\<And>c. c \<in> B \<Longrightarrow> hdr (mem t) c = hdr (mem s) c"
    using heap_inv_frame [OF I tc d] by (simp_all add: t_def)
  show "\<And>y. y \<in> region (b + 48) (unat n) \<Longrightarrow> mem t y = 0" by (simp add: t_def memset_apply)
qed

lemma split_step:
  assumes I: "heap_inv B F 0 lo hi s" and a: "a \<in> B" "a \<notin> F"
    and n: "unat n + 96 \<le> unat (hb_size (hdr (mem s) a))" "8 dvd unat n"
  defines "t \<equiv> split_block a n s" and "new \<equiv> a + 48 + n"
  shows "heap_inv (insert new B) (insert new F) 0 lo hi t" and "new \<notin> B"
    and "touches (hdrs (insert new B)) s t" and "hb_size (hdr (mem t) a) = n"
    and "\<And>c. c \<in> B \<Longrightarrow> c \<noteq> a \<Longrightarrow> hb_size (hdr (mem t) c) = hb_size (hdr (mem s) c)"
    and "region new 48 \<subseteq> region a (48 + unat (hb_size (hdr (mem s) a)))"
proof -
  let ?H = "hdr (mem s)" and ?B = "insert new B"
  note D = heap_invD [OF I]
  have n': "unat n + 48 \<le> unat (hb_size (?H a))" using n(1) by simp
  note S = split_address [OF D(1) a(1) n', folded new_def]
  note TS = tiled_split [OF D(1) a(1) n' n(2) new_def [THEN meta_eq_to_obj_eq]]
  have an: "new \<noteq> a" using S(2) a by blast
  have nx: "hb_next (?H a) \<noteq> 0 \<Longrightarrow> hb_next (?H a) \<in> B"
    using tiled_next_nonzero [OF D(1) a(1)] tiled_block(5) [OF D(1) a(1)] by simp
  have nn: "hb_next (?H a) \<noteq> new" using nx S(1,2) by (metis add_is_0 unat_0 zero_neq_numeral)
  have he: "(if a = heap_end s then new else heap_end s) = (if hb_next (?H a) = 0 then new else heap_end s)"
    using tiled_next_nonzero [OF D(1) a(1)] by auto
  have r0: "reach ?B s ?H s"
    using tiled_separate [OF TS] by (intro reach_refl) (simp_all add: hview_def)
  have "reach ?B s (v_add (v_split ?H a n new) (free_list_head s) new) t"
    and heads: "free_list_head t = new" "heap_start t = heap_start s"
      "heap_end t = (if hb_next (?H a) = 0 then new else heap_end s)"
    unfolding t_def
    by (rule split_refines [OF r0 _ _ new_def [THEN meta_eq_to_obj_eq] an _ S(3) nn];
        use a(1) nx D(7) in blast)+
  note r = this(1)
  note F = v_split_fields [where H = ?H, OF an S(3) nn]
  show "new \<notin> B" by (rule S(2))
  show "touches (hdrs ?B) s t" using r by (simp add: reach_def)
  show "hb_size (hdr (mem t) a) = n" using reach_read [OF r, of a] a by (simp add: view_simps F)
  show "\<And>c. c \<in> B \<Longrightarrow> c \<noteq> a \<Longrightarrow> hb_size (hdr (mem t) c) = hb_size (?H c)"
    using reach_read [OF r] S(2) by (auto simp: view_simps F)
  have "unat k + 48 \<le> 48 + unat (hb_size (?H a)) \<Longrightarrow> region (a + k) 48 \<subseteq> region a (48 + unat (hb_size (?H a)))" for k
    using tiled_block(2) [OF D(1) a(1)] tiledD(3) [OF D(1)] by (intro region_off_subset) (auto simp: blk_end_def)
  moreover have "unat (48 + n) = 48 + unat n"
    using n(1) unat_lt64 [of "hb_size (?H a)"] by (subst unat_add_no_wrap) auto
  ultimately show "region new 48 \<subseteq> region a (48 + unat (hb_size (?H a)))"
    using n(1) by (simp add: new_def add.assoc)
  show "heap_inv ?B (insert new F) 0 lo hi t"
  proof (rule heap_invI [OF r])
    show "tiled ?B (v_add (v_split ?H a n new) (free_list_head s) new) (heap_start t) (heap_end t) lo hi"
      using tiled_cong [OF TS] heads he by (simp add: view_simps)
    have "listed F (v_split ?H a n new) (free_list_head s)"
      using listed_cong [OF D(3)] by (simp add: F)
    then show "listed (insert new F) (v_add (v_split ?H a n new) (free_list_head s) new) (free_list_head t)"
      using listed_add S(1,2) D(2) heads by (metis add_is_0 subset_iff unat_0 zero_neq_numeral)
  qed (use D(2,4) in \<open>auto simp: view_simps F\<close>)
qed

text \<open>
  From \<open>s\<close> to \<open>t\<close> block \<open>b\<close> becomes allocated with at least \<open>n\<close> zeroed bytes; the
  other allocated blocks and their sizes stay, and memory changes only in headers and
  inside \<open>b\<close> as it was.
\<close>

definition takes :: "addr set \<Rightarrow> addr set \<Rightarrow> addr \<Rightarrow> u64 \<Rightarrow> 'a kheap_scheme \<Rightarrow> addr set \<Rightarrow> addr set \<Rightarrow> 'a kheap_scheme \<Rightarrow> bool" where
  "takes B F b n s B' F' t \<longleftrightarrow>
     B' - F' = insert b (B - F)
     \<and> touches (hdrs B \<union> region b (48 + unat (hb_size (hdr (mem s) b)))) s t
     \<and> (\<forall>c \<in> B - F. hb_size (hdr (mem t) c) = hb_size (hdr (mem s) c))
     \<and> n \<le> hb_size (hdr (mem t) b) \<and> hb_size (hdr (mem t) b) \<le> hb_size (hdr (mem s) b)
     \<and> hb_size (hdr (mem t) b) < n + 96
     \<and> (\<forall>y \<in> region (b + 48) (unat (hb_size (hdr (mem t) b))). mem t y = 0)"

lemma set_is_free_idle:
  assumes I: "heap_inv B F 0 lo hi s" and b: "b \<in> B" "b \<notin> F"
  defines "t \<equiv> set_is_free b False s"
  shows "heap_inv B F 0 lo hi t" and "touches (hdrs B) s t"
    and "\<And>c. c \<in> B \<Longrightarrow> hdr (mem t) c = hdr (mem s) c"
proof -
  note D = heap_invD [OF I]
  have nf: "\<not> hb_is_free (hdr (mem s) b)" using D(4) [OF b(1)] b tiled_nonzero [OF D(1) b(1)] by simp
  then have "(hdr (mem s) b)\<lparr>hb_is_free := False\<rparr> = hdr (mem s) b" by simp
  then have r: "reach B s (hdr (mem s)) t"
    using reach_setters(2) [OF D(6) b(1), of False] by (simp add: t_def)
  then show "touches (hdrs B) s t" "\<And>c. c \<in> B \<Longrightarrow> hdr (mem t) c = hdr (mem s) c"
    by (auto simp: reach_def hview_def)
  show "heap_inv B F 0 lo hi t"
    by (rule heap_invI [OF r]) (use D(1-4) in \<open>auto simp: t_def\<close>)
qed

lemma take_tail:
  assumes I: "heap_inv B F 0 lo hi s" and b: "b \<in> B" "b \<notin> F"
  defines "s3 \<equiv> set_is_free b False s"
  defines "t \<equiv> s3\<lparr>mem := memset (mem s3) (b + 48) 0 (hb_size (hdr (mem s3) b))\<rparr>"
  shows "heap_inv B F 0 lo hi t" and "touches (hdrs B \<union> region (b + 48) (unat (hb_size (hdr (mem s) b)))) s t"
    and "\<And>c. c \<in> B \<Longrightarrow> hdr (mem t) c = hdr (mem s) c"
    and "\<And>y. y \<in> region (b + 48) (unat (hb_size (hdr (mem t) b))) \<Longrightarrow> mem t y = 0"
proof -
  note U = set_is_free_idle [OF I b, folded s3_def]
  note Z = zero_data_step [OF U(1) b(1) refl, folded t_def]
  show "heap_inv B F 0 lo hi t" by (rule Z(1))
  show h: "hdr (mem t) c = hdr (mem s) c" if "c \<in> B" for c using Z(2) U(3) that by simp
  show "touches (hdrs B \<union> region (b + 48) (unat (hb_size (hdr (mem s) b)))) s t"
    using U(2,3) Z(3) b(1) by (auto intro!: touches_trans [of _ s s3 t] elim: touches_mono)
  show "\<And>y. y \<in> region (b + 48) (unat (hb_size (hdr (mem t) b))) \<Longrightarrow> mem t y = 0"
    using Z(4) h [OF b(1)] U(3) [OF b(1)] by simp
qed

text \<open>Cutting a block off the free list down to size: split, or taken whole.\<close>

definition cut_block :: "addr \<Rightarrow> u64 \<Rightarrow> 'a kheap_scheme \<Rightarrow> 'a kheap_scheme" where
  "cut_block b n s = (if hb_size (hdr (mem s) b) \<ge> n + HEAP_MIN_BLOCK_SIZE
     then split_block b n s
     else kprintf ''KHeap: Allocated whole block %p (%zu) for size %zu\<newline>''
            [VWord b, VWord (hb_size (hdr (mem s) b)), VWord n] s)"

lemma cut_step:
  assumes I: "heap_inv B F 0 lo hi s" and b: "b \<in> B" "b \<notin> F"
    and n: "n \<le> hb_size (hdr (mem s) b)" "8 dvd unat n" "unat (n + 96) = unat n + 96"
  defines "R \<equiv> region b (48 + unat (hb_size (hdr (mem s) b)))" and "t \<equiv> cut_block b n s"
  shows "\<exists>B' F'. heap_inv B' F' 0 lo hi t \<and> b \<in> B' \<and> b \<notin> F' \<and> hdrs B' \<subseteq> hdrs B \<union> R \<and> B \<subseteq> B'
      \<and> B' - F' = B - F \<and> touches (hdrs B \<union> R) s t
      \<and> (\<forall>c \<in> B - F - {b}. hb_size (hdr (mem t) c) = hb_size (hdr (mem s) c))
      \<and> n \<le> hb_size (hdr (mem t) b) \<and> hb_size (hdr (mem t) b) \<le> hb_size (hdr (mem s) b)
      \<and> hb_size (hdr (mem t) b) < n + 96"
proof (cases "n + 96 \<le> hb_size (hdr (mem s) b)")
  case True
  then have n': "unat n + 96 \<le> unat (hb_size (hdr (mem s) b))" using n(3) by (simp add: word_le_nat_alt)
  note S = split_step [OF I b n' n(2)]
  have t: "t = split_block b n s" using True by (simp add: t_def cut_block_def)
  have "hdrs (insert (b + 48 + n) B) \<subseteq> hdrs B \<union> R" using S(6) by (auto simp: hdrs_def R_def)
  moreover have "n < n + 96" using n(3) by (simp add: word_less_nat_alt)
  moreover have "insert (b + 48 + n) B - insert (b + 48 + n) F = B - F" using S(2) by auto
  moreover have "touches (hdrs B \<union> R) s t" unfolding t by (rule touches_mono [OF S(3) calculation(1)])
  moreover have "b \<notin> insert (b + 48 + n) F" using S(2) b by (metis insertE)
  ultimately show ?thesis
    using S(1,4,5) n(1) b t by (intro exI [of _ "insert (b + 48 + n) B"] exI [of _ "insert (b + 48 + n) F"] conjI) auto
next
  case False
  then obtain f as where t: "t = kprintf f as s" by (simp add: t_def cut_block_def)
  have "mem (kprintf f as s) = mem s" by (simp add: kprintf_def)
  then show ?thesis using I n(1) b False t by (intro exI [of _ B] exI [of _ F]) auto
qed

lemma take_block_cut:
  "take_block b n s =
     (let s2 = cut_block b n (remove_from_free_list b s);
          s3 = set_is_free b False s2
      in (b + 48, s3\<lparr>mem := memset (mem s3) (b + 48) 0 (hb_size (hdr (mem s3) b))\<rparr>))"
  by (simp add: take_block_def cut_block_def Let_def)

lemma take_block_step:
  assumes I: "heap_inv B F 0 lo hi s" and b: "b \<in> F" and n: "n \<le> hb_size (hdr (mem s) b)" "8 dvd unat n"
    and p: "take_block b n s = (p, t)"
  shows "p = b + 48 \<and> (\<exists>B' F'. heap_inv B' F' 0 lo hi t \<and> takes B F b n s B' F' t)"
proof -
  note D = heap_invD [OF I]
  have bB: "b \<in> B" using b D(2) by blast
  define s1 where "s1 = remove_from_free_list b s"
  note R = remove_step [OF I b, folded s1_def]
  have h1: "hb_size (hdr (mem s1) c) = hb_size (hdr (mem s) c)" if "c \<in> B" for c
    using reach_read [OF R(1) that] by (simp add: view_simps)
  have t1: "touches (hdrs B) s s1" using R(1) by (simp add: reach_def)
  have sz: "unat b + 48 + unat (hb_size (hdr (mem s) b)) \<le> 0x80000000"
    using tiled_block(2) [OF D(1) bB] tiledD(3) [OF D(1)] by (simp add: blk_end_def)
  have n96: "unat (n + 96) = unat n + 96"
    using n(1) sz by (subst unat_add_no_wrap) (auto simp: word_le_nat_alt)
  let ?R = "region b (48 + unat (hb_size (hdr (mem s) b)))"
  have sub: "region (b + 48) k \<subseteq> ?R" if "k \<le> unat (hb_size (hdr (mem s) b))" for k
    using that sz by (intro region_off_subset) auto
  define s2 where "s2 = cut_block b n s1"
  have pt: "p = b + 48" "t = (set_is_free b False s2)\<lparr>mem := memset (mem (set_is_free b False s2)) (b + 48) 0
      (hb_size (hdr (mem (set_is_free b False s2)) b))\<rparr>"
    using p unfolding take_block_cut Let_def s1_def [symmetric] s2_def [symmetric] by auto
  have bF: "b \<notin> F - {b}" and n1: "n \<le> hb_size (hdr (mem s1) b)" and BF: "B - (F - {b}) = insert b (B - F)"
    using n(1) h1 [OF bB] bB by auto
  obtain B' F' where 2: "heap_inv B' F' 0 lo hi s2" "b \<in> B'" "b \<notin> F'" "hdrs B' \<subseteq> hdrs B \<union> ?R" "B \<subseteq> B'"
    "B' - F' = insert b (B - F)" "touches (hdrs B \<union> ?R) s1 s2"
    "\<forall>c \<in> B - (F - {b}) - {b}. hb_size (hdr (mem s2) c) = hb_size (hdr (mem s1) c)"
    "n \<le> hb_size (hdr (mem s2) b)" "hb_size (hdr (mem s2) b) \<le> hb_size (hdr (mem s) b)"
    "hb_size (hdr (mem s2) b) < n + 96"
    using cut_step [OF R(2) bB bF n1 n(2) n96, folded s2_def, unfolded h1 [OF bB] BF] unfolding BF by blast
  have hc: "\<forall>c \<in> B - F. hb_size (hdr (mem s2) c) = hb_size (hdr (mem s) c)" using 2(8) h1 b by auto
  note T = take_tail [OF 2(1-3), folded pt(2)]
  have "touches (hdrs B \<union> ?R) s s1" using t1 by (auto elim: touches_mono)
  also note 2(7)
  also have "touches (hdrs B \<union> ?R) s2 t"
    using 2(4) sub [of "unat (hb_size (hdr (mem s2) b))"] 2(10)
    by (intro touches_mono [OF T(2)]) (auto simp: word_le_nat_alt)
  finally have "takes B F b n s B' F' t"
    using 2 hc T(3,4) by (auto simp: takes_def)
  with T(1) pt(1) show ?thesis by blast
qed

end
