(* ===== verification/Kheap_Grow.thy ===== *)
theory Kheap_Grow
  imports Kheap_Alloc
begin

text \<open>
  Growing the heap by frames: as long as the lowest free frame lies right behind the last
  block, the frames that \<open>expand_heap\<close> takes extend the tiling. The theory joins the block
  structure with the invariant of the physical memory manager.
\<close>

section \<open>Heap and frames\<close>

abbreviation frame_top :: "nat \<Rightarrow> nat" where "frame_top j \<equiv> 0x40000000 + 4096 * j"

definition span :: "nat \<Rightarrow> nat \<Rightarrow> addr set" where
  "span a b = {y. a \<le> unat y \<and> unat y < b}"

text \<open>
  The heap ends where frame \<open>j\<close> starts, all free frames lie behind it, and the bitmap of
  the physical memory manager lies outside it.
\<close>

definition kinv :: "addr set \<Rightarrow> addr set \<Rightarrow> addr \<Rightarrow> nat \<Rightarrow> nat \<Rightarrow> 'a kheap_scheme \<Rightarrow> bool" where
  "kinv B F x lo j s \<longleftrightarrow> pmm_inv s \<and> heap_inv B F x lo (frame_top j) s \<and> (\<forall>i \<in> free_frames s. j \<le> i)
     \<and> span lo (frame_top j) \<inter> bitmap_bytes s = {}"

lemma kinvD:
  assumes "kinv B F x lo j s"
  shows "pmm_inv s" "heap_inv B F x lo (frame_top j) s" "i \<in> free_frames s \<Longrightarrow> j \<le> i"
    "span lo (frame_top j) \<inter> bitmap_bytes s = {}"
  using assms by (auto simp: kinv_def)

lemma touches_pmm:
  assumes "touches R s t" and "R \<inter> bitmap_bytes s = {}"
  shows "free_frames t = free_frames s" and "bitmap_bytes t = bitmap_bytes s"
    and "pmm_inv s \<Longrightarrow> pmm_inv t"
proof -
  show f: "free_frames t = free_frames s"
    using assms by (intro free_frames_cong) (auto simp: touches_def)
  show b: "bitmap_bytes t = bitmap_bytes s" using assms by (simp add: bitmap_bytes_def touches_def)
  show "pmm_inv s \<Longrightarrow> pmm_inv t" using assms f b by (simp add: pmm_inv_def touches_def)
qed

lemma kinv_touches:
  assumes "kinv B F x lo j s" and "touches R s t" and "R \<subseteq> span lo (frame_top j)"
    and "heap_inv B' F' x' lo (frame_top j) t"
  shows "kinv B' F' x' lo j t" and "free_frames t = free_frames s" and "bitmap_bytes t = bitmap_bytes s"
proof -
  have d: "R \<inter> bitmap_bytes s = {}" using kinvD(4) [OF assms(1)] assms(3) by blast
  note T = touches_pmm [OF assms(2) d]
  show "free_frames t = free_frames s" "bitmap_bytes t = bitmap_bytes s" by (rule T)+
  show "kinv B' F' x' lo j t" using T assms(1,4) by (simp add: kinv_def)
qed

lemma block_span:
  assumes T: "tiled B H hs he lo hi" and b: "b \<in> B"
  shows "region b (48 + unat (hb_size (H b))) \<subseteq> span lo hi"
    "region (b + 48) (unat (hb_size (H b))) \<subseteq> span lo hi" "region b 48 \<subseteq> span lo hi"
  using data_region [OF T b] tiled_block(1,2) [OF T b] blk_end_unfold(1) [of b H]
  by (auto simp: span_def)

lemma hdrs_span: "tiled B H hs he lo hi \<Longrightarrow> hdrs B \<subseteq> span lo hi"
  using block_span(3) by (fastforce simp: hdrs_def)

section \<open>One frame\<close>

text \<open>
  From \<open>s\<close> to \<open>t\<close> the heap gains the free blocks \<open>U\<close>, one page each, on no list.
\<close>

definition gains :: "addr set \<Rightarrow> addr set \<Rightarrow> 'a kheap_scheme \<Rightarrow> 'a kheap_scheme \<Rightarrow> bool" where
  "gains B U s t \<longleftrightarrow>
     free_list_head t = free_list_head s \<and> bitmap_bytes t = bitmap_bytes s
     \<and> (\<forall>c \<in> B. hb_size (hdr (mem t) c) = hb_size (hdr (mem s) c)
           \<and> hb_next_free (hdr (mem t) c) = hb_next_free (hdr (mem s) c)
           \<and> hb_prev_free (hdr (mem t) c) = hb_prev_free (hdr (mem s) c))
     \<and> (\<forall>c \<in> U. hb_size (hdr (mem t) c) = 4048 \<and> hb_next_free (hdr (mem t) c) = 0
           \<and> hb_prev_free (hdr (mem t) c) = 0)
     \<and> (\<forall>y. y \<notin> hdrs B \<longrightarrow> y \<notin> bitmap_bytes s \<longrightarrow> (\<forall>f \<in> U. y \<notin> region f 4096) \<longrightarrow> mem t y = mem s y)"

lemma gains_trans:
  assumes "gains B U s t" and "gains (B \<union> U) U' t u"
  shows "gains B (U \<union> U') s u"
proof -
  have "y \<notin> hdrs (B \<union> U)" if "y \<notin> hdrs B" "\<forall>f \<in> U. y \<notin> region f 4096" for y
    using that region_mono [of 48 4096] by (auto simp: hdrs_def)
  with assms show ?thesis unfolding gains_def by (simp add: ball_Un)
qed

lemma take_frame_heads [simp]:
  "free_list_head (take_frame j s) = free_list_head s" "heap_start (take_frame j s) = heap_start s"
  "heap_end (take_frame j s) = heap_end s"
  by (simp_all add: take_frame_def Let_def set_bit_bm_def)

lemma hdr_zero_links:
  assumes "\<And>y. y \<in> region c 48 \<Longrightarrow> m y = 0"
  shows "hb_next_free (hdr m c) = 0" "hb_prev_free (hdr m c) = 0"
proof -
  have l: "load (\<lambda>_. 0) a n = 0" for a n by (induction n arbitrary: a) auto
  have "hdr m c = hdr (\<lambda>_. 0) c" by (rule hdr_cong) (use assms in auto)
  then show "hb_next_free (hdr m c) = 0" "hb_prev_free (hdr m c) = 0" by (simp_all add: hdr_def l)
qed

text \<open>The state of the blocks when the loop links a fresh frame behind them.\<close>

lemma link_fresh:
  assumes pmm: "pmm_inv s" and j: "j \<in> free_frames s" and out: "hdrs B \<inter> region (frame_addr j) 4096 = {}"
    and bm: "hdrs B \<inter> bitmap_bytes s = {}" and sep: "separate (insert (frame_addr j) B)"
    and fB: "frame_addr j \<notin> B" and he: "heap_end s = 0 \<and> B = {} \<or> heap_end s \<in> B"
  defines "f \<equiv> frame_addr j"
  defines "s1 \<equiv> take_frame j s"
  defines "H \<equiv> (hdr (mem s))(f := hdr (mem s1) f)"
  defines "t \<equiv> link_frame f s1"
  shows "reach (insert f B) s1 (v_link H (heap_end s) f) t" and "gains B {f} s t"
    and "pmm_inv t" and "free_frames t = free_frames s - {j}"
proof -
  have m1: "mem s1 y = (if y \<in> region f 4096 then 0 else mem s y)" if "y \<notin> bitmap_bytes s" for y
    using take_frame_mem [OF pmm j that] by (simp add: s1_def f_def)
  have fbm: "region f 4096 \<inter> bitmap_bytes s = {}"
    unfolding f_def by (rule pmm_inv_frame_bitmap_disjoint [OF pmm j])
  have h1: "hdr (mem s1) c = hdr (mem s) c" if "c \<in> B" for c
  proof (rule hdr_cong)
    fix y assume "y \<in> region c 48"
    then have "y \<in> hdrs B" using that by (auto simp: hdrs_def)
    then have "y \<notin> bitmap_bytes s" "y \<notin> region f 4096" using out bm unfolding f_def by blast+
    then show "mem s1 y = mem s y" using m1 by simp
  qed
  have ne: "heap_end s \<noteq> f"
  proof
    assume "heap_end s = f"
    then have "f = 0" using he fB by (auto simp: f_def)
    then show False using unat_frame_addr [OF free_frames_bound [OF j]] by (simp add: f_def)
  qed
  have "reach (insert f B) s1 H s1"
    using sep h1 by (intro reach_refl) (simp_all add: hview_def H_def f_def)
  then show r: "reach (insert f B) s1 (v_link H (heap_end s) f) t"
    using link_refines [of "insert f B" s1 H s1 f] he ne unfolding t_def
    by (metis insertCI s1_def take_frame_heads(3))
  have sub: "region f 48 \<subseteq> region f 4096" by (rule region_mono) simp
  have z: "hb_next_free (hdr (mem s1) f) = 0" "hb_prev_free (hdr (mem s1) f) = 0"
    using sub fbm m1 by (intro hdr_zero_links; fastforce)+
  have hd: "hdr (mem t) c = v_link H (heap_end s) f c" if "c \<in> insert f B" for c
    by (rule reach_read [OF r that])
  have tch: "touches (hdrs (insert f B)) s1 t" using r by (simp add: reach_def)
  have hb: "hdrs (insert f B) \<inter> bitmap_bytes s1 = {}" using bm fbm sub by (auto simp: hdrs_def s1_def)
  note T = touches_pmm [OF tch hb]
  show "pmm_inv t" using T(3) take_frame_inv [OF pmm j] by (simp add: s1_def)
  show "free_frames t = free_frames s - {j}"
    using T(1) take_frame_free_frames [OF pmm j] by (simp add: s1_def)
  have "mem t y = mem s y" if "y \<notin> hdrs B" "y \<notin> bitmap_bytes s" "y \<notin> region f 4096" for y
    using that tch m1 sub by (auto simp: touches_def hdrs_def)
  moreover have "free_list_head t = free_list_head s" "bitmap_bytes t = bitmap_bytes s"
    using T(2) by (simp_all add: t_def s1_def)
  ultimately show "gains B {f} s t"
    using hd z fB by (auto simp: gains_def view_simps H_def f_def)
qed

lemma listed_orphan:
  assumes "listed F H head" and "f \<notin> F" and "f \<noteq> 0" and "hb_next_free (H f) = 0" and "hb_prev_free (H f) = 0"
  shows "listed (insert f F) H head"
  using assms unfolding listed_def by auto

lemma link_kinv:
  assumes K: "kinv B F 0 lo j s" and j: "j \<in> free_frames s"
  defines "f \<equiv> frame_addr j"
  defines "t \<equiv> link_frame f (take_frame j s)"
  shows "kinv (insert f B) (insert f F) 0 lo (Suc j) t" and "gains B {f} s t" and "f \<notin> B"
    and "free_frames t = free_frames s - {j}" and "alloc_frame s = (f, take_frame j s)"
proof -
  note D = heap_invD [OF kinvD(2) [OF K]]
  have jb: "j < PMM_TOTAL_FRAMES" by (rule free_frames_bound [OF j])
  have fu: "unat f = frame_top j" using unat_frame_addr [OF jb] by (simp add: f_def)
  have hi: "frame_top j + 4096 \<le> 0x80000000" using jb by simp
  show fB: "f \<notin> B"
    using tiled_block(2) [OF D(1), of f] blk_end_unfold(2) [of f "hdr (mem s)"] fu by auto
  have rf: "region f 4096 = span (frame_top j) (frame_top (Suc j))"
    using fu hi by (auto simp: span_def in_region_nat)
  have hs: "hdrs B \<subseteq> span lo (frame_top j)" by (rule hdrs_span [OF D(1)])
  have out: "hdrs B \<inter> region f 4096 = {}" using hs rf by (auto simp: span_def)
  have bm: "hdrs B \<inter> bitmap_bytes s = {}" using hs kinvD(4) [OF K] by blast
  let ?H = "(hdr (mem s))(f := hdr (mem (take_frame j s)) f)"
  have "tiled B ?H (heap_start s) (heap_end s) lo (frame_top j)"
    by (rule tiled_cong [OF D(1)]) (use fB in auto)
  then have TL: "tiled (insert f B) (v_link ?H (heap_end s) f) (heap_start s) f lo (frame_top (Suc j))"
    using tiled_link [of B ?H _ _ lo "frame_top j" f] fu hi by simp
  have heB: "heap_end s \<in> B" by (rule tiledD(5) [OF D(1)])
  note L = link_fresh [OF kinvD(1) [OF K] j out [unfolded f_def] bm tiled_separate [OF TL, unfolded f_def]
      fB [unfolded f_def] disjI2 [OF heB], folded f_def, folded t_def]
  show "gains B {f} s t" by (rule L(2))
  show ff: "free_frames t = free_frames s - {j}" by (rule L(4))
  have "Min (free_frames s) = j" using kinvD(3) [OF K] j by (intro Min_eqI) auto
  then show "alloc_frame s = (f, take_frame j s)" using j by (subst alloc_frame_some) (auto simp: f_def)
  have ht: "heap_end t = f" "heap_start t = heap_start s" "free_list_head t = free_list_head s"
    using tiled_nonzero [OF D(1) heB] by (auto simp: t_def)
  have "heap_inv (insert f B) (insert f F) 0 lo (frame_top (Suc j)) t"
  proof (rule heap_invI [OF L(1)])
    show "tiled (insert f B) (v_link ?H (heap_end s) f) (heap_start t) (heap_end t) lo (frame_top (Suc j))"
      using TL ht by simp
    have "hdr (mem t) f = v_link ?H (heap_end s) f f" by (rule reach_read [OF L(1)]) simp
    then have z: "hb_next_free (v_link ?H (heap_end s) f f) = 0" "hb_prev_free (v_link ?H (heap_end s) f f) = 0"
      using L(2) by (auto simp: gains_def)
    have "listed F (v_link ?H (heap_end s) f) (free_list_head s)"
      using D(2) fB by (intro listed_cong [OF D(3)]) (auto simp: view_simps)
    then show "listed (insert f F) (v_link ?H (heap_end s) f) (free_list_head t)"
      using listed_orphan z D(2) fB fu ht(3) by (metis add_is_0 subset_iff unat_0 zero_neq_numeral)
  qed (use D(2,4) fB in \<open>auto simp: view_simps\<close>)
  moreover have "span lo (frame_top (Suc j)) \<inter> bitmap_bytes t = {}"
  proof -
    have "span lo (frame_top (Suc j)) \<subseteq> span lo (frame_top j) \<union> region f 4096" unfolding rf by (auto simp: span_def)
    moreover have "region f 4096 \<inter> bitmap_bytes s = {}"
      unfolding f_def by (rule pmm_inv_frame_bitmap_disjoint [OF kinvD(1) [OF K] j])
    ultimately show ?thesis using kinvD(4) [OF K] L(2) by (auto simp: gains_def)
  qed
  moreover have "\<forall>i \<in> free_frames t. Suc j \<le> i"
    using ff kinvD(3) [OF K] by (metis Diff_iff Suc_leI insertCI le_neq_implies_less)
  ultimately show "kinv (insert f B) (insert f F) 0 lo (Suc j) t" using L(3) by (simp add: kinv_def)
qed

section \<open>Expansion\<close>

lemma expand_loop_kinv:
  assumes "kinv B F 0 lo j s" and "{j..<j + n} \<subseteq> free_frames s"
  shows "\<exists>t. expand_loop n nb s = (Some (if nb = 0 \<and> 0 < n then frame_addr j else nb), t)
    \<and> kinv (B \<union> frame_addr ` {j..<j + n}) (F \<union> frame_addr ` {j..<j + n}) 0 lo (j + n) t
    \<and> gains B (frame_addr ` {j..<j + n}) s t \<and> frame_addr ` {j..<j + n} \<inter> B = {}
    \<and> free_frames t = free_frames s - {j..<j + n}"
  using assms
proof (induction n arbitrary: B F j nb s)
  case 0
  then show ?case by (simp add: gains_def)
next
  case (Suc n)
  have j: "j \<in> free_frames s" using Suc.prems(2) by auto
  define f where "f = frame_addr j"
  define s1 where "s1 = link_frame f (take_frame j s)"
  note L = link_kinv [OF Suc.prems(1) j, folded f_def, folded s1_def]
  have f0: "f \<noteq> 0" using heap_invD(1) [OF kinvD(2) [OF L(1)]] tiled_nonzero by blast
  have sub: "{Suc j..<Suc j + n} \<subseteq> free_frames s1" using L(4) Suc.prems(2) by auto
  have r: "{j..<j + Suc n} = insert j {Suc j..<Suc j + n}" by auto
  obtain t where t: "expand_loop n (if nb = 0 then f else nb) s1
        = (Some (if nb = 0 then f else nb), t)"
      "kinv (insert f B \<union> frame_addr ` {Suc j..<Suc j + n}) (insert f F \<union> frame_addr ` {Suc j..<Suc j + n}) 0 lo (Suc j + n) t"
      "gains (B \<union> {f}) (frame_addr ` {Suc j..<Suc j + n}) s1 t"
      "frame_addr ` {Suc j..<Suc j + n} \<inter> insert f B = {}"
      "free_frames t = free_frames s1 - {Suc j..<Suc j + n}"
    using Suc.IH [OF L(1) sub, of "if nb = 0 then f else nb"] f0 by auto
  have "expand_loop (Suc n) nb s = (Some (if nb = 0 then f else nb), t)"
    using t(1) f0 L(5) by (simp add: s1_def)
  moreover have "gains B (frame_addr ` {j..<j + Suc n}) s t"
    using gains_trans [OF L(2) t(3)] unfolding r by (simp add: f_def)
  ultimately show ?case
    using t(2,4,5) L(3,4) unfolding r by (auto simp: f_def Un_insert_left Un_insert_right)
qed

lemma orphan_pending:
  assumes I: "heap_inv B F 0 lo hi s" and f: "f \<in> F" "hb_next_free (hdr (mem s) f) = 0"
    "hb_prev_free (hdr (mem s) f) = 0" "free_list_head s \<noteq> f"
  shows "heap_inv B (F - {f}) f lo hi s"
proof -
  note D = heap_invD [OF I]
  have "f \<noteq> 0" using listedD(1) [OF D(3)] f(1) by blast
  then have "listed (F - {f}) (hdr (mem s)) (free_list_head s)"
    using D(3) f(2-4) unfolding listed_def by auto
  then show ?thesis using D(1,2,4) tiled_nonzero [OF D(1)] by (auto simp: heap_inv_def)
qed

text \<open>The end of \<open>expand_heap\<close>: the first new block is merged backwards if it can be, and listed.\<close>

definition finish_expand :: "addr \<Rightarrow> 'a kheap_scheme \<Rightarrow> 'a kheap_scheme" where
  "finish_expand nb s =
     (let pv = hb_prev (hdr (mem s) nb)
      in if pv \<noteq> 0 \<and> hb_is_free (hdr (mem s) pv)
         then add_to_free_list pv (absorb pv nb (remove_from_free_list pv s))
         else add_to_free_list nb s)"

lemma finish_expand_step:
  assumes I: "heap_inv B F 0 lo hi s" and nb: "nb \<in> F" "hb_next_free (hdr (mem s) nb) = 0"
    "hb_prev_free (hdr (mem s) nb) = 0" "free_list_head s \<noteq> nb" "hb_size (hdr (mem s) nb) = 4048"
  defines "t \<equiv> finish_expand nb s"
  shows "\<exists>B' F'. heap_inv B' F' 0 lo hi t \<and> B' - F' = B - F \<and> touches (hdrs B) s t
    \<and> (\<forall>c \<in> B - F. hb_size (hdr (mem t) c) = hb_size (hdr (mem s) c))
    \<and> free_list_head t \<noteq> 0 \<and> 4048 \<le> hb_size (hdr (mem t) (free_list_head t))"
proof -
  let ?pv = "hb_prev (hdr (mem s) nb)"
  note D = heap_invD [OF I]
  have nbB: "nb \<in> B" using nb(1) D(2) by blast
  note P = orphan_pending [OF I nb(1-4)]
  show ?thesis
  proof (cases "?pv \<noteq> 0 \<and> hb_is_free (hdr (mem s) ?pv)")
    case False
    then have t: "t = add_to_free_list nb s" by (auto simp: t_def finish_expand_def Let_def)
    note A = add_step [OF P nbB, simplified, folded t]
    have h: "hb_size (hdr (mem t) c) = hb_size (hdr (mem s) c)" if "c \<in> B" for c
      using reach_read [OF A(1) that] by (simp add: view_simps)
    have "insert nb F = F" using nb(1) by blast
    then show ?thesis
      using A h nb(5) nbB tiled_nonzero [OF D(1) nbB]
      by (intro exI [of _ B] exI [of _ F]) (simp add: t reach_def)
  next
    case True
    have hs: "nb \<noteq> heap_start s" using True tiled_prev_nonzero [OF D(1) nbB] by simp
    note N = tiled_block(8,9) [OF D(1) nbB hs]
    have he: "?pv \<noteq> heap_end s" using N tiledD(9) [OF D(1)] tiled_nonzero [OF D(1) nbB] by auto
    have pn: "?pv \<noteq> nb" using tiled_block(6) [OF D(1) N(1) he] N(2) blk_end_unfold(2) [of ?pv "hdr (mem s)"] by auto
    have pF: "?pv \<in> F - {nb}" using True D(4) [OF N(1)] tiled_nonzero [OF D(1) N(1)] pn by simp
    define s1 where "s1 = remove_from_free_list ?pv s"
    note R = remove_step [OF P pF, folded s1_def]
    have nx: "nb = hb_next (hdr (mem s1) ?pv)" using reach_read [OF R(1) N(1)] N(2) by (simp add: view_simps)
    have h1: "hb_size (hdr (mem s1) c) = hb_size (hdr (mem s) c)" if "c \<in> B" for c
      using reach_read [OF R(1) that] by (simp add: view_simps)
    define s2 where "s2 = absorb ?pv nb s1"
    have hs1: "?pv \<noteq> heap_end s1" using he by (simp add: s1_def)
    note A = absorb_step [OF R(2) N(1) hs1 nx, of ?pv, simplified, folded s2_def]
    have pB2: "?pv \<in> B - {nb}" using N(1) pn by blast
    have t: "t = add_to_free_list ?pv s2" using True by (simp add: t_def finish_expand_def Let_def s1_def s2_def)
    note C = add_step [OF A(2) pB2, simplified, folded t]
    have "touches (hdrs B) s s2" using reach_trans [OF R(1) A(1)] by (simp add: reach_def)
    moreover have "touches (hdrs B) s2 t"
      using C(1) by (auto simp: reach_def intro: touches_mono [OF _ hdrs_mono])
    ultimately have "touches (hdrs B) s t" by (rule touches_trans)
    moreover have "hb_size (hdr (mem t) c) = hb_size (v_absorb (hdr (mem s1)) ?pv nb c)" if "c \<in> B - {nb}" for c
      using reach_read [OF C(1) that] reach_read [OF A(1), of c] that by (simp add: view_simps)
    note ht = this
    have "hb_size (hdr (mem t) c) = hb_size (hdr (mem s) c)" if "c \<in> B - F" for c
    proof -
      have "c \<in> B - {nb}" "c \<noteq> ?pv" "c \<in> B" using that nb(1) pF by auto
      then show ?thesis using ht [of c] h1 [of c] by (simp add: view_simps)
    qed
    moreover have "4048 \<le> hb_size (hdr (mem t) ?pv)"
      using ht [OF pB2] absorb_facts(6) [OF heap_invD(1) [OF R(2)] N(1) hs1 nx] h1 [OF nbB] nb(5)
      by (simp add: word_le_nat_alt)
    moreover have "B - {nb} - insert ?pv (F - {nb} - {?pv}) = B - F" using nb(1) pF by auto
    ultimately show ?thesis
      using C(2) tiled_nonzero [OF D(1) N(1)]
      by (intro exI [of _ "B - {nb}"] exI [of _ "insert ?pv (F - {nb} - {?pv})"]) (simp add: t)
  qed
qed

lemma kinv_kprintf [simp]: "kinv B F x lo j (kprintf f as s) = kinv B F x lo j s"
  by (simp add: kinv_def bitmap_bytes_def)

lemma expand_heap_finish:
  "expand_heap k s =
     (case expand_loop (unat (pages_needed k)) 0
             (kprintf ''KHeap: Expanding heap by %zu pages\<newline>'' [VWord (pages_needed k)] s) of
        (None, s1) \<Rightarrow> (False, s1)
      | (Some nb, s1) \<Rightarrow> if nb = 0 then (False, s1) else (True, finish_expand nb s1))"
  by (simp add: expand_heap_def finish_expand_def Let_def split: prod.splits option.splits)

text \<open>The allocated blocks of \<open>s\<close> keep their sizes and the data in them.\<close>

definition keeps :: "addr set \<Rightarrow> 'a kheap_scheme \<Rightarrow> 'a kheap_scheme \<Rightarrow> bool" where
  "keeps A s t \<longleftrightarrow>
     (\<forall>c \<in> A. hb_size (hdr (mem t) c) = hb_size (hdr (mem s) c)
        \<and> (\<forall>y \<in> region (c + 48) (unat (hb_size (hdr (mem s) c))). mem t y = mem s y))"

lemma keeps_trans: "keeps A s t \<Longrightarrow> keeps A t u \<Longrightarrow> keeps A s u"
  by (simp add: keeps_def)

lemma pages_needed_pos: "0 < unat (pages_needed k)"
  by (simp add: pages_needed_def Let_def unat_gt_0)

lemma frame_regions_span:
  assumes "{j..<j + n} \<subseteq> free_frames s" and "f \<in> frame_addr ` {j..<j + n}"
  shows "region f 4096 \<subseteq> span (frame_top j) (frame_top (j + n))" and "unat f + 4096 \<le> 0x80000000"
proof -
  from assms(2) obtain i where i: "f = frame_addr i" "j \<le> i" "i < j + n" by auto
  then have "i \<in> free_frames s" using assms(1) by auto
  then have ib: "i < PMM_TOTAL_FRAMES" by (rule free_frames_bound)
  have u: "unat f = frame_top i" using unat_frame_addr [OF ib] i(1) by simp
  then show "unat f + 4096 \<le> 0x80000000" using ib by simp
  then have "y \<in> region f 4096 \<longleftrightarrow> frame_top i \<le> unat y \<and> unat y < frame_top i + 4096" for y
    using u by (subst in_region_nat) auto
  with i show "region f 4096 \<subseteq> span (frame_top j) (frame_top (j + n))" by (auto simp: span_def)
qed

lemma expand_heap_step:
  assumes K: "kinv B F 0 lo j s" and n: "n = unat (pages_needed k)" and room: "{j..<j + n} \<subseteq> free_frames s"
  shows "\<exists>t B' F'. expand_heap k s = (True, t) \<and> kinv B' F' 0 lo (j + n) t \<and> B' - F' = B - F
    \<and> keeps (B - F) s t \<and> free_list_head t \<noteq> 0 \<and> 4048 \<le> hb_size (hdr (mem t) (free_list_head t))
    \<and> free_frames t = free_frames s - {j..<j + n} \<and> bitmap_bytes t = bitmap_bytes s
    \<and> (\<forall>y. y \<notin> span lo (frame_top (j + n)) \<longrightarrow> y \<notin> bitmap_bytes s \<longrightarrow> mem t y = mem s y)"
proof -
  let ?U = "frame_addr ` {j..<j + n}"
  define s0 where "s0 = kprintf ''KHeap: Expanding heap by %zu pages\<newline>'' [VWord (pages_needed k)] s"
  have m0: "mem s0 = mem s" "free_list_head s0 = free_list_head s" "bitmap_bytes s0 = bitmap_bytes s"
    "free_frames s0 = free_frames s" by (simp_all add: s0_def bitmap_bytes_def)
  have n0: "0 < n" using n pages_needed_pos by simp
  note D = heap_invD [OF kinvD(2) [OF K]]
  obtain s1 where s1: "expand_loop n 0 s0 = (Some (frame_addr j), s1)"
      "kinv (B \<union> ?U) (F \<union> ?U) 0 lo (j + n) s1" "gains B ?U s0 s1" "?U \<inter> B = {}"
      "free_frames s1 = free_frames s - {j..<j + n}"
    using expand_loop_kinv [of B F lo j s0 n 0] K room n0 m0(4) by (auto simp: s0_def)
  let ?nb = "frame_addr j"
  have U: "?nb \<in> ?U" using n0 by simp
  note D1 = heap_invD [OF kinvD(2) [OF s1(2)]]
  have nz: "?nb \<noteq> 0" using tiled_nonzero [OF D1(1)] U by blast
  have "?nb \<notin> B" using U s1(4) by blast
  then have hd: "free_list_head s1 \<noteq> ?nb"
    using s1(3) D(7) nz m0(2) by (auto simp: gains_def)
  have orph: "hb_next_free (hdr (mem s1) ?nb) = 0" "hb_prev_free (hdr (mem s1) ?nb) = 0"
    "hb_size (hdr (mem s1) ?nb) = 4048" using s1(3) U by (auto simp: gains_def)
  have nbF: "?nb \<in> F \<union> ?U" using U by blast
  define t where "t = finish_expand ?nb s1"
  obtain B' F' where 2: "heap_inv B' F' 0 lo (frame_top (j + n)) t" "B' - F' = (B \<union> ?U) - (F \<union> ?U)"
      "touches (hdrs (B \<union> ?U)) s1 t"
      "\<forall>c \<in> (B \<union> ?U) - (F \<union> ?U). hb_size (hdr (mem t) c) = hb_size (hdr (mem s1) c)"
      "free_list_head t \<noteq> 0" "4048 \<le> hb_size (hdr (mem t) (free_list_head t))"
    using finish_expand_step [OF kinvD(2) [OF s1(2)] nbF orph(1,2) hd orph(3), folded t_def] by blast
  have live: "(B \<union> ?U) - (F \<union> ?U) = B - F" using s1(4) by blast
  note T = kinv_touches [OF s1(2) 2(3) hdrs_span [OF D1(1)] 2(1)]
  have bm: "bitmap_bytes s1 = bitmap_bytes s" using s1(3) m0(3) by (simp add: gains_def)
  have fr: "mem t y = mem s y"
    if y: "y \<notin> hdrs B" "y \<notin> bitmap_bytes s" "y \<notin> span (frame_top j) (frame_top (j + n))" for y
  proof -
    have "y \<notin> region f 4096" if "f \<in> ?U" for f using frame_regions_span(1) [OF room that] y(3) by blast
    moreover then have "y \<notin> hdrs (B \<union> ?U)" using y(1) region_mono [of 48 4096] by (auto simp: hdrs_def)
    ultimately show ?thesis using y 2(3) s1(3) m0 by (simp add: gains_def touches_def)
  qed
  have "keeps (B - F) s t"
    unfolding keeps_def
  proof (intro ballI conjI)
    fix c assume c: "c \<in> B - F"
    show "hb_size (hdr (mem t) c) = hb_size (hdr (mem s) c)"
      using 2(4) live s1(3) c m0(1) by (auto simp: gains_def)
    fix y assume y: "y \<in> region (c + 48) (unat (hb_size (hdr (mem s) c)))"
    have cB: "c \<in> B" using c by blast
    have "y \<in> span lo (frame_top j)" using block_span(2) [OF D(1) cB] y by blast
    then show "mem t y = mem s y"
      using data_hdrs_disjoint [OF D(1) cB] y kinvD(4) [OF K] by (intro fr) (auto simp: span_def)
  qed
  moreover have "mem t y = mem s y" if "y \<notin> span lo (frame_top (j + n))" "y \<notin> bitmap_bytes s" for y
  proof (rule fr)
    have lo: "lo \<le> frame_top j" using tiled_block(1,2) [OF D(1) tiledD(5) [OF D(1)]] 
      by (simp add: blk_end_def)
    show "y \<notin> hdrs B" using hdrs_span [OF D(1)] that(1) by (auto simp: span_def)
    show "y \<notin> span (frame_top j) (frame_top (j + n))" using that(1) lo by (auto simp: span_def)
  qed (rule that(2))
  moreover have "expand_heap k s = (True, t)"
    using s1(1) nz n by (simp add: expand_heap_finish s0_def t_def)
  ultimately show ?thesis
    using T s1(5) bm 2(2,5,6) live by (intro exI [of _ t] exI [of _ B'] exI [of _ F']) simp
qed

end
