(* ===== verification/Kheap_Spec.thy ===== *)
theory Kheap_Spec
  imports Kheap_Grow
begin

text \<open>
  What the heap promises to its callers: the allocated blocks of a state as a finite map
  from data pointers to sizes, the invariant, and the effect of \<open>kheap_init\<close>,
  \<open>kmalloc\<close> and \<open>kfree\<close> on them.
\<close>

section \<open>Blocks of a state\<close>

inductive_set heap_blocks :: "'a kheap_scheme \<Rightarrow> addr set" for s where
  first: "heap_start s \<noteq> 0 \<Longrightarrow> heap_start s \<in> heap_blocks s"
| next': "b \<in> heap_blocks s \<Longrightarrow> hb_next (hdr (mem s) b) \<noteq> 0 \<Longrightarrow> hb_next (hdr (mem s) b) \<in> heap_blocks s"

definition live :: "'a kheap_scheme \<Rightarrow> addr \<Rightarrow> nat option" where
  "live s p =
     (if p - 48 \<in> heap_blocks s \<and> \<not> hb_is_free (hdr (mem s) (p - 48))
      then Some (unat (hb_size (hdr (mem s) (p - 48)))) else None)"

definition kheap_inv :: "'a kheap_scheme \<Rightarrow> bool" where
  "kheap_inv s \<longleftrightarrow> (\<exists>B F lo j. kinv B F 0 lo j s)"

text \<open>The frame behind the last block, and the room to grow there.\<close>

definition frontier :: "'a kheap_scheme \<Rightarrow> nat" where
  "frontier s = (blk_end (hdr (mem s)) (heap_end s) - 0x40000000) div 4096"

definition room :: "nat \<Rightarrow> 'a kheap_scheme \<Rightarrow> bool" where
  "room n s \<longleftrightarrow> {frontier s..<frontier s + n} \<subseteq> free_frames s"

text \<open>The memory the heap owns.\<close>

definition heap_range :: "'a kheap_scheme \<Rightarrow> addr set" where
  "heap_range s = span (unat (heap_start s)) (frame_top (frontier s))"

lemma tiled_reachable:
  assumes T: "tiled B (hdr (mem s)) (heap_start s) (heap_end s) lo hi"
  shows "heap_blocks s = B"
proof
  show "heap_blocks s \<subseteq> B"
  proof
    fix b assume "b \<in> heap_blocks s"
    then show "b \<in> B"
    proof induction
      case first
      show ?case by (rule tiledD(4) [OF T])
    next
      case (next' b)
      then show ?case using tiled_next_nonzero [OF T, of b] tiled_block(5) [OF T, of b] by simp
    qed
  qed
  have "b \<in> heap_blocks s" if "b \<in> B" for b
    using that
  proof (induction "unat b" arbitrary: b rule: less_induct)
    case less
    show ?case
    proof (cases "b = heap_start s")
      case True
      then show ?thesis using heap_blocks.first tiled_nonzero [OF T less.prems] by blast
    next
      case False
      let ?p = "hb_prev (hdr (mem s) b)"
      note P = tiled_block(8,9) [OF T less.prems False]
      have "?p \<noteq> heap_end s" using P tiledD(9) [OF T] tiled_nonzero [OF T less.prems] by auto
      then have "unat ?p < unat b"
        using tiled_block(6) [OF T P(1)] P(2) blk_end_unfold(2) [of ?p "hdr (mem s)"] by simp
      then have "?p \<in> heap_blocks s" using less.hyps P(1) by blast
      then show ?thesis using heap_blocks.next' [of ?p s] P(2) tiled_nonzero [OF T less.prems] by simp
    qed
  qed
  then show "B \<subseteq> heap_blocks s" by blast
qed

lemma kinv_abs:
  assumes "kinv B F 0 lo j s"
  shows "heap_blocks s = B" "frontier s = j" "unat (heap_start s) = lo"
    "heap_range s = span lo (frame_top j)"
    "live s p = (if p - 48 \<in> B - F then Some (unat (hb_size (hdr (mem s) (p - 48)))) else None)"
proof -
  note D = heap_invD [OF kinvD(2) [OF assms]]
  show b: "heap_blocks s = B" by (rule tiled_reachable [OF D(1)])
  show f: "frontier s = j" using tiledD(8) [OF D(1)] by (simp add: frontier_def)
  show l: "unat (heap_start s) = lo" by (rule tiledD(6) [OF D(1)])
  show "heap_range s = span lo (frame_top j)" by (simp add: heap_range_def l f)
  show "live s p = (if p - 48 \<in> B - F then Some (unat (hb_size (hdr (mem s) (p - 48)))) else None)"
    using D(4) [of "p - 48"] tiled_nonzero [OF D(1), of "p - 48"] by (auto simp: live_def b)
qed

lemma live_disjoint:
  assumes "kheap_inv s" and "live s p = Some n" and "live s q = Some m" and "p \<noteq> q"
  shows "region p n \<inter> region q m = {}"
proof -
  obtain B F lo j where K: "kinv B F 0 lo j s" using assms(1) by (auto simp: kheap_inv_def)
  note T = heap_invD(1) [OF kinvD(2) [OF K]]
  have p: "p - 48 \<in> B" "n = unat (hb_size (hdr (mem s) (p - 48)))"
    using assms(2) by (auto simp: kinv_abs(5) [OF K] split: if_splits)
  have q: "q - 48 \<in> B" "m = unat (hb_size (hdr (mem s) (q - 48)))"
    using assms(3) by (auto simp: kinv_abs(5) [OF K] split: if_splits)
  have "p - 48 \<noteq> q - 48" using assms(4) by simp
  from tiled_sep [OF T p(1) q(1) this] show ?thesis
    using data_region(2) [OF T p(1)] data_region(2) [OF T q(1)] by (auto simp: p(2) q(2))
qed

lemma live_aligned:
  assumes "kheap_inv s" and "live s p = Some n"
  shows "8 dvd unat p" and "p \<noteq> 0" and "region p n \<subseteq> heap_range s" and "unat p + n \<le> 0x80000000"
proof -
  obtain B F lo j where K: "kinv B F 0 lo j s" using assms(1) by (auto simp: kheap_inv_def)
  note T = heap_invD(1) [OF kinvD(2) [OF K]]
  have p: "p - 48 \<in> B" "n = unat (hb_size (hdr (mem s) (p - 48)))"
    using assms(2) by (auto simp: kinv_abs(5) [OF K] split: if_splits)
  have le: "unat (p - 48) + 48 + n \<le> 0x80000000"
    using tiled_block(2) [OF T p(1)] tiledD(3) [OF T] p(2) by (simp add: blk_end_def)
  have u: "unat (p - 48 + 48) = unat (p - 48) + 48"
    using le by (subst unat_add_no_wrap) simp_all
  then have u': "unat p = unat (p - 48) + 48" by simp
  then show "8 dvd unat p" "p \<noteq> 0" using tiled_block(3) [OF T p(1)] by auto
  show "unat p + n \<le> 0x80000000" using le u' by simp
  show "region p n \<subseteq> heap_range s"
    using block_span(2) [OF T p(1)] by (simp add: kinv_abs(4) [OF K] p(2))
qed

section \<open>Sizes\<close>

lemma and_not_mask_shift: "(x :: u64) AND NOT (mask n) = push_bit n (drop_bit n x)"
  by (rule bit_word_eqI) (auto simp: bit_simps)

lemma align8_shift: "align8 k = push_bit 3 (drop_bit 3 (k + 7))"
proof -
  have "align8 k = (k + 7) AND NOT (mask 3)" by (simp add: align8_def mask_eq_exp_minus_1 add.commute)
  then show ?thesis by (simp only: and_not_mask_shift)
qed

lemma unat_align8:
  assumes "unat k + 7 < 2 ^ 64"
  shows "unat (align8 k) = (unat k + 7) div 8 * 8"
proof -
  have k: "unat (k + 7) = unat k + 7" using assms by (simp add: unat_word_ariths)
  have "unat (drop_bit 3 (k + 7)) = (unat k + 7) div 8" by (simp add: drop_bit_eq_div unat_div k)
  moreover have "(unat k + 7) div 8 * 8 < 2 ^ 64" using assms by (meson div_times_less_eq_dividend le_less_trans)
  ultimately show ?thesis by (simp add: align8_shift push_bit_eq_mult unat_word_ariths mult.commute)
qed

lemma align8_dvd: "8 dvd unat (align8 k)"
  by (simp add: align8_shift push_bit_eq_mult unat_word_ariths dvd_mod)
lemma align8_ge: "unat k + 7 < 2 ^ 64 \<Longrightarrow> unat k \<le> unat (align8 k)"
  by (simp add: unat_align8)

section \<open>Allocation\<close>

lemma takes_keeps:
  assumes K: "kinv B F 0 lo j s" and b: "b \<in> F" and T: "takes B F b n s B' F' t"
  shows "keeps (B - F) s t"
  unfolding keeps_def
proof (intro ballI conjI)
  fix c assume c: "c \<in> B - F"
  show "hb_size (hdr (mem t) c) = hb_size (hdr (mem s) c)" using T c by (simp add: takes_def)
  note D = heap_invD [OF kinvD(2) [OF K]]
  have bc: "b \<in> B" "c \<in> B" "c \<noteq> b" using b c D(2) by auto
  fix y assume y: "y \<in> region (c + 48) (unat (hb_size (hdr (mem s) c)))"
  have "y \<notin> region b (48 + unat (hb_size (hdr (mem s) b)))"
    using y tiled_sep [OF D(1) bc(2,1,3)] data_region(2) [OF D(1) bc(2)] data_region(1) [OF D(1) bc(1)] by auto
  then show "mem t y = mem s y"
    using T y data_hdrs_disjoint [OF D(1) bc(2)] by (auto simp: takes_def touches_def)
qed

text \<open>
  What a successful or failing allocation of \<open>n\<close> bytes does to the allocated blocks: either
  it returns null and they stay, or it adds one, new and zeroed, of at least \<open>n\<close> bytes.
\<close>

definition allocates :: "addr set \<Rightarrow> u64 \<Rightarrow> 'a kheap_scheme \<Rightarrow> addr \<Rightarrow> addr set \<Rightarrow> 'a kheap_scheme \<Rightarrow> bool" where
  "allocates A n s p A' t \<longleftrightarrow> keeps A s t \<and>
     (if p = 0 then A' = A
      else p - 48 \<notin> A \<and> A' = insert (p - 48) A \<and> n \<le> hb_size (hdr (mem t) (p - 48))
           \<and> hb_size (hdr (mem t) (p - 48)) < n + 96
           \<and> (\<forall>y \<in> region p (unat (hb_size (hdr (mem t) (p - 48)))). mem t y = 0))"

lemma take_block_kinv:
  assumes K: "kinv B F 0 lo j s" and b: "b \<in> F" and n: "n \<le> hb_size (hdr (mem s) b)" "8 dvd unat n"
    and p: "take_block b n s = (p, t)"
  shows "\<exists>B' F'. kinv B' F' 0 lo j t \<and> allocates (B - F) n s p (B' - F') t \<and> p \<noteq> 0
    \<and> free_frames t = free_frames s \<and> bitmap_bytes t = bitmap_bytes s
    \<and> (\<forall>y. y \<notin> span lo (frame_top j) \<longrightarrow> mem t y = mem s y)"
proof -
  note D = heap_invD [OF kinvD(2) [OF K]]
  have bB: "b \<in> B" using b D(2) by blast
  obtain B' F' where t: "p = b + 48" "heap_inv B' F' 0 lo (frame_top j) t" "takes B F b n s B' F' t"
    using take_block_step [OF kinvD(2) [OF K] b n p] by blast
  let ?R = "hdrs B \<union> region b (48 + unat (hb_size (hdr (mem s) b)))"
  have R: "?R \<subseteq> span lo (frame_top j)" using hdrs_span [OF D(1)] block_span(1) [OF D(1) bB] by blast
  have tc: "touches ?R s t" using t(3) by (simp add: takes_def)
  note T = kinv_touches [OF K tc R t(2)]
  have "unat (b + 48) = unat b + 48"
    using tiled_low [OF D(1) bB] by (subst unat_add_no_wrap) auto
  then have p0: "p \<noteq> 0" using t(1) by auto
  have "allocates (B - F) n s p (B' - F') t"
    using takes_keeps [OF K b t(3)] t(1,3) p0 b by (auto simp: allocates_def takes_def)
  moreover have "mem t y = mem s y" if "y \<notin> span lo (frame_top j)" for y
    using tc R that by (auto simp: touches_def)
  ultimately show ?thesis using T p0 by blast
qed

lemma kmalloc_step:
  assumes K: "kinv B F 0 lo j s" and k: "k \<noteq> 0" and N: "N = unat (pages_needed (align8 k + 48))"
    and room: "{j..<j + N} \<subseteq> free_frames s"
  shows "\<exists>p t B' F' j'. kmalloc k s = Some (p, t) \<and> kinv B' F' 0 lo j' t \<and> j \<le> j' \<and> j' \<le> j + N
    \<and> allocates (B - F) (align8 k) s p (B' - F') t
    \<and> (align8 k \<le> 4048 \<longrightarrow> p \<noteq> 0) \<and> free_frames t = free_frames s - {j..<j'} \<and> bitmap_bytes t = bitmap_bytes s
    \<and> (\<forall>y. y \<notin> span lo (frame_top j') \<longrightarrow> y \<notin> bitmap_bytes s \<longrightarrow> mem t y = mem s y)"
proof -
  let ?n = "align8 k"
  obtain r where r: "first_fit (mem s) (free_list_head s) ?n = Some r"
      "r \<noteq> 0 \<longrightarrow> r \<in> F \<and> ?n \<le> hb_size (hdr (mem s) r)"
    using first_fit_total [OF kinvD(2) [OF K]] by blast
  show ?thesis
  proof (cases "r = 0")
    case False
    obtain p t where pt: "take_block r ?n s = (p, t)" by fastforce
    then have km: "kmalloc k s = Some (p, t)" using k r(1) False by (simp add: kmalloc_def)
    obtain B' F' where t: "kinv B' F' 0 lo j t" "allocates (B - F) ?n s p (B' - F') t" "p \<noteq> 0"
        "free_frames t = free_frames s" "bitmap_bytes t = bitmap_bytes s"
        "\<forall>y. y \<notin> span lo (frame_top j) \<longrightarrow> mem t y = mem s y"
      using take_block_kinv [OF K _ _ align8_dvd pt] r(2) False by blast
    then show ?thesis
      using km by (intro exI [of _ p] exI [of _ t] exI [of _ B'] exI [of _ F'] exI [of _ j]) simp
  next
    case True
    obtain s1 B1 F1 where e: "expand_heap (?n + 48) s = (True, s1)" "kinv B1 F1 0 lo (j + N) s1" "B1 - F1 = B - F"
        "keeps (B - F) s s1" "free_list_head s1 \<noteq> 0" "4048 \<le> hb_size (hdr (mem s1) (free_list_head s1))"
        "free_frames s1 = free_frames s - {j..<j + N}" "bitmap_bytes s1 = bitmap_bytes s"
        "\<forall>y. y \<notin> span lo (frame_top (j + N)) \<longrightarrow> y \<notin> bitmap_bytes s \<longrightarrow> mem s1 y = mem s y"
      using expand_heap_step [OF K N room] by metis
    obtain r1 where r1: "first_fit (mem s1) (free_list_head s1) ?n = Some r1"
        "r1 \<noteq> 0 \<longrightarrow> r1 \<in> F1 \<and> ?n \<le> hb_size (hdr (mem s1) r1)"
      using first_fit_total [OF kinvD(2) [OF e(2)]] by blast
    have big: "r1 \<noteq> 0" if "?n \<le> 4048"
    proof -
      have "?n \<le> hb_size (hdr (mem s1) (free_list_head s1))" using that e(6) by (rule order_trans)
      then have "first_fit (mem s1) (free_list_head s1) ?n = Some (free_list_head s1)"
        using e(5) by (subst first_fit.simps) simp
      then show ?thesis using r1(1) e(5) by simp
    qed
    show ?thesis
    proof (cases "r1 = 0")
      case True
      then obtain f as where km: "kmalloc k s = Some (0, kprintf f as s1)"
        using k r(1) \<open>r = 0\<close> e(1) r1(1) by (simp add: kmalloc_def)
      have m: "mem (kprintf f as s1) = mem s1" by (simp add: kprintf_def)
      have "kinv B1 F1 0 lo (j + N) (kprintf f as s1)" using e(2) by simp
      moreover have "bitmap_bytes (kprintf f as s1) = bitmap_bytes s" using e(8) by (simp add: bitmap_bytes_def)
      ultimately show ?thesis
        using km e(3,4,7,9) big True m
        by (intro exI [of _ 0] exI [of _ "kprintf f as s1"] exI [of _ B1] exI [of _ F1] exI [of _ "j + N"])
          (auto simp: allocates_def keeps_def)
    next
      case False
      obtain p t where pt: "take_block r1 ?n s1 = (p, t)" by fastforce
      have km: "kmalloc k s = Some (p, t)" using k r(1) \<open>r = 0\<close> e(1) r1(1) False pt by (simp add: kmalloc_def)
      obtain B' F' where t: "kinv B' F' 0 lo (j + N) t" "allocates (B1 - F1) ?n s1 p (B' - F') t" "p \<noteq> 0"
          "free_frames t = free_frames s1" "bitmap_bytes t = bitmap_bytes s1"
          "\<forall>y. y \<notin> span lo (frame_top (j + N)) \<longrightarrow> mem t y = mem s1 y"
        using take_block_kinv [OF e(2) _ _ align8_dvd pt] r1(2) False by blast
      have "allocates (B - F) ?n s p (B' - F') t"
        using t(2) e(3,4) keeps_trans [of "B - F" s s1 t] by (auto simp: allocates_def)
      then show ?thesis
        using km t e(7,8,9)
        by (intro exI [of _ p] exI [of _ t] exI [of _ B'] exI [of _ F'] exI [of _ "j + N"]) simp
    qed
  qed
qed

section \<open>Contracts\<close>

text \<open>The pages by which a call may have to grow the heap.\<close>

definition kmalloc_pages :: "u64 \<Rightarrow> nat" where
  "kmalloc_pages k = unat (pages_needed (align8 k + 48))"

lemma keeps_live:
  assumes "kinv B F 0 lo j s" and "keeps (B - F) s t" and "live s q = Some m" and "y \<in> region q m"
  shows "mem t y = mem s y"
proof -
  have "q - 48 \<in> B - F" "m = unat (hb_size (hdr (mem s) (q - 48)))"
    using assms(3) by (auto simp: kinv_abs(5) [OF assms(1)] split: if_splits)
  moreover have "q - 48 + 48 = q" by simp
  ultimately show ?thesis using assms(2,4) unfolding keeps_def by metis
qed

lemma allocates_live:
  assumes K: "kinv B F 0 lo j s" and K': "kinv B' F' 0 lo j' t" and A: "allocates (B - F) n s p (B' - F') t"
  shows "p = 0 \<Longrightarrow> live t = live s"
    and "p \<noteq> 0 \<Longrightarrow> \<exists>m. unat n \<le> m \<and> m < unat (n + 96) \<and> live s p = None \<and> live t = (live s)(p \<mapsto> m)
       \<and> (\<forall>y \<in> region p m. mem t y = 0)"
proof -
  note l = kinv_abs(5) [OF K] and l' = kinv_abs(5) [OF K']
  have sz: "hb_size (hdr (mem t) c) = hb_size (hdr (mem s) c)" if "c \<in> B - F" for c
    using A that by (simp add: allocates_def keeps_def)
  show "live t = live s" if "p = 0"
  proof
    fix q
    have "B' - F' = B - F" using A that by (simp add: allocates_def)
    then show "live t q = live s q" unfolding l l' using sz by simp
  qed
  show "\<exists>m. unat n \<le> m \<and> m < unat (n + 96) \<and> live s p = None \<and> live t = (live s)(p \<mapsto> m)
       \<and> (\<forall>y \<in> region p m. mem t y = 0)" if p: "p \<noteq> 0"
  proof (intro exI conjI)
    let ?m = "unat (hb_size (hdr (mem t) (p - 48)))"
    have b: "p - 48 \<notin> B - F" "B' - F' = insert (p - 48) (B - F)" using A p by (auto simp: allocates_def)
    show "unat n \<le> ?m" "?m < unat (n + 96)" "\<forall>y \<in> region p ?m. mem t y = 0"
      using A p by (auto simp: allocates_def word_le_nat_alt word_less_nat_alt)
    show "live s p = None" using b(1) by (simp only: l if_False)
    show "live t = (live s)(p \<mapsto> ?m)"
    proof
      fix q
      show "live t q = ((live s)(p \<mapsto> ?m)) q"
        unfolding fun_upd_apply l l' b(2) using sz b(1) by (cases "q = p") auto
    qed
  qed
qed

lemma kmalloc_contract:
  assumes "kheap_inv s" and k: "k \<noteq> 0" and "room (kmalloc_pages k + r) s"
  shows "\<exists>p t. kmalloc k s = Some (p, t) \<and> kheap_inv t \<and> room r t \<and> (align8 k \<le> 4048 \<longrightarrow> p \<noteq> 0)
    \<and> (p = 0 \<longrightarrow> live t = live s)
    \<and> (p \<noteq> 0 \<longrightarrow> (\<exists>m. unat (align8 k) \<le> m \<and> m < unat (align8 k + 96) \<and> live s p = None
         \<and> live t = (live s)(p \<mapsto> m) \<and> (\<forall>y \<in> region p m. mem t y = 0)))
    \<and> (\<forall>q m. live s q = Some m \<longrightarrow> (\<forall>y \<in> region q m. mem t y = mem s y))
    \<and> (\<forall>y. y \<notin> heap_range t \<longrightarrow> y \<notin> bitmap_bytes s \<longrightarrow> mem t y = mem s y)"
proof -
  obtain B F lo j where K: "kinv B F 0 lo j s" using assms(1) by (auto simp: kheap_inv_def)
  have rm: "{j..<j + (kmalloc_pages k + r)} \<subseteq> free_frames s"
    using assms(3) kinv_abs(2) [OF K] by (simp add: room_def)
  then have rm': "{j..<j + kmalloc_pages k} \<subseteq> free_frames s" by auto
  obtain p t B' F' j' where t: "kmalloc k s = Some (p, t)" "kinv B' F' 0 lo j' t" "j \<le> j'" "j' \<le> j + kmalloc_pages k"
      "allocates (B - F) (align8 k) s p (B' - F') t" "align8 k \<le> 4048 \<longrightarrow> p \<noteq> 0"
      "free_frames t = free_frames s - {j..<j'}" "bitmap_bytes t = bitmap_bytes s"
      "\<forall>y. y \<notin> span lo (frame_top j') \<longrightarrow> y \<notin> bitmap_bytes s \<longrightarrow> mem t y = mem s y"
    using kmalloc_step [OF K k kmalloc_pages_def rm'] by metis
  have "room r t" unfolding room_def kinv_abs(2) [OF t(2)] t(7) using rm t(3,4) by fastforce
  moreover have "kheap_inv t" using t(2) by (auto simp: kheap_inv_def)
  moreover have "keeps (B - F) s t" using t(5) by (simp add: allocates_def)
  then have "\<forall>q m. live s q = Some m \<longrightarrow> (\<forall>y \<in> region q m. mem t y = mem s y)"
    using keeps_live [OF K] by blast
  ultimately show ?thesis
    using t(1,6,9) allocates_live [OF K t(2,5)] kinv_abs(4) [OF t(2)]
    by (intro exI [of _ p] exI [of _ t]) simp
qed

lemma kfree_contract:
  assumes "kheap_inv s" and p: "live s p = Some n"
  defines "t \<equiv> kfree p s"
  shows "kheap_inv t" and "live t = (live s)(p := None)"
    and "\<And>q m y. live t q = Some m \<Longrightarrow> y \<in> region q m \<Longrightarrow> mem t y = mem s y"
    and "\<And>y. y \<notin> heap_range s \<Longrightarrow> mem t y = mem s y"
    and "free_frames t = free_frames s" and "frontier t = frontier s"
proof -
  obtain B F lo j where K: "kinv B F 0 lo j s" using assms(1) by (auto simp: kheap_inv_def)
  note D = heap_invD [OF kinvD(2) [OF K]]
  have b: "p - 48 \<in> B" "p - 48 \<notin> F" using p by (auto simp: kinv_abs(5) [OF K] split: if_splits)
  have "p - 48 + 48 = p" by simp
  then obtain B' F' where t: "heap_inv B' F' 0 lo (frame_top j) t" "touches (hdrs B) s t"
      "B' - F' = B - F - {p - 48}" "\<forall>c \<in> B' - F'. hb_size (hdr (mem t) c) = hb_size (hdr (mem s) c)"
    using kfree_step [OF kinvD(2) [OF K] b] unfolding t_def by metis
  note T = kinv_touches [OF K t(2) hdrs_span [OF D(1)] t(1)]
  show "kheap_inv t" using T(1) by (auto simp: kheap_inv_def)
  show "free_frames t = free_frames s" by (rule T(2))
  show "frontier t = frontier s" by (simp add: kinv_abs(2) [OF T(1)] kinv_abs(2) [OF K])
  show l: "live t = (live s)(p := None)"
  proof
    fix q
    show "live t q = ((live s)(p := None)) q"
      unfolding fun_upd_apply kinv_abs(5) [OF T(1)] kinv_abs(5) [OF K] t(3)
      using t(3,4) by (cases "q = p") auto
  qed
  show "mem t y = mem s y" if q: "live t q = Some m" and y: "y \<in> region q m" for q m y
  proof -
    have "live s q = Some m" using q l by (auto split: if_splits)
    then have "q - 48 \<in> B" "m = unat (hb_size (hdr (mem s) (q - 48)))"
      by (auto simp: kinv_abs(5) [OF K] split: if_splits)
    moreover have "q - 48 + 48 = q" by simp
    ultimately have "y \<notin> hdrs B" using data_hdrs_disjoint [OF D(1), of "q - 48"] y by auto
    then show ?thesis using t(2) by (simp add: touches_def)
  qed
  show "mem t y = mem s y" if "y \<notin> heap_range s" for y
    using t(2) hdrs_span [OF D(1)] that by (auto simp: touches_def kinv_abs(4) [OF K])
qed

section \<open>Initialisation\<close>

lemma first_frame_kinv:
  assumes pmm: "pmm_inv s" and j: "j \<in> free_frames s" "\<forall>i \<in> free_frames s. j \<le> i"
    and z: "heap_end s = 0" "free_list_head s = 0"
  defines "f \<equiv> frame_addr j"
  defines "t \<equiv> link_frame f (take_frame j s)"
  shows "kinv {f} {f} 0 (frame_top j) (Suc j) t" and "gains {} {f} s t"
    and "free_frames t = free_frames s - {j}" and "alloc_frame s = (f, take_frame j s)"
proof -
  have jb: "j < PMM_TOTAL_FRAMES" by (rule free_frames_bound [OF j(1)])
  have fu: "unat f = frame_top j" using unat_frame_addr [OF jb] by (simp add: f_def)
  have hi: "frame_top j + 4096 \<le> 0x80000000" using jb by simp
  let ?H = "(hdr (mem s))(f := hdr (mem (take_frame j s)) f)"
  have T: "tiled {f} (v_link ?H 0 f) f f (frame_top j) (frame_top (Suc j))"
    using tiled_first [of f ?H] fu hi by simp
  have e: "hdrs {} = {}" by (simp add: hdrs_def)
  have sep: "separate {frame_addr j}" by (simp add: separate_def)
  note L = link_fresh [where B = "{}", simplified e, OF pmm j(1) _ _ sep, simplified, simplified z, simplified,
      folded f_def, folded t_def]
  show "gains {} {f} s t" by (rule L(2))
  show ff: "free_frames t = free_frames s - {j}" by (rule L(4))
  have "Min (free_frames s) = j" using j by (intro Min_eqI) auto
  then show "alloc_frame s = (f, take_frame j s)" using j(1) by (subst alloc_frame_some) (auto simp: f_def)
  have ht: "heap_end t = f" "heap_start t = f" "free_list_head t = 0" using z by (simp_all add: t_def)
  have "heap_inv {f} {f} 0 (frame_top j) (frame_top (Suc j)) t"
  proof (rule heap_invI [OF L(1)])
    have "hdr (mem t) f = v_link ?H 0 f f" by (rule reach_read [OF L(1)]) simp
    then have "hb_next_free (v_link ?H 0 f f) = 0" "hb_prev_free (v_link ?H 0 f f) = 0"
      using L(2) by (auto simp: gains_def)
    then show "listed {f} (v_link ?H 0 f) (free_list_head t)" using fu ht by (auto simp: listed_def)
  qed (use T ht in \<open>simp_all add: view_simps\<close>)
  moreover have "region f 4096 \<inter> bitmap_bytes s = {}"
    unfolding f_def by (rule pmm_inv_frame_bitmap_disjoint [OF pmm j(1)])
  moreover have "region f 4096 = span (frame_top j) (frame_top (Suc j))"
    using fu hi by (auto simp: span_def in_region_nat)
  ultimately show "kinv {f} {f} 0 (frame_top j) (Suc j) t"
    using L(2,3) ff j(2) by (auto simp: kinv_def gains_def le_neq_implies_less Suc_le_eq)
qed

lemma kinv_no_pages: "unat (pages_needed (PAGE_SIZE * 4)) = 5"
  by (simp add: pages_needed_def)

lemma pmm_fields_heads [simp]:
  "pmm_inv (s\<lparr>free_list_head := a\<rparr>) = pmm_inv s" "pmm_inv (s\<lparr>heap_start := a\<rparr>) = pmm_inv s"
  "pmm_inv (s\<lparr>heap_end := a\<rparr>) = pmm_inv s"
  "free_frames (s\<lparr>free_list_head := a\<rparr>) = free_frames s" "free_frames (s\<lparr>heap_start := a\<rparr>) = free_frames s"
  "free_frames (s\<lparr>heap_end := a\<rparr>) = free_frames s"
proof -
  show f: "free_frames (s\<lparr>free_list_head := a\<rparr>) = free_frames s" "free_frames (s\<lparr>heap_start := a\<rparr>) = free_frames s"
    "free_frames (s\<lparr>heap_end := a\<rparr>) = free_frames s" by (rule free_frames_cong; simp)+
  show "pmm_inv (s\<lparr>free_list_head := a\<rparr>) = pmm_inv s" "pmm_inv (s\<lparr>heap_start := a\<rparr>) = pmm_inv s"
    "pmm_inv (s\<lparr>heap_end := a\<rparr>) = pmm_inv s" by (simp_all add: pmm_inv_def bitmap_bytes_def f)
qed

lemma expand_empty:
  assumes pmm: "pmm_inv s" and z: "heap_end s = 0" "free_list_head s = 0" and n: "n = unat (pages_needed k)"
    and j: "{j..<j + n} \<subseteq> free_frames s" "\<forall>i \<in> free_frames s. j \<le> i"
  defines "t \<equiv> snd (expand_heap k s)" and "U \<equiv> frame_addr ` {j..<j + n}"
  shows "fst (expand_heap k s)" and "kinv U U 0 (frame_top j) (j + n) t" and "free_list_head t = frame_addr j"
    and "\<forall>c \<in> U. hb_size (hdr (mem t) c) = 4048 \<and> hb_next_free (hdr (mem t) c) = 0 \<and> hb_prev_free (hdr (mem t) c) = 0"
    and "free_frames t = free_frames s - {j..<j + n}" and "bitmap_bytes t = bitmap_bytes s"
    and "y \<notin> span (frame_top j) (frame_top (j + n)) \<Longrightarrow> y \<notin> bitmap_bytes s \<Longrightarrow> mem t y = mem s y"
proof -
  let ?f = "frame_addr j"
  obtain n' where n': "n = Suc n'" using pages_needed_pos [of k] n by (metis Suc_pred)
  define s0 where "s0 = kprintf ''KHeap: Expanding heap by %zu pages\<newline>'' [VWord (pages_needed k)] s"
  have s0: "pmm_inv s0" "free_frames s0 = free_frames s" "heap_end s0 = 0" "free_list_head s0 = 0"
    "bitmap_bytes s0 = bitmap_bytes s"
    using pmm z by (simp_all add: s0_def bitmap_bytes_def)
  have j0: "j \<in> free_frames s0" "\<forall>i \<in> free_frames s0. j \<le> i" using j s0(2) n' by auto
  define s1 where "s1 = link_frame ?f (take_frame j s0)"
  note L = first_frame_kinv [OF s0(1) j0 s0(3,4), folded s1_def]
  have f0: "?f \<noteq> 0" using heap_invD(1) [OF kinvD(2) [OF L(1)]] tiled_nonzero by blast
  have rm: "{Suc j..<Suc j + n'} \<subseteq> free_frames s1" using L(3) j s0(2) n' by auto
  have ins: "{j..<j + n} = insert j {Suc j..<Suc j + n'}" using n' by auto
  have U: "U = insert ?f (frame_addr ` {Suc j..<Suc j + n'})" unfolding U_def ins by (rule image_insert)
  obtain s2 where 2: "expand_loop n' ?f s1 = (Some ?f, s2)" "kinv U U 0 (frame_top j) (j + n) s2"
      "gains {?f} (frame_addr ` {Suc j..<Suc j + n'}) s1 s2" "free_frames s2 = free_frames s1 - {Suc j..<Suc j + n'}"
    using expand_loop_kinv [OF L(1) rm, of ?f] f0 U n' by (auto simp: add.commute)
  have g: "gains {} U s0 s2" using gains_trans [OF L(2)] 2(3) U by simp
  note D = heap_invD [OF kinvD(2) [OF 2(2)]]
  have fU: "?f \<in> U" using U by blast
  have jb: "j < PMM_TOTAL_FRAMES" using j0(1) by (rule free_frames_bound)
  have hs: "heap_start s2 = ?f"
    using tiledD(6) [OF D(1)] unat_frame_addr [OF jb] by (simp add: word_unat_eq_iff)
  have "hb_prev (hdr (mem s2) ?f) = 0" using tiledD(7) [OF D(1)] hs by simp
  then have fin: "finish_expand ?f s2 = add_to_free_list ?f s2" by (simp add: finish_expand_def Let_def)
  have "expand_loop n 0 s0 = (Some ?f, s2)"
    using 2(1) L(4) f0 by (simp add: n' s1_def)
  then have ex: "expand_heap k s = (True, add_to_free_list ?f s2)"
    using f0 unfolding expand_heap_finish s0_def [symmetric] n [symmetric] by (simp add: fin)
  then show "fst (expand_heap k s)" by simp
  have t: "t = add_to_free_list ?f s2" using ex by (simp add: t_def)
  have hd2: "free_list_head s2 = 0" using g s0(4) by (simp add: gains_def)
  have orph: "hb_next_free (hdr (mem s2) ?f) = 0" "hb_prev_free (hdr (mem s2) ?f) = 0"
    using g fU by (auto simp: gains_def)
  have P: "heap_inv U (U - {?f}) ?f (frame_top j) (frame_top (j + n)) s2"
    by (rule orphan_pending [OF kinvD(2) [OF 2(2)] fU orph]) (simp add: hd2 f0 [symmetric])
  note A = add_step [OF P fU, simplified, folded t]
  have tU: "touches (hdrs U) s2 t" using A(1) by (simp add: reach_def)
  have I: "heap_inv U U 0 (frame_top j) (frame_top (j + n)) t"
    using A(2) fU by (simp add: insert_absorb)
  note T = kinv_touches [OF 2(2) tU hdrs_span [OF D(1)] I]
  show "kinv U U 0 (frame_top j) (j + n) t" by (rule T(1))
  show "free_list_head t = ?f" by (simp add: t)
  have h: "hdr (mem t) c = v_add (hdr (mem s2)) 0 ?f c" if "c \<in> U" for c
    using reach_read [OF A(1) that] hd2 by simp
  show "\<forall>c \<in> U. hb_size (hdr (mem t) c) = 4048 \<and> hb_next_free (hdr (mem t) c) = 0 \<and> hb_prev_free (hdr (mem t) c) = 0"
    using h g by (auto simp: v_add_def gains_def)
  show "free_frames t = free_frames s - {j..<j + n}"
    using T(2) 2(4) L(3) s0(2) unfolding ins by (simp add: Diff_insert2 [symmetric] del: atLeastLessThan_iff)
  show "bitmap_bytes t = bitmap_bytes s" using T(3) g s0(5) by (simp add: gains_def)
  show "mem t y = mem s y" if y: "y \<notin> span (frame_top j) (frame_top (j + n))" "y \<notin> bitmap_bytes s"
  proof -
    have "y \<notin> region f 4096" if "f \<in> U" for f using frame_regions_span(1) [OF j(1)] that y(1) by (auto simp: U_def)
    then have "mem s2 y = mem s0 y" using g y(2) s0(5) by (simp add: gains_def hdrs_def)
    moreover have "mem t y = mem s2 y" using tU hdrs_span [OF D(1)] y(1) by (auto simp: touches_def)
    ultimately show ?thesis by (simp add: s0_def)
  qed
qed

lemma kheap_init_kinv:
  assumes pmm: "pmm_inv s" and j: "{j..<j + 5} \<subseteq> free_frames s" "\<forall>i \<in> free_frames s. j \<le> i"
  defines "t \<equiv> kheap_init s" and "U \<equiv> frame_addr ` {j..<j + 5}"
  shows "kinv U U 0 (frame_top j) (j + 5) t" and "free_list_head t = frame_addr j"
    and "hb_next_free (hdr (mem t) (frame_addr j)) = 0" and "\<forall>c \<in> U. hb_size (hdr (mem t) c) = 4048"
    and "\<forall>c \<in> U. hb_next_free (hdr (mem t) c) = 0 \<and> hb_prev_free (hdr (mem t) c) = 0"
    and "free_frames t = free_frames s - {j..<j + 5}"
    and "bitmap_bytes t = bitmap_bytes s"
    and "y \<notin> span (frame_top j) (frame_top (j + 5)) \<Longrightarrow> y \<notin> bitmap_bytes s \<Longrightarrow> mem t y = mem s y"
proof -
  define s0 where "s0 = s\<lparr>free_list_head := 0, heap_start := 0, heap_end := 0\<rparr>"
  have s0: "pmm_inv s0" "heap_end s0 = 0" "free_list_head s0 = 0" "free_frames s0 = free_frames s"
    "bitmap_bytes s0 = bitmap_bytes s" using pmm by (simp_all add: s0_def bitmap_bytes_def)
  note E = expand_empty [OF s0(1-3) kinv_no_pages [symmetric], unfolded s0(4), OF j]
  have t: "t = kprintf ''KHeap: Initialized.\<newline>'' [] (snd (expand_heap (PAGE_SIZE * 4) s0))"
    unfolding t_def kheap_init_def Let_def s0_def by (rule refl)
  have mt: "mem t = mem (snd (expand_heap (PAGE_SIZE * 4) s0))" unfolding t by (simp add: kprintf_def)
  show "kinv U U 0 (frame_top j) (j + 5) t" unfolding t U_def using E(2) by (simp only: kinv_kprintf)
  show "free_list_head t = frame_addr j" unfolding t using E(3) by (simp only: kprintf_heads)
  show h: "\<forall>c \<in> U. hb_size (hdr (mem t) c) = 4048"
    "\<forall>c \<in> U. hb_next_free (hdr (mem t) c) = 0 \<and> hb_prev_free (hdr (mem t) c) = 0"
    unfolding mt U_def using E(4) by blast+
  have "frame_addr j \<in> U" by (simp add: U_def)
  then show "hb_next_free (hdr (mem t) (frame_addr j)) = 0" using h(2) by blast
  show "free_frames t = free_frames s - {j..<j + 5}" unfolding t using E(5) s0(4) by simp
  show "bitmap_bytes t = bitmap_bytes s" unfolding t using E(6) s0(5) by (simp add: bitmap_bytes_def)
  show "y \<notin> span (frame_top j) (frame_top (j + 5)) \<Longrightarrow> y \<notin> bitmap_bytes s \<Longrightarrow> mem t y = mem s y"
    unfolding mt using E(7) [of y] s0(5) by (simp add: s0_def)
qed

end
