(* ===== verification/Kheap_Correct.thy ===== *)
theory Kheap_Correct
  imports Kheap_Spec
begin

text \<open>
  The theorems about the kernel heap. The contract of an allocator is the locale
  \<open>allocator\<close>, with a client lemma about arbitrary sequences of calls; the heap of
  \<^verbatim>\<open>src/src/memory/kheap.c\<close> is an instance.
\<close>

section \<open>The contract of an allocator\<close>

text \<open>
  \<open>room r s\<close> says that the allocator can still grow by \<open>r\<close> units, \<open>cost k\<close> how many units a
  request may take.
\<close>

locale allocator =
  fixes malloc :: "u64 \<Rightarrow> 's \<Rightarrow> (addr \<times> 's) option" and free :: "addr \<Rightarrow> 's \<Rightarrow> 's"
    and blocks :: "'s \<Rightarrow> addr \<Rightarrow> nat option" and bytes :: "'s \<Rightarrow> memory"
    and good :: "'s \<Rightarrow> bool" and spare :: "nat \<Rightarrow> 's \<Rightarrow> bool" and cost :: "u64 \<Rightarrow> nat"
  assumes malloc_law:
      "good s \<Longrightarrow> k \<noteq> 0 \<Longrightarrow> spare (cost k + r) s \<Longrightarrow>
       \<exists>p t. malloc k s = Some (p, t) \<and> good t \<and> spare r t
         \<and> (p = 0 \<longrightarrow> blocks t = blocks s)
         \<and> (p \<noteq> 0 \<longrightarrow> blocks s p = None \<and> (\<exists>m. blocks t = (blocks s)(p \<mapsto> m)))
         \<and> (\<forall>q m. blocks s q = Some m \<longrightarrow> (\<forall>y \<in> region q m. bytes t y = bytes s y))"
    and free_law:
      "good s \<Longrightarrow> blocks s p \<noteq> None \<Longrightarrow>
       good (free p s) \<and> blocks (free p s) = (blocks s)(p := None)
         \<and> (\<forall>q m. blocks (free p s) q = Some m \<longrightarrow> (\<forall>y \<in> region q m. bytes (free p s) y = bytes s y))"
    and free_spare: "good s \<Longrightarrow> blocks s p \<noteq> None \<Longrightarrow> spare r s \<Longrightarrow> spare r (free p s)"

text \<open>A request or a release; a sequence of them, and the frees of live blocks only.\<close>

datatype heap_op = Malloc u64 | Free addr

fun op_cost :: "(u64 \<Rightarrow> nat) \<Rightarrow> heap_op \<Rightarrow> nat" where
  "op_cost cost (Malloc k) = cost k"
| "op_cost cost (Free p) = 0"

context allocator
begin

fun run :: "heap_op list \<Rightarrow> 's \<Rightarrow> 's option" where
  "run [] s = Some s"
| "run (Malloc k # ops) s = (case malloc k s of None \<Rightarrow> None | Some (p, t) \<Rightarrow> run ops t)"
| "run (Free p # ops) s = run ops (free p s)"

fun legal :: "heap_op list \<Rightarrow> 's \<Rightarrow> bool" where
  "legal [] s = True"
| "legal (Malloc k # ops) s = (k \<noteq> 0 \<and> (case malloc k s of None \<Rightarrow> True | Some (p, t) \<Rightarrow> legal ops t))"
| "legal (Free p # ops) s = (blocks s p \<noteq> None \<and> legal ops (free p s))"

lemma run_keeps:
  assumes "good s" and "legal ops s" and "spare (sum_list (map (op_cost cost) ops)) s"
  shows "\<exists>t. run ops s = Some t \<and> good t
    \<and> (\<forall>q m. blocks s q = Some m \<longrightarrow> Free q \<notin> set ops \<longrightarrow>
         blocks t q = Some m \<and> (\<forall>y \<in> region q m. bytes t y = bytes s y))"
  using assms
proof (induction ops arbitrary: s)
  case (Cons x ops)
  show ?case
  proof (cases x)
    case (Malloc k)
    with Cons.prems obtain p u where u: "malloc k s = Some (p, u)" "good u"
        "spare (sum_list (map (op_cost cost) ops)) u" "p = 0 \<longrightarrow> blocks u = blocks s"
        "p \<noteq> 0 \<longrightarrow> blocks s p = None \<and> (\<exists>m. blocks u = (blocks s)(p \<mapsto> m))"
        "\<forall>q m. blocks s q = Some m \<longrightarrow> (\<forall>y \<in> region q m. bytes u y = bytes s y)"
      using malloc_law [of s k "sum_list (map (op_cost cost) ops)"] by auto
    have up: "blocks u q = Some m" if "blocks s q = Some m" for q m using u(4,5) that by (cases "p = 0") auto
    obtain t where t: "run ops u = Some t" "good t"
        "\<forall>q m. blocks u q = Some m \<longrightarrow> Free q \<notin> set ops \<longrightarrow>
         blocks t q = Some m \<and> (\<forall>y \<in> region q m. bytes t y = bytes u y)"
      using Cons.IH [OF u(2) _ u(3)] Cons.prems(2) Malloc u(1) by auto
    have "blocks t q = Some m \<and> (\<forall>y \<in> region q m. bytes t y = bytes s y)"
      if "blocks s q = Some m" "Free q \<notin> set ops" for q m
      using up [OF that(1)] that t(3) u(6) by metis
    then show ?thesis using u(1) t(1,2) Malloc by (intro exI [of _ t]) simp
  next
    case (Free p)
    then have p: "blocks s p \<noteq> None" "legal ops (free p s)" using Cons.prems by auto
    note F = free_law [OF Cons.prems(1) p(1)]
    have sp: "spare (sum_list (map (op_cost cost) ops)) (free p s)"
      using free_spare [OF Cons.prems(1) p(1)] Cons.prems(3) Free by simp
    obtain t where t: "run ops (free p s) = Some t" "good t"
        "\<forall>q m. blocks (free p s) q = Some m \<longrightarrow> Free q \<notin> set ops \<longrightarrow>
         blocks t q = Some m \<and> (\<forall>y \<in> region q m. bytes t y = bytes (free p s) y)"
      using Cons.IH [OF _ p(2) sp] F by blast
    have "blocks t q = Some m \<and> (\<forall>y \<in> region q m. bytes t y = bytes s y)"
      if "blocks s q = Some m" "q \<noteq> p" "Free q \<notin> set ops" for q m
    proof -
      have "blocks (free p s) q = Some m" using F that by simp
      then show ?thesis using F that(3) t(3) by metis
    qed
    then show ?thesis using t(1,2) Free by (intro exI [of _ t]) simp
  qed
qed simp

end

section \<open>The heap as an allocator\<close>

interpretation kernel_heap: allocator kmalloc kfree live mem kheap_inv room kmalloc_pages
proof
  fix s :: "'a kheap_scheme" and k r
  assume "kheap_inv s" "k \<noteq> 0" "room (kmalloc_pages k + r) s"
  from kmalloc_contract [OF this]
  show "\<exists>p t. kmalloc k s = Some (p, t) \<and> kheap_inv t \<and> room r t \<and> (p = 0 \<longrightarrow> live t = live s)
         \<and> (p \<noteq> 0 \<longrightarrow> live s p = None \<and> (\<exists>m. live t = (live s)(p \<mapsto> m)))
         \<and> (\<forall>q m. live s q = Some m \<longrightarrow> (\<forall>y \<in> region q m. mem t y = mem s y))"
    by blast
next
  fix s :: "'a kheap_scheme" and p
  assume s: "kheap_inv s" "live s p \<noteq> None"
  then obtain n where "live s p = Some n" by blast
  note F = kfree_contract [OF s(1) this]
  show "kheap_inv (kfree p s) \<and> live (kfree p s) = (live s)(p := None)
         \<and> (\<forall>q m. live (kfree p s) q = Some m \<longrightarrow> (\<forall>y \<in> region q m. mem (kfree p s) y = mem s y))"
    using F(1-3) by blast
  show "room r (kfree p s)" if "room r s" for r using that F(5,6) by (simp add: room_def)
qed

text \<open>Sequences of calls, on the heap itself.\<close>

fun run_heap :: "heap_op list \<Rightarrow> 'a kheap_scheme \<Rightarrow> 'a kheap_scheme option" where
  "run_heap [] s = Some s"
| "run_heap (Malloc k # ops) s = (case kmalloc k s of None \<Rightarrow> None | Some (p, t) \<Rightarrow> run_heap ops t)"
| "run_heap (Free p # ops) s = run_heap ops (kfree p s)"

fun legal_calls :: "heap_op list \<Rightarrow> 'a kheap_scheme \<Rightarrow> bool" where
  "legal_calls [] s = True"
| "legal_calls (Malloc k # ops) s =
     (k \<noteq> 0 \<and> (case kmalloc k s of None \<Rightarrow> True | Some (p, t) \<Rightarrow> legal_calls ops t))"
| "legal_calls (Free p # ops) s = (live s p \<noteq> None \<and> legal_calls ops (kfree p s))"

lemma run_heap_eq: "run_heap ops s = kernel_heap.run ops s"
  by (induction ops s rule: run_heap.induct) (auto split: option.splits)

lemma legal_calls_eq: "legal_calls ops s = kernel_heap.legal ops s"
  by (induction ops s rule: legal_calls.induct) (auto split: option.splits)

section \<open>A booted heap\<close>

definition reset_heap :: kheap where
  "reset_heap = \<lparr>mem = (\<lambda>_. 0), uart = idle_uart, frame_bitmap = sym_pmm_bitmap_start image_syms,
     total_memory = 0, free_memory = 0, highest_usable_address = 0,
     free_list_head = 0, heap_start = 0, heap_end = 0\<rparr>"

definition boot_heap :: kheap where
  "boot_heap = kheap_init (frame_alloc_init image_syms None reset_heap)"

lemma image_pmm:
  assumes "frame_bitmap s = sym_pmm_bitmap_start image_syms"
  defines "t \<equiv> frame_alloc_init image_syms None s"
  shows "pmm_inv t" and "free_frames t = {..<PMM_TOTAL_FRAMES} - {128..182}"
proof -
  note a = frame_alloc_init_acct [OF image_layout(1,2) assms(1)]
  then show f: "free_frames t = {..<PMM_TOTAL_FRAMES} - {128..182}" by (simp add: image_frames t_def)
  show "pmm_inv t"
    using a f image_frames init_used_disjoint [OF image_layout(1), of t] assms(1)
    by (auto simp: pmm_inv_def init_acct_def t_def)
qed

lemma boot_frames:
  "pmm_inv (frame_alloc_init image_syms None reset_heap)"
  "{0..<0 + 5} \<subseteq> free_frames (frame_alloc_init image_syms None reset_heap)"
  "\<forall>i \<in> free_frames (frame_alloc_init image_syms None reset_heap). 0 \<le> i"
  "free_frames (frame_alloc_init image_syms None reset_heap) = {..<PMM_TOTAL_FRAMES} - {128..182}"
proof -
  have "frame_bitmap reset_heap = sym_pmm_bitmap_start image_syms" by (simp add: reset_heap_def)
  note I = image_pmm [OF this]
  show "pmm_inv (frame_alloc_init image_syms None reset_heap)" by (rule I(1))
  show f: "free_frames (frame_alloc_init image_syms None reset_heap) = {..<PMM_TOTAL_FRAMES} - {128..182}"
    by (rule I(2))
  show "{0..<0 + 5} \<subseteq> free_frames (frame_alloc_init image_syms None reset_heap)" unfolding f by auto
  show "\<forall>i \<in> free_frames (frame_alloc_init image_syms None reset_heap). 0 \<le> i" by simp
qed

lemma boot_heap_facts:
  "kheap_inv boot_heap" "live boot_heap p = None" "frontier boot_heap = 5"
  "n \<le> 123 \<Longrightarrow> room n boot_heap"
proof -
  note K = kheap_init_kinv [OF boot_frames(1-3), folded boot_heap_def]
  show "kheap_inv boot_heap" using K(1) by (auto simp: kheap_inv_def)
  show "live boot_heap p = None" using kinv_abs(5) [OF K(1)] by simp
  show f: "frontier boot_heap = 5" using kinv_abs(2) [OF K(1)] by simp
  show "n \<le> 123 \<Longrightarrow> room n boot_heap"
    unfolding room_def f K(6) boot_frames(4) by auto
qed

section \<open>Theorems\<close>

text \<open>
  C7. \<open>kheap_init\<close>, on a working physical memory manager whose five lowest free frames are
  adjacent, builds a heap of five free blocks of one page each, with no block allocated
  and the invariant established.
\<close>

theorem kheap_init_correct:
  assumes "pmm_inv s" and "{j..<j + 5} \<subseteq> free_frames s" and "\<forall>i \<in> free_frames s. j \<le> i"
  defines "t \<equiv> kheap_init s"
  shows "kheap_inv t \<and> live t = Map.empty \<and> heap_blocks t = frame_addr ` {j..<j + 5}
    \<and> (\<forall>b \<in> heap_blocks t. hb_size (hdr (mem t) b) = 4048) \<and> frontier t = j + 5
    \<and> free_frames t = free_frames s - {j..<j + 5}"
proof -
  note K = kheap_init_kinv [OF assms(1-3), folded t_def]
  have "live t = Map.empty" by (rule ext) (simp add: kinv_abs(5) [OF K(1)])
  with K kinv_abs(1,2) [OF K(1)] show ?thesis by (auto simp: kheap_inv_def)
qed

theorem kheap_init_correct_witness:
  "kheap_inv boot_heap \<and> live boot_heap = Map.empty \<and> heap_blocks boot_heap = frame_addr ` {0..<5}"
  using kheap_init_correct [OF boot_frames(1-3)] by (simp add: boot_heap_def)

lemma align8_bounds:
  assumes "unat k + 7 < 2 ^ 64"
  shows "unat k \<le> unat (align8 k)" and "unat (align8 k + 96) \<le> unat k + 103" and "k \<le> 4048 \<Longrightarrow> align8 k \<le> 4048"
proof -
  note a = unat_align8 [OF assms]
  then show "unat k \<le> unat (align8 k)" by simp
  have "unat (x + 96) \<le> unat x + 96" for x :: u64 by (simp add: unat_word_ariths)
  from this [of "align8 k"] show "unat (align8 k + 96) \<le> unat k + 103" using a by linarith
  show "align8 k \<le> 4048" if "k \<le> 4048"
  proof -
    have "unat k + 7 < 8 * 507" using that by (simp add: word_le_nat_alt)
    then have "(unat k + 7) div 8 \<le> 506" by linarith
    then show ?thesis using a by (simp add: word_le_nat_alt)
  qed
qed

text \<open>
  C3. With room to grow right behind the heap, \<open>kmalloc\<close> returns; requests of up to
  4048 bytes never fail. The block it returns is 8-byte aligned, zeroed, not allocated
  before, large enough and at most 103 bytes larger, and overlaps no allocated block; the
  contents of all allocated blocks and of all memory outside heap and bitmap stay.
\<close>

theorem kmalloc_correct:
  assumes "kheap_inv s" and "0 < k" and "unat k + 7 < 2 ^ 64" and "room (kmalloc_pages k) s"
  shows "\<exists>p t. kmalloc k s = Some (p, t) \<and> kheap_inv t \<and> (k \<le> 4048 \<longrightarrow> p \<noteq> 0)
    \<and> (p = 0 \<longrightarrow> live t = live s)
    \<and> (p \<noteq> 0 \<longrightarrow> 8 dvd unat p \<and> (\<exists>m. unat k \<le> m \<and> m \<le> unat k + 102 \<and> live s p = None
         \<and> live t = (live s)(p \<mapsto> m) \<and> (\<forall>y \<in> region p m. mem t y = 0)
         \<and> (\<forall>q n. live s q = Some n \<longrightarrow> region p m \<inter> region q n = {})))
    \<and> (\<forall>q m. live s q = Some m \<longrightarrow> (\<forall>y \<in> region q m. mem t y = mem s y))
    \<and> (\<forall>y. y \<notin> heap_range t \<longrightarrow> y \<notin> bitmap_bytes s \<longrightarrow> mem t y = mem s y)"
proof -
  note a = align8_bounds [OF assms(3)]
  have k: "k \<noteq> 0" "room (kmalloc_pages k + 0) s" using assms(2,4) by auto
  obtain p t where t: "kmalloc k s = Some (p, t)" "kheap_inv t" "align8 k \<le> 4048 \<longrightarrow> p \<noteq> 0"
      "p = 0 \<longrightarrow> live t = live s"
      "p \<noteq> 0 \<longrightarrow> (\<exists>m. unat (align8 k) \<le> m \<and> m < unat (align8 k + 96) \<and> live s p = None
         \<and> live t = (live s)(p \<mapsto> m) \<and> (\<forall>y \<in> region p m. mem t y = 0))"
      "\<forall>q m. live s q = Some m \<longrightarrow> (\<forall>y \<in> region q m. mem t y = mem s y)"
      "\<forall>y. y \<notin> heap_range t \<longrightarrow> y \<notin> bitmap_bytes s \<longrightarrow> mem t y = mem s y"
    using kmalloc_contract [OF assms(1) k] by (elim exE conjE) (rule that)
  have "8 dvd unat p \<and> (\<exists>m. unat k \<le> m \<and> m \<le> unat k + 102 \<and> live s p = None
         \<and> live t = (live s)(p \<mapsto> m) \<and> (\<forall>y \<in> region p m. mem t y = 0)
         \<and> (\<forall>q n. live s q = Some n \<longrightarrow> region p m \<inter> region q n = {}))" if p: "p \<noteq> 0"
  proof -
    obtain m where m: "unat (align8 k) \<le> m" "m < unat (align8 k + 96)" "live s p = None"
        "live t = (live s)(p \<mapsto> m)" "\<forall>y \<in> region p m. mem t y = 0" using t(5) p by blast
    have lp: "live t p = Some m" using m(4) by simp
    have "region p m \<inter> region q n = {}" if "live s q = Some n" for q n
    proof -
      have "p \<noteq> q" using that m(3) by auto
      then show ?thesis using live_disjoint [OF t(2) lp, of q n] that m(4) by simp
    qed
    then show ?thesis using live_aligned(1) [OF t(2) lp] m a(1,2) by (auto intro!: exI [of _ m])
  qed
  with t(1-4,6,7) a(3) show ?thesis by (intro exI [of _ p] exI [of _ t]) blast
qed

lemma pages_100: "kmalloc_pages 100 = 1" "kmalloc_pages 200 = 1"
  by (simp_all add: kmalloc_pages_def pages_needed_def align8_def)

theorem kmalloc_correct_witness:
  "\<exists>p t m. kmalloc 100 boot_heap = Some (p, t) \<and> p \<noteq> 0 \<and> live t p = Some m \<and> 100 \<le> m"
proof -
  have k: "0 < (100 :: u64)" "unat (100 :: u64) + 7 < 2 ^ 64" by simp_all
  have r: "room (kmalloc_pages 100) boot_heap" by (simp add: pages_100 boot_heap_facts(4))
  obtain p t where t: "kmalloc 100 boot_heap = Some (p, t)" "100 \<le> (4048 :: u64) \<longrightarrow> p \<noteq> 0"
      "p \<noteq> 0 \<longrightarrow> 8 dvd unat p \<and> (\<exists>m. unat (100 :: u64) \<le> m \<and> m \<le> unat (100 :: u64) + 102 \<and> live boot_heap p = None
         \<and> live t = (live boot_heap)(p \<mapsto> m) \<and> (\<forall>y \<in> region p m. mem t y = 0)
         \<and> (\<forall>q n. live boot_heap q = Some n \<longrightarrow> region p m \<inter> region q n = {}))"
    using kmalloc_correct [OF boot_heap_facts(1) k r] by (elim exE conjE) (rule that)
  then show ?thesis by (intro exI [of _ p] exI [of _ t]) auto
qed

text \<open>A booted heap with one allocated block.\<close>

lemma kmalloc_small:
  assumes "kheap_inv s" and "k \<noteq> 0" and "align8 k \<le> 4048" and "room (kmalloc_pages k + r) s"
  shows "\<exists>p t m. kmalloc k s = Some (p, t) \<and> kheap_inv t \<and> room r t \<and> live s p = None \<and> live t = (live s)(p \<mapsto> m)"
  using kmalloc_contract [OF assms(1,2,4)] assms(3) by (elim exE conjE) (drule (1) mp, drule (1) mp, blast)

lemma one_block: "\<exists>p t m. kmalloc 100 boot_heap = Some (p, t) \<and> kheap_inv t \<and> live t p = Some m \<and> room 100 t"
proof -
  have "room (kmalloc_pages 100 + 100) boot_heap" by (simp add: pages_100 boot_heap_facts(4))
  moreover have "align8 100 \<le> 4048" by (simp add: align8_def)
  ultimately obtain p t m where "kmalloc 100 boot_heap = Some (p, t)" "kheap_inv t" "room 100 t"
      "live t = (live boot_heap)(p \<mapsto> m)"
    using kmalloc_small [OF boot_heap_facts(1), of 100 100] by auto
  then show ?thesis by (intro exI [of _ p] exI [of _ t] exI [of _ m]) simp
qed

text \<open>
  C4. \<open>kfree\<close> of an allocated block, whatever it is merged with, removes exactly it from the
  allocated blocks and changes no byte of the others nor any outside the heap; the
  invariant and the frames stay.
\<close>

theorem kfree_correct:
  assumes "kheap_inv s" and "live s p = Some n"
  shows "kheap_inv (kfree p s) \<and> live (kfree p s) = (live s)(p := None)
    \<and> (\<forall>q m. live (kfree p s) q = Some m \<longrightarrow> (\<forall>y \<in> region q m. mem (kfree p s) y = mem s y))
    \<and> (\<forall>y. y \<notin> heap_range s \<longrightarrow> mem (kfree p s) y = mem s y)
    \<and> free_frames (kfree p s) = free_frames s"
  using kfree_contract [OF assms] by blast

theorem kfree_correct_witness:
  "\<exists>p t. kmalloc 100 boot_heap = Some (p, t) \<and> kheap_inv (kfree p t) \<and> live (kfree p t) p = None"
proof -
  obtain p t m where t: "kmalloc 100 boot_heap = Some (p, t)" "kheap_inv t" "live t p = Some m"
    using one_block by blast
  then show ?thesis using kfree_correct [OF t(2,3)] by (intro exI [of _ p] exI [of _ t]) simp
qed

text \<open>
  Allocated blocks never overlap each other, the bitmap of the physical memory manager
  or a free frame.
\<close>

lemma live_blocks_bitmap:
  assumes "kheap_inv s" and "live s p = Some n"
  shows "region p n \<inter> bitmap_bytes s = {}" and "\<forall>i \<in> free_frames s. region p n \<inter> region (frame_addr i) 4096 = {}"
proof -
  obtain B F lo j where K: "kinv B F 0 lo j s" using assms(1) by (auto simp: kheap_inv_def)
  have r: "region p n \<subseteq> span lo (frame_top j)"
    using live_aligned(3) [OF assms] kinv_abs(4) [OF K] by simp
  then show "region p n \<inter> bitmap_bytes s = {}" using kinvD(4) [OF K] by blast
  have "region p n \<inter> region (frame_addr i) 4096 = {}" if i: "i \<in> free_frames s" for i
  proof -
    have "i < PMM_TOTAL_FRAMES" by (rule free_frames_bound [OF i])
    then have "y \<in> region (frame_addr i) 4096 \<Longrightarrow> frame_top i \<le> unat y" for y
      by (simp add: in_region_nat unat_frame_addr)
    then show ?thesis using r kinvD(3) [OF K i] by (fastforce simp: span_def)
  qed
  then show "\<forall>i \<in> free_frames s. region p n \<inter> region (frame_addr i) 4096 = {}" by blast
qed

text \<open>
  C8. The free-list search ends and finds the first block of the list that is large enough;
  the list holds free blocks of the heap only, none of them twice.
\<close>

theorem first_fit_correct:
  assumes "kheap_inv s"
  shows "\<exists>bs. chain (mem s) (free_list_head s) bs \<and> distinct bs
    \<and> (\<forall>b \<in> set bs. b \<in> heap_blocks s \<and> hb_is_free (hdr (mem s) b))
    \<and> first_fit (mem s) (free_list_head s) n = Some (or_null (find (\<lambda>b. n \<le> hb_size (hdr (mem s) b)) bs))"
proof -
  obtain B F lo j where K: "kinv B F 0 lo j s" using assms by (auto simp: kheap_inv_def)
  note D = heap_invD [OF kinvD(2) [OF K]]
  have "finite F" using D(1,2) tiledD(1) finite_subset by blast
  then obtain bs where bs: "chain (mem s) (free_list_head s) bs" "set bs \<subseteq> F" "distinct bs"
    using chain_exists [OF D(3)] by blast
  have "b \<in> B \<and> hb_is_free (hdr (mem s) b)" if "b \<in> set bs" for b
    using that bs(2) D(2,4) tiled_nonzero [OF D(1), of b] by auto
  then show ?thesis using bs first_fit_chain [OF bs(1)] kinv_abs(1) [OF K] by blast
qed

theorem first_fit_correct_witness:
  "\<exists>bs. chain (mem boot_heap) (free_list_head boot_heap) bs \<and> distinct bs"
  using first_fit_correct [OF boot_heap_facts(1)] by blast

text \<open>
  C35. When no listed block is large enough and no frame is free, \<open>kmalloc\<close> returns null and
  changes nothing but the console.
\<close>

theorem kmalloc_out_of_memory:
  assumes "k \<noteq> 0" and "first_fit (mem s) (free_list_head s) (align8 k) = Some 0" and "free_frames s = {}"
  shows "\<exists>u. kmalloc k s = Some (0, s\<lparr>uart := u\<rparr>)"
proof -
  let ?s0 = "kprintf ''KHeap: Expanding heap by %zu pages\<newline>'' [VWord (pages_needed (align8 k + 48))] s"
  obtain n where n: "unat (pages_needed (align8 k + 48)) = Suc n"
    using pages_needed_pos [of "align8 k + 48"] by (metis Suc_pred)
  have "free_frames ?s0 = {}" using assms(3) by simp
  from alloc_frame_none [OF this] obtain f as g bs where
      "expand_heap (align8 k + 48) s = (False, kprintf f as (kprintf g bs ?s0))"
    by (simp add: expand_heap_def n)
  then obtain h cs where "kmalloc k s = Some (0, kprintf h cs (kprintf f as (kprintf g bs ?s0)))"
    using assms(1,2) by (simp add: kmalloc_def Let_def)
  then show ?thesis by (auto simp: kprintf_def)
qed

theorem kmalloc_out_of_memory_witness:
  "\<exists>u. kmalloc 8 (reset_heap\<lparr>mem := memset (mem reset_heap) (frame_bitmap reset_heap) 0xFF 0x20000\<rparr>)
     = Some (0, reset_heap\<lparr>mem := memset (mem reset_heap) (frame_bitmap reset_heap) 0xFF 0x20000, uart := u\<rparr>)"
proof -
  let ?s = "reset_heap\<lparr>mem := memset (mem reset_heap) (frame_bitmap reset_heap) 0xFF 0x20000\<rparr>"
  have "first_fit (mem ?s) (free_list_head ?s) (align8 8) = Some 0"
    by (subst first_fit.simps) (simp add: reset_heap_def)
  moreover have "free_frames ?s = {}"
    using bits_all_set [where n = "0x20000" and s = reset_heap and a = 0 and b = 0 and c = 0]
    by (simp add: reset_heap_def)
  ultimately show ?thesis using kmalloc_out_of_memory [of 8 ?s] by simp
qed

end
