(* ===== verification/Frame_Alloc_Writes.thy ===== *)
theory Frame_Alloc_Writes
  imports Frame_Alloc
begin

text \<open>
  What the initialisation of the physical memory manager may write: the bitmap, and no other
  memory.
\<close>

section \<open>Initialisation writes to the bitmap only\<close>

definition only_bitmap :: "nat \<Rightarrow> 'a pmm_scheme \<Rightarrow> 'a pmm_scheme \<Rightarrow> bool" where
  "only_bitmap n s t \<longleftrightarrow> frame_bitmap t = frame_bitmap s \<and> rx_bytes (uart t) = rx_bytes (uart s)
     \<and> (\<forall>x. x \<notin> region (frame_bitmap s) n \<longrightarrow> mem t x = mem s x)"

lemma only_bitmap_refl [simp]: "only_bitmap n s s"
  by (simp add: only_bitmap_def)

lemma only_bitmap_trans: "only_bitmap n s t \<Longrightarrow> only_bitmap n t u \<Longrightarrow> only_bitmap n s u"
  by (simp add: only_bitmap_def)

lemma only_bitmap_kprintf [simp]: "only_bitmap n s (kprintf f as t) = only_bitmap n s t"
  by (simp add: only_bitmap_def)

lemma bitmap_byte_region: "i < PMM_TOTAL_FRAMES \<Longrightarrow> 0x8000 \<le> n \<Longrightarrow> bitmap_byte i s \<in> region (frame_bitmap s) n"
  using bitmap_byte_in [of i s] region_mono [of "0x8000" n "frame_bitmap s"] by (auto simp: bitmap_bytes_def)

lemma only_bitmap_bits:
  assumes "i < PMM_TOTAL_FRAMES" and "0x8000 \<le> n"
  shows "only_bitmap n s (set_bit_bm i s)" and "only_bitmap n s (clear_bit i s)"
  using bitmap_byte_region [OF assms, of s] by (auto simp: only_bitmap_def set_bit_bm_def clear_bit_def Let_def)

lemma only_bitmap_fields [simp]:
  "only_bitmap n s (t\<lparr>total_memory := a\<rparr>) = only_bitmap n s t" "only_bitmap n s (t\<lparr>free_memory := a\<rparr>) = only_bitmap n s t"
  "only_bitmap n s (t\<lparr>highest_usable_address := a\<rparr>) = only_bitmap n s t"
  by (simp_all add: only_bitmap_def)

lemma only_bitmap_used_step:
  assumes "i < PMM_TOTAL_FRAMES" and "0x8000 \<le> n"
  shows "only_bitmap n s (mark_used_step i s)"
  using only_bitmap_bits(1) [OF assms, of s] by (simp add: mark_used_step_def Let_def)

lemma only_bitmap_free_step:
  assumes "i < PMM_TOTAL_FRAMES" and "0x8000 \<le> n"
  shows "only_bitmap n s (mark_free_step i s)"
proof -
  have "only_bitmap n s t \<Longrightarrow> only_bitmap n s (clear_bit i t)" for t
    using only_bitmap_bits(2) [OF assms, of t] only_bitmap_trans by blast
  then show ?thesis by (simp add: mark_free_step_def Let_def)
qed

lemma only_bitmap_used_loop:
  assumes "e < PMM_TOTAL_FRAMES" and "0x8000 \<le> n"
  shows "only_bitmap n s (mark_used_loop i e s)"
  using assms(1)
proof (induction i e s rule: mark_used_loop.induct)
  case (1 i e s)
  show ?case
  proof (cases "i \<le> e")
    case True
    then have "only_bitmap n s (mark_used_step i s)" using 1 assms(2) by (intro only_bitmap_used_step) auto
    then show ?thesis using 1 True only_bitmap_trans by (subst mark_used_loop.simps) auto
  qed (subst mark_used_loop.simps, simp)
qed

lemma only_bitmap_free_loop:
  assumes "e < PMM_TOTAL_FRAMES" and "0x8000 \<le> n"
  shows "only_bitmap n s (mark_free_loop i e s)"
  using assms(1)
proof (induction i e s rule: mark_free_loop.induct)
  case (1 i e s)
  show ?case
  proof (cases "i \<le> e")
    case True
    then have "only_bitmap n s (mark_free_step i s)" using 1 assms(2) by (intro only_bitmap_free_step) auto
    then show ?thesis using 1 True only_bitmap_trans by (subst mark_free_loop.simps) auto
  qed (subst mark_free_loop.simps, simp)
qed

lemma only_bitmap_ranges:
  assumes "0x8000 \<le> n"
  shows "only_bitmap n s (mark_range_used a k s)" and "only_bitmap n s (mark_range_free a k s)"
  by (simp_all add: mark_range_used_def mark_range_free_def Let_def only_bitmap_used_loop only_bitmap_free_loop assms)

lemma frame_alloc_init_frame:
  assumes "frame_bitmap s = sym_pmm_bitmap_start ls"
    and "unat (sym_pmm_bitmap_end ls - sym_pmm_bitmap_start ls) = 0x20000"
  shows "only_bitmap 0x20000 s (frame_alloc_init ls params s)"
proof -
  let ?n = "sym_pmm_bitmap_end ls - sym_pmm_bitmap_start ls"
  have R: "only_bitmap 0x20000 s (mark_range_used a k t)" "only_bitmap 0x20000 s (mark_range_free a k t)"
    if "only_bitmap 0x20000 s t" for a k t
    using only_bitmap_trans [OF that] only_bitmap_ranges [of "0x20000" t] by auto
  have m: "only_bitmap 0x20000 s (t\<lparr>mem := memset (mem t) (frame_bitmap t) c ?n\<rparr>)" if "only_bitmap 0x20000 s t" for t c
    using that assms(2) by (simp add: only_bitmap_def memset_apply)
  define s1 where "s1 = kprintf ''PMM: Bitmap size: %zu bytes, located at %p\<newline>'' [VWord ?n, VWord (frame_bitmap s)]
    (kprintf ''PMM: Initializing Physical Memory Manager...\<newline>'' [] s)"
  define s2 where "s2 = s1\<lparr>mem := memset (mem s1) (frame_bitmap s1) 0xFF ?n,
    total_memory := 0, free_memory := 0, highest_usable_address := PMM_RAM_BASE\<rparr>"
  have "only_bitmap 0x20000 s s1" by (simp add: s1_def)
  from m [OF this] have "only_bitmap 0x20000 s s2" by (simp add: s2_def)
  note 2 = R(1) [OF R(2) [OF this]]
  obtain a k b l where "frame_alloc_init ls params s = kprintf ''PMM: Initialization complete. Total: %llu KB, Free: %llu KB\<newline>'' b
      (mark_range_used l ?n (mark_range_used a k (mark_range_free PMM_RAM_BASE PMM_MANAGEABLE_SIZE s2)))"
    unfolding frame_alloc_init_def Let_def s2_def s1_def by (cases params) auto
  then show ?thesis using R(1) [OF 2] by simp
qed

end
