(* ===== verification/Kheap_Defects.thy ===== *)
theory Kheap_Defects
  imports Kheap_Correct Frame_Alloc_Writes
begin

text \<open>
  Where \<^verbatim>\<open>src/src/memory/kheap.c\<close> departs from what its comments promise: pages that never
  reach the free list, requests whose rounded size wraps around, requests beyond a page
  that fail however much memory is free, merging across a gap between frames, and double
  frees that are not detected.
\<close>

section \<open>Blocks on no list\<close>

lemma chain_singleton: "a \<noteq> 0 \<Longrightarrow> hb_next_free (hdr m a) = 0 \<Longrightarrow> chain m a [a]"
  using chain.cons [of a m "[]"] chain.nil [of m] by simp

text \<open>
  C40. Of the five pages of a fresh heap only the first is on the free list, so that the
  others cannot be allocated; and unlinking one of those, as coalescing does, empties the
  list of all other blocks.
\<close>

theorem initial_pages_unlisted:
  assumes "pmm_inv s" and "{j..<j + 5} \<subseteq> free_frames s" and "\<forall>i \<in> free_frames s. j \<le> i"
    and "b \<in> frame_addr ` {j..<j + 5}"
  defines "t \<equiv> kheap_init s"
  shows "chain (mem t) (free_list_head t) [frame_addr j] \<and> hb_is_free (hdr (mem t) b)
    \<and> b \<in> heap_blocks t \<and> free_list_head (remove_from_free_list b t) = 0"
proof -
  let ?U = "frame_addr ` {j..<j + 5}"
  note K = kheap_init_kinv [OF assms(1-3), folded t_def]
  note D = heap_invD [OF kinvD(2) [OF K(1)]]
  have "frame_addr j \<noteq> 0" using tiled_nonzero [OF D(1), of "frame_addr j"] by simp
  then have "chain (mem t) (free_list_head t) [frame_addr j]" using chain_singleton K(2,3) by simp
  moreover have "hb_is_free (hdr (mem t) b)" using D(4) [of b] tiled_nonzero [OF D(1), of b] assms(4) by simp
  moreover have "hb_next_free (hdr (mem t) b) = 0" "hb_prev_free (hdr (mem t) b) = 0" using K(5) assms(4) by auto
  then have "free_list_head (remove_from_free_list b t) = 0"
    using remove_refines(2) [OF D(6) assms(4)] by (simp add: v_remove_head_def)
  ultimately show ?thesis using kinv_abs(1) [OF K(1)] assms(4) by simp
qed

theorem initial_pages_unlisted_witness:
  "chain (mem boot_heap) (free_list_head boot_heap) [frame_addr 0] \<and> frame_addr 4 \<in> heap_blocks boot_heap
   \<and> hb_is_free (hdr (mem boot_heap) (frame_addr 4))"
  using initial_pages_unlisted [OF boot_frames(1-3), of "frame_addr 4"] by (simp add: boot_heap_def)

section \<open>Wrap-around of the size\<close>

text \<open>
  C39. A request within seven bytes of the largest size is rounded up to zero: as long as a
  block is on the free list, \<open>kmalloc\<close> succeeds with a block of less than 96 bytes.
\<close>

theorem kmalloc_size_wraps:
  assumes "kheap_inv s" and "free_list_head s \<noteq> 0" and "2 ^ 64 < unat k + 8"
  shows "\<exists>p t m. kmalloc k s = Some (p, t) \<and> p \<noteq> 0 \<and> live t p = Some m \<and> m < 96"
proof -
  obtain B F lo j where K: "kinv B F 0 lo j s" using assms(1) by (auto simp: kheap_inv_def)
  have "2 ^ 64 \<le> unat k + 7" using assms(3) by linarith
  then obtain d where d: "unat k + 7 = 2 ^ 64 + d" using le_Suc_ex by blast
  then have "unat (k + 7) = d mod 2 ^ 64" by (simp add: unat_word_ariths)
  moreover have "d < 7" using d unat_lt64 [of k] by linarith
  ultimately have "unat (k + 7) < 8" by simp
  then have "drop_bit 3 (k + 7) = 0" by (simp add: drop_bit_eq_div word_unat_eq_iff unat_div)
  then have a: "align8 k = 0" by (simp add: align8_shift)
  let ?b = "free_list_head s"
  have b: "?b \<in> F" using listedD(2) [OF heap_invD(3) [OF kinvD(2) [OF K]]] assms(2) by simp
  have "first_fit (mem s) ?b 0 = Some ?b" using assms(2) by (subst first_fit.simps) simp
  moreover obtain p t where pt: "take_block ?b 0 s = (p, t)" by fastforce
  moreover have "k \<noteq> 0" using assms(3) by auto
  ultimately have km: "kmalloc k s = Some (p, t)" using assms(2) by (simp add: kmalloc_def a)
  obtain B' F' where t: "kinv B' F' 0 lo j t" "allocates (B - F) 0 s p (B' - F') t" "p \<noteq> 0"
    using take_block_kinv [OF K b _ _ pt] by auto
  then obtain m where "m < unat (0 + 96 :: u64)" "live t = (live s)(p \<mapsto> m)"
    using allocates_live(2) [OF K t(1,2,3)] by blast
  then have "live t p = Some m" "m < 96" by simp_all
  with km t(3) show ?thesis by blast
qed

theorem kmalloc_size_wraps_witness:
  "\<exists>p t m. kmalloc (- 1) boot_heap = Some (p, t) \<and> p \<noteq> 0 \<and> live t p = Some m \<and> m < 96"
proof (rule kmalloc_size_wraps [OF boot_heap_facts(1)])
  note K = kheap_init_kinv [OF boot_frames(1-3), folded boot_heap_def]
  show "free_list_head boot_heap \<noteq> 0" using K(2) by (simp add: frame_addr_def)
  show "2 ^ 64 < unat (- 1 :: u64) + 8" using unat_UINT64_MAX by (simp add: UINT64_MAX_def)
qed

section \<open>Large requests\<close>

lemma first_fit_same:
  assumes "listed F (hdr m) head" and "finite F" and a: "a = head"
    and "\<And>c. c \<in> F \<Longrightarrow> hb_size (hdr m' c) = hb_size (hdr m c) \<and> hb_next_free (hdr m' c) = hb_next_free (hdr m c)"
  shows "first_fit m' a n = first_fit m a n"
proof -
  obtain bs where bs: "chain m head bs" "set bs \<subseteq> F" using chain_exists [OF assms(1,2)] by blast
  from bs have "chain m' head bs"
  proof (induction rule: chain.induct)
    case nil
    show ?case by (rule chain.nil)
  next
    case (cons c bs)
    then show ?case using assms(4) [of c] by (auto intro: chain.cons)
  qed
  moreover have "find (\<lambda>b. n \<le> hb_size (hdr m' b)) bs = find (\<lambda>b. n \<le> hb_size (hdr m b)) bs"
    using bs(2) assms(4) by (induction bs) auto
  ultimately show ?thesis
    using first_fit_chain [OF bs(1), of n] first_fit_chain [of m' head bs n] a by simp
qed

text \<open>Growing a heap whose last block is in use puts one page in front of the free list.\<close>

lemma expand_used_end:
  assumes K: "kinv B F 0 lo j s" and n: "n = unat (pages_needed k)" and room: "{j..<j + n} \<subseteq> free_frames s"
    and used: "heap_end s \<notin> F"
  shows "\<exists>t. expand_heap k s = (True, t) \<and> free_list_head t = frame_addr j \<and> frame_addr j \<noteq> 0
    \<and> hb_size (hdr (mem t) (frame_addr j)) = 4048 \<and> hb_next_free (hdr (mem t) (frame_addr j)) = free_list_head s
    \<and> (\<forall>c \<in> F. hb_size (hdr (mem t) c) = hb_size (hdr (mem s) c)
          \<and> hb_next_free (hdr (mem t) c) = hb_next_free (hdr (mem s) c))"
proof -
  let ?U = "frame_addr ` {j..<j + n}" and ?nb = "frame_addr j"
  define s0 where "s0 = kprintf ''KHeap: Expanding heap by %zu pages\<newline>'' [VWord (pages_needed k)] s"
  have m0: "mem s0 = mem s" "free_list_head s0 = free_list_head s" "free_frames s0 = free_frames s"
    by (simp_all add: s0_def)
  have n0: "0 < n" using n pages_needed_pos by simp
  note D = heap_invD [OF kinvD(2) [OF K]]
  obtain s1 where s1: "expand_loop n 0 s0 = (Some ?nb, s1)"
      "kinv (B \<union> ?U) (F \<union> ?U) 0 lo (j + n) s1" "gains B ?U s0 s1" "?U \<inter> B = {}"
    using expand_loop_kinv [of B F lo j s0 n 0] K room n0 m0(3) by (auto simp: s0_def)
  have U: "?nb \<in> ?U" using n0 by simp
  then have nbB: "?nb \<in> B \<union> ?U" "?nb \<in> F \<union> ?U" "?nb \<notin> B" using s1(4) by blast+
  note D1 = heap_invD [OF kinvD(2) [OF s1(2)]]
  have nz: "?nb \<noteq> 0" by (rule tiled_nonzero [OF D1(1) nbB(1)])
  have heB: "heap_end s \<in> B" by (rule tiledD(5) [OF D(1)])
  have "j \<in> free_frames s" using room n0 by auto
  then have jb: "j < PMM_TOTAL_FRAMES" by (rule free_frames_bound)
  have e: "blk_end (hdr (mem s1)) (heap_end s) = unat ?nb"
    using s1(3) heB tiledD(8) [OF D(1)] unat_frame_addr [OF jb] m0(1) by (simp add: gains_def blk_end_def)
  have pv: "hb_prev (hdr (mem s1) ?nb) = heap_end s" (is "?pv = _")
  proof (rule ccontr)
    assume ne: "?pv \<noteq> heap_end s"
    have "?nb \<noteq> heap_start s1"
      using tiledD(6) [OF D1(1)] tiled_block(1) [OF D(1) heB] e blk_end_unfold(2) [of "heap_end s" "hdr (mem s1)"] by auto
    note P = tiled_block(8,9) [OF D1(1) nbB(1) this]
    have "?pv \<noteq> heap_end s1" using P tiledD(9) [OF D1(1)] nz by auto
    then have "blk_end (hdr (mem s1)) ?pv = unat ?nb" using tiled_block(6) [OF D1(1) P(1)] P(2) by simp
    then show False
      using tiled_sep [OF D1(1) P(1) _ ne] heB e blk_end_unfold(2) [of ?pv "hdr (mem s1)"]
        blk_end_unfold(2) [of "heap_end s" "hdr (mem s1)"] by auto
  qed
  have "\<not> hb_is_free (hdr (mem s1) (heap_end s))"
    using D1(4) [of "heap_end s"] heB used s1(4) tiled_nonzero [OF D(1) heB] by auto
  then have fin: "finish_expand ?nb s1 = add_to_free_list ?nb s1" by (simp add: finish_expand_def Let_def pv)
  have hd: "free_list_head s1 = free_list_head s" using s1(3) m0(2) by (simp add: gains_def)
  have r: "reach (B \<union> ?U) s1 (v_add (hdr (mem s1)) (free_list_head s1) ?nb) (add_to_free_list ?nb s1)"
    by (rule add_refines [OF D1(6) nbB(1) D1(7)])
  have hne: "free_list_head s \<noteq> ?nb" using D(7) nbB(3) nz by auto
  have h: "hdr (mem (add_to_free_list ?nb s1)) c = v_add (hdr (mem s1)) (free_list_head s) ?nb c"
    if "c \<in> B \<union> ?U" for c using reach_read [OF r that] hd by simp
  have "expand_heap k s = (True, add_to_free_list ?nb s1)"
    using s1(1) nz n by (simp add: expand_heap_finish s0_def fin)
  moreover have "hb_size (hdr (mem (add_to_free_list ?nb s1)) ?nb) = 4048"
    "hb_next_free (hdr (mem (add_to_free_list ?nb s1)) ?nb) = free_list_head s"
    using h [OF nbB(1)] s1(3) U hne by (auto simp: view_simps gains_def v_add_def Let_def)
  moreover have "hb_size (hdr (mem (add_to_free_list ?nb s1)) c) = hb_size (hdr (mem s) c)
      \<and> hb_next_free (hdr (mem (add_to_free_list ?nb s1)) c) = hb_next_free (hdr (mem s) c)" if "c \<in> F" for c
  proof -
    have c: "c \<in> B" "c \<noteq> ?nb" using that D(2) nbB(3) by auto
    then show ?thesis
      using h [of c] s1(3) m0(1) by (auto simp: view_simps gains_def v_add_def Let_def)
  qed
  ultimately show ?thesis using nz by (intro exI [of _ "add_to_free_list ?nb s1"]) simp
qed

text \<open>
  C37. When the last block of the heap is in use and nothing on the free list fits, a request
  of more than 4048 bytes fails even though the heap has just been grown by enough
  pages: only the first of them is put on the free list. (The comment in the code says
  that this should not happen.)
\<close>

theorem kmalloc_large_fails:
  assumes "kheap_inv s" and "room (kmalloc_pages k) s" and "\<not> hb_is_free (hdr (mem s) (heap_end s))"
    and "4048 < align8 k" and "first_fit (mem s) (free_list_head s) (align8 k) = Some 0"
  shows "\<exists>t. kmalloc k s = Some (0, t)"
proof -
  obtain B F lo j where K: "kinv B F 0 lo j s" using assms(1) by (auto simp: kheap_inv_def)
  note D = heap_invD [OF kinvD(2) [OF K]]
  have heB: "heap_end s \<in> B" by (rule tiledD(5) [OF D(1)])
  have used: "heap_end s \<notin> F" using D(4) [OF heB] tiled_nonzero [OF D(1) heB] assms(3) by simp
  have rm: "{j..<j + kmalloc_pages k} \<subseteq> free_frames s"
    using assms(2) kinv_abs(2) [OF K] by (simp add: room_def)
  obtain t where t: "expand_heap (align8 k + 48) s = (True, t)" "free_list_head t = frame_addr j" "frame_addr j \<noteq> 0"
      "hb_size (hdr (mem t) (frame_addr j)) = 4048" "hb_next_free (hdr (mem t) (frame_addr j)) = free_list_head s"
      "\<forall>c \<in> F. hb_size (hdr (mem t) c) = hb_size (hdr (mem s) c)
          \<and> hb_next_free (hdr (mem t) c) = hb_next_free (hdr (mem s) c)"
    using expand_used_end [OF K kmalloc_pages_def rm used] by (elim exE conjE) (rule that)
  have fin: "finite F" using D(1,2) tiledD(1) finite_subset by blast
  have "first_fit (mem t) (free_list_head s) (align8 k) = first_fit (mem s) (free_list_head s) (align8 k)"
    by (rule first_fit_same [OF D(3) fin refl]) (use t(6) in blast)
  then have "first_fit (mem t) (free_list_head s) (align8 k) = Some 0" using assms(5) by simp
  then have "first_fit (mem t) (free_list_head t) (align8 k) = Some 0"
    using t(2-5) assms(4) by (subst first_fit.simps) (simp add: not_le)
  moreover have "k \<noteq> 0"
  proof
    assume "k = 0"
    then have "align8 k = 0" by (simp add: align8_def)
    then show False using assms(4) by simp
  qed
  ultimately show ?thesis using t(1) assms(5) by (simp add: kmalloc_def Let_def)
qed

text \<open>A heap of one page, all of it allocated.\<close>

definition fresh_heap :: kheap where
  "fresh_heap = (frame_alloc_init image_syms None reset_heap)\<lparr>free_list_head := 0, heap_start := 0, heap_end := 0\<rparr>"

lemma fresh_heap_facts:
  "pmm_inv fresh_heap" "heap_end fresh_heap = 0" "free_list_head fresh_heap = 0"
  "free_frames fresh_heap = {..<PMM_TOTAL_FRAMES} - {128..182}"
  "n \<le> 128 \<Longrightarrow> {0..<0 + n} \<subseteq> free_frames fresh_heap" "\<forall>i \<in> free_frames fresh_heap. 0 \<le> i"
proof -
  show "pmm_inv fresh_heap" "heap_end fresh_heap = 0" "free_list_head fresh_heap = 0"
    using boot_frames(1) by (simp_all add: fresh_heap_def)
  show f: "free_frames fresh_heap = {..<PMM_TOTAL_FRAMES} - {128..182}"
    using boot_frames(4) by (simp add: fresh_heap_def)
  show "n \<le> 128 \<Longrightarrow> {0..<0 + n} \<subseteq> free_frames fresh_heap" unfolding f by auto
  show "\<forall>i \<in> free_frames fresh_heap. 0 \<le> i" by simp
qed

lemma one_page_taken:
  assumes K: "kinv B F 0 (frame_top j) (Suc j) s" and head: "free_list_head s \<noteq> 0"
    and size: "4048 \<le> hb_size (hdr (mem s) (free_list_head s))"
  shows "\<exists>p t. kmalloc 4048 s = Some (p, t) \<and> kinv {p - 48} {} 0 (frame_top j) (Suc j) t
    \<and> free_frames t = free_frames s"
proof -
  let ?b = "free_list_head s"
  have b: "?b \<in> F" using listedD(2) [OF heap_invD(3) [OF kinvD(2) [OF K]]] head by simp
  have al: "align8 4048 = 4048" by (simp add: align8_def)
  obtain p t where pt: "take_block ?b 4048 s = (p, t)" by fastforce
  have "first_fit (mem s) ?b 4048 = Some ?b" using head size by (subst first_fit.simps) simp
  then have km: "kmalloc 4048 s = Some (p, t)" using pt head by (simp add: kmalloc_def al)
  obtain B' F' where t: "kinv B' F' 0 (frame_top j) (Suc j) t" "allocates (B - F) 4048 s p (B' - F') t" "p \<noteq> 0"
      "free_frames t = free_frames s"
    using take_block_kinv [OF K b size _ pt] by auto
  note D = heap_invD [OF kinvD(2) [OF t(1)]]
  have p: "p - 48 \<in> B'" "p - 48 \<notin> F'" "4048 \<le> unat (hb_size (hdr (mem t) (p - 48)))"
    using t(2,3) by (auto simp: allocates_def word_le_nat_alt)
  have "c = p - 48" if c: "c \<in> B'" for c
  proof (rule ccontr)
    assume "c \<noteq> p - 48"
    from tiled_sep [OF D(1) c p(1) this] show False
      using tiled_block(1,2) [OF D(1) c] tiled_block(1,2) [OF D(1) p(1)] p(3) by (auto simp: blk_end_def)
  qed
  then have "B' = {p - 48}" using p(1) by blast
  moreover have "F' = {}" using calculation D(2) p(2) by blast
  ultimately show ?thesis using km t(1,4) by blast
qed

theorem kmalloc_large_fails_witness:
  "\<exists>p s t. kmalloc 4048 (snd (expand_heap 1 fresh_heap)) = Some (p, s) \<and> kmalloc 5000 s = Some (0, t)"
proof -
  have n: "1 = unat (pages_needed 1)" by (simp add: pages_needed_def)
  have r: "{0..<0 + 1} \<subseteq> free_frames fresh_heap" by (rule fresh_heap_facts(5)) simp
  note E = expand_empty [OF fresh_heap_facts(1-3) n r fresh_heap_facts(6)]
  define s where "s = snd (expand_heap 1 fresh_heap)"
  have K: "kinv {frame_addr 0} {frame_addr 0} 0 (frame_top 0) (Suc 0) s" using E(2) by (simp add: s_def)
  have h: "free_list_head s \<noteq> 0" "4048 \<le> hb_size (hdr (mem s) (free_list_head s))"
    using E(3,4) by (simp_all add: s_def frame_addr_def)
  obtain p t where t: "kmalloc 4048 s = Some (p, t)" "kinv {p - 48} {} 0 (frame_top 0) (Suc 0) t"
      "free_frames t = free_frames s" using one_page_taken [OF K h] by blast
  note D = heap_invD [OF kinvD(2) [OF t(2)]]
  have e: "heap_end t = p - 48" using tiledD(5) [OF D(1)] by simp
  have ff: "free_frames t = {..<PMM_TOTAL_FRAMES} - {128..182} - {0}"
    using t(3) E(5) by (simp add: s_def fresh_heap_facts(4))
  have pages: "kmalloc_pages 5000 = 2" by (simp add: kmalloc_pages_def pages_needed_def align8_def)
  have "\<exists>u. kmalloc 5000 t = Some (0, u)"
  proof (rule kmalloc_large_fails)
    show "kheap_inv t" using t(2) by (auto simp: kheap_inv_def)
    show "room (kmalloc_pages 5000) t"
      unfolding room_def kinv_abs(2) [OF t(2)] ff pages by auto
    show "\<not> hb_is_free (hdr (mem t) (heap_end t))"
      using D(4) [of "p - 48"] tiled_nonzero [OF D(1), of "p - 48"] by (simp add: e)
    show "4048 < align8 5000" by (simp add: align8_def)
    have "free_list_head t = 0" using D(3) by (simp add: listed_def)
    then show "first_fit (mem t) (free_list_head t) (align8 5000) = Some 0"
      by (subst first_fit.simps) simp
  qed
  then show ?thesis using t(1) by (auto simp: s_def)
qed

section \<open>Merging across a gap\<close>

text \<open>A frame beyond a gap, linked behind the last block.\<close>

lemma link_beyond:
  assumes K: "kinv B F 0 lo j s" and i: "i \<in> free_frames s" "j < i"
  defines "f \<equiv> frame_addr i" and "s1 \<equiv> take_frame i s"
  shows "f \<notin> B" and "f \<noteq> 0"
    and "reach (insert f B) s1 (v_link ((hdr (mem s))(f := hdr (mem s1) f)) (heap_end s) f) (link_frame f s1)"
proof -
  note D = heap_invD [OF kinvD(2) [OF K]]
  have ib: "i < PMM_TOTAL_FRAMES" by (rule free_frames_bound [OF i(1)])
  have fu: "unat f = frame_top i" using unat_frame_addr [OF ib] by (simp add: f_def)
  then show f0: "f \<noteq> 0" by auto
  show fB: "f \<notin> B"
  proof
    assume "f \<in> B"
    then show False
      using tiled_block(2) [OF D(1), of f] blk_end_unfold(2) [of f "hdr (mem s)"] fu i(2) by auto
  qed
  have rf: "region f 4096 = span (frame_top i) (frame_top (Suc i))"
    using fu ib by (auto simp: span_def in_region_nat)
  have hs: "hdrs B \<subseteq> span lo (frame_top j)" by (rule hdrs_span [OF D(1)])
  have out: "hdrs B \<inter> region f 4096 = {}" using hs rf i(2) by (auto simp: span_def)
  have bm: "hdrs B \<inter> bitmap_bytes s = {}" using hs kinvD(4) [OF K] by blast
  have "region f 48 \<subseteq> region f 4096" by (rule region_mono) simp
  then have sep: "separate (insert f B)" using D(5) out by (auto simp: separate_def hdrs_def)
  show "reach (insert f B) s1 (v_link ((hdr (mem s))(f := hdr (mem s1) f)) (heap_end s) f) (link_frame f s1)"
    unfolding f_def s1_def
    by (rule link_fresh(1) [OF kinvD(1) [OF K] i(1) out [unfolded f_def] bm sep [unfolded f_def] fB [unfolded f_def]
          disjI2 [OF tiledD(5) [OF D(1)]]])
qed

text \<open>A free last block absorbs it all the same.\<close>

lemma gap_absorbed:
  assumes K: "kinv B F 0 lo j s" and i: "i \<in> free_frames s" "j < i" and bF: "heap_end s \<in> F"
  defines "f \<equiv> frame_addr i" and "b \<equiv> heap_end s"
  defines "t \<equiv> finish_expand f (link_frame f (take_frame i s))"
  shows "free_list_head t = b" and "hb_size (hdr (mem t) b) = hb_size (hdr (mem s) b) + 4096"
proof -
  note D = heap_invD [OF kinvD(2) [OF K]]
  define s1 where "s1 = take_frame i s"
  define s2 where "s2 = link_frame f s1"
  define H where "H = v_link ((hdr (mem s))(f := hdr (mem s1) f)) b f"
  note L = link_beyond [OF K i, folded f_def s1_def b_def, folded s2_def H_def]
  have bF: "b \<in> F" and bB: "b \<in> B" and bI: "b \<in> insert f B" using bF D(2) by (auto simp: b_def)
  have bf: "b \<noteq> f" "b \<noteq> 0" using L(1) bB tiled_nonzero [OF D(1) bB] by auto
  have HF: "hb_size (H c) = hb_size (hdr (mem s) c)" "hb_is_free (H c) = hb_is_free (hdr (mem s) c)"
    "hb_next_free (H c) = hb_next_free (hdr (mem s) c)" "hb_prev_free (H c) = hb_prev_free (hdr (mem s) c)"
    if "c \<in> B" for c using that L(1) by (auto simp: H_def view_simps)
  have Hf: "hb_size (H f) = 4048" "hb_prev (H f) = b" "hb_next (H f) = 0"
    using bf by (simp_all add: H_def view_simps)
  have LF: "listed F H (free_list_head s2)"
    using HF D(2) by (intro listed_cong [OF D(3), THEN back_subst [of "listed F H"]]) (auto simp: s2_def s1_def)
  note P = listedD [OF LF]
  define s3 where "s3 = remove_from_free_list b s2"
  have R: "reach (insert f B) s1 (v_remove H b) s3" "free_list_head s3 = v_remove_head H (free_list_head s2) b"
    unfolding s3_def by (rule remove_refines [OF L(3) bI]; use P(4,6) [OF bF] D(2) in blast)+
  define s4 where "s4 = absorb b f s3"
  have A: "reach (insert f B) s1 (v_absorb (v_remove H b) b f) s4"
    unfolding s4_def by (rule absorb_refines [OF R(1) bI _ bf(1)]) (use Hf in \<open>simp_all add: view_simps\<close>)
  have "free_list_head s4 \<in> insert f B" if "free_list_head s4 \<noteq> 0"
    using listedD(2) [OF listed_remove [OF LF bF]] that R(2) D(2) by (auto simp: s4_def)
  note C = add_refines [OF A bI this]
  have "hdr (mem s2) f = H f" "hdr (mem s2) b = H b" using reach_read [OF L(3)] bB by auto
  moreover have "hb_is_free (H b)" using HF(2) [OF bB] D(4) [OF bB] bF bf(2) by simp
  ultimately have t: "t = add_to_free_list b s4"
    using Hf(2) bf(2) by (simp add: t_def finish_expand_def Let_def s4_def s3_def s2_def s1_def)
  show "free_list_head t = b" by (simp add: t)
  show "hb_size (hdr (mem t) b) = hb_size (hdr (mem s) b) + 4096"
    using reach_read [OF C bI] HF(1) [OF bB] Hf(1) by (simp add: t view_simps)
qed

text \<open>
  C36. Blocks are merged because they are neighbours in the list, not in memory. When the frame
  behind the heap is in use and the last block is free, one more page, wherever it lies,
  makes that block cover the frame that is in use.
\<close>

theorem expand_heap_covers_used_frame:
  assumes "kheap_inv s" and "hb_is_free (hdr (mem s) (heap_end s))" and "frontier s \<notin> free_frames s"
    and "free_frames s \<noteq> {}" and "unat (pages_needed k) = 1"
  defines "t \<equiv> snd (expand_heap k s)" and "b \<equiv> heap_end s"
  shows "fst (expand_heap k s) \<and> free_list_head t = b
    \<and> region (frame_addr (frontier s)) 4096 \<subseteq> region (b + 48) (unat (hb_size (hdr (mem t) b)))"
proof -
  obtain B F lo j where K: "kinv B F 0 lo j s" using assms(1) by (auto simp: kheap_inv_def)
  note D = heap_invD [OF kinvD(2) [OF K]]
  have fr: "frontier s = j" by (rule kinv_abs(2) [OF K])
  have bB: "b \<in> B" unfolding b_def by (rule tiledD(5) [OF D(1)])
  have bF: "heap_end s \<in> F" using D(4) [OF bB] tiled_nonzero [OF D(1) bB] assms(2) by (simp add: b_def)
  define i where "i = Min (free_frames s)"
  have i: "i \<in> free_frames s" using assms(4) by (simp add: i_def)
  have ji: "j < i" using kinvD(3) [OF K i] assms(3) i fr by (metis le_neq_implies_less)
  have ib: "i < PMM_TOTAL_FRAMES" by (rule free_frames_bound [OF i])
  define s0 where "s0 = kprintf ''KHeap: Expanding heap by %zu pages\<newline>'' [VWord (pages_needed k)] s"
  have s0: "kinv B F 0 lo j s0" "i \<in> free_frames s0" "heap_end s0 \<in> F" using K i bF by (simp_all add: s0_def)
  note G = gap_absorbed [OF s0(1,2) ji s0(3)] and f0 = link_beyond(2) [OF s0(1,2) ji]
  have "alloc_frame s0 = (frame_addr i, take_frame i s0)"
    using alloc_frame_some [of s0] s0(2) by (auto simp: i_def s0_def)
  then have ex: "expand_heap k s = (True, finish_expand (frame_addr i) (link_frame (frame_addr i) (take_frame i s0)))"
    using f0 unfolding expand_heap_finish s0_def [symmetric] assms(5) by simp
  have hd: "free_list_head t = b" and "hb_size (hdr (mem t) b) = hb_size (hdr (mem s) b) + 4096"
    using G by (simp_all add: t_def ex b_def s0_def)
  moreover have e: "unat b + 48 + unat (hb_size (hdr (mem s) b)) = frame_top j"
    using tiledD(8) [OF D(1)] by (simp add: blk_end_def b_def)
  moreover have "unat (hb_size (hdr (mem s) b) + 4096) = unat (hb_size (hdr (mem s) b)) + 4096"
    using e ji ib by (subst unat_add_no_wrap) auto
  ultimately have sz: "unat b + 48 + unat (hb_size (hdr (mem t) b)) = frame_top (Suc j)" by simp
  have u: "unat (b + 48) = unat b + 48" using tiled_low [OF D(1) bB] by (subst unat_add_no_wrap) auto
  have rb: "x \<in> region (b + 48) (unat (hb_size (hdr (mem t) b))) \<longleftrightarrow> unat b + 48 \<le> unat x \<and> unat x < frame_top (Suc j)" for x
    using sz u ji ib by (subst in_region_nat) auto
  have "x \<in> region (frame_addr j) 4096 \<longleftrightarrow> frame_top j \<le> unat x \<and> unat x < frame_top (Suc j)" for x
    using ji ib by (subst in_region_nat) (auto simp: unat_frame_addr)
  then show ?thesis using ex hd rb e fr by auto
qed

text \<open>A heap that fills the 128 frames below the kernel image, then grows by a page.\<close>

theorem expand_heap_covers_used_frame_witness:
  "\<exists>b. region (frame_addr 128) 4096 \<subseteq> region (b + 48) (unat (hb_size (hdr (mem
     (snd (expand_heap 1 (snd (expand_heap 0x7ffd0 fresh_heap))))) b)))"
proof -
  have n: "128 = unat (pages_needed 0x7ffd0)" by (simp add: pages_needed_def)
  have r: "{0..<0 + 128} \<subseteq> free_frames fresh_heap" by (rule fresh_heap_facts(5)) simp
  note E = expand_empty [OF fresh_heap_facts(1-3) n r fresh_heap_facts(6)]
  define s where "s = snd (expand_heap 0x7ffd0 fresh_heap)"
  note K = E(2) [folded s_def]
  note D = heap_invD [OF kinvD(2) [OF K]]
  have ff: "free_frames s = {..<PMM_TOTAL_FRAMES} - {128..182} - {0..<0 + 128}"
    using E(5) by (simp add: s_def fresh_heap_facts(4))
  have heB: "heap_end s \<in> frame_addr ` {0..<0 + 128}" by (rule tiledD(5) [OF D(1)])
  have fr: "frontier s = 128" using kinv_abs(2) [OF K] by simp
  have "region (frame_addr (frontier s)) 4096
      \<subseteq> region (heap_end s + 48) (unat (hb_size (hdr (mem (snd (expand_heap 1 s))) (heap_end s))))"
  proof (rule expand_heap_covers_used_frame [THEN conjunct2, THEN conjunct2])
    show "kheap_inv s" using K by (auto simp: kheap_inv_def)
    show "hb_is_free (hdr (mem s) (heap_end s))" using D(4) [OF heB] tiled_nonzero [OF D(1) heB] heB by simp
    show "frontier s \<notin> free_frames s" unfolding fr ff by simp
    have "200 \<in> free_frames s" unfolding ff by simp
    then show "free_frames s \<noteq> {}" by blast
    show "unat (pages_needed 1) = 1" by (simp add: pages_needed_def)
  qed
  from this [unfolded fr] show ?thesis unfolding s_def by (rule exI)
qed

section \<open>Headers that have been cleared\<close>

lemma load_zero: "load (\<lambda>_. 0) a n = 0"
  by (induction n arbitrary: a) simp_all

lemma zero_header:
  assumes "\<forall>y \<in> region b 48. mem s y = 0"
  shows "hdr (mem s) b = \<lparr>hb_size = 0, hb_is_free = False, hb_next = 0, hb_prev = 0, hb_next_free = 0, hb_prev_free = 0\<rparr>"
proof -
  have "hdr (mem s) b = hdr (\<lambda>_. 0) b" by (rule hdr_cong) (use assms in auto)
  also have "\<dots> = \<lparr>hb_size = 0, hb_is_free = False, hb_next = 0, hb_prev = 0, hb_next_free = 0, hb_prev_free = 0\<rparr>"
    by (simp add: hdr_def load_zero del: load.simps)
  finally show ?thesis .
qed

lemma cleared_header_freed:
  assumes inv: "kheap_inv s" and b: "b \<noteq> 0" "b + 48 \<noteq> 0" "region b 48 \<inter> hdrs (heap_blocks s) = {}"
    and z: "\<forall>y \<in> region b 48. mem s y = 0"
  shows "free_list_head (kfree (b + 48) s) = b \<and> b \<notin> heap_blocks (kfree (b + 48) s) \<and> \<not> kheap_inv (kfree (b + 48) s)"
proof -
  obtain B F lo j where K: "kinv B F 0 lo j s" using inv by (auto simp: kheap_inv_def)
  note D = heap_invD [OF kinvD(2) [OF K]]
  note B = kinv_abs(1) [OF K]
  let ?B = "insert b B"
  have "b \<in> region b 48" by (simp add: region_def)
  then have nb: "b \<notin> B" using b(3) B by (auto simp: hdrs_def)
  have "separate ?B"
    using tiled_separate [OF D(1)] b(3) nb unfolding B by (fastforce simp: separate_def hdrs_def)
  then have r0: "reach ?B s (hdr (mem s)) s" by (rule reach_refl) (simp add: hview_def)
  define s1 where "s1 = set_is_free b True (kprintf ''KHeap: kfree(%p) - block %p, size %zu\<newline>''
    [VWord (b + 48), VWord b, VWord (hb_size (hdr (mem s) b))] s)"
  define H1 where "H1 = (hdr (mem s))(b := (hdr (mem s) b)\<lparr>hb_is_free := True\<rparr>)"
  have r1: "reach ?B s H1 s1" unfolding s1_def H1_def using r0 by (intro reach_setters) simp_all
  have h1: "hdr (mem s1) b = (hdr (mem s) b)\<lparr>hb_is_free := True\<rparr>" using reach_read [OF r1] by (simp add: H1_def)
  note Z = zero_header [OF z]
  have "coalesce b s1 = (b, s1)"
    using h1 Z by (simp add: coalesce_def coalesce_next_def coalesce_prev_def Let_def)
  then obtain f as where t: "kfree (b + 48) s = kprintf f as (add_to_free_list b s1)"
    using Z b(2) by (auto simp: kfree_def Let_def s1_def)
  let ?t = "kfree (b + 48) s"
  have hd: "free_list_head s1 = free_list_head s" "heap_start ?t = heap_start s" by (simp_all add: t s1_def)
  have "free_list_head s \<noteq> 0 \<longrightarrow> free_list_head s \<in> B" using listedD(2) [OF D(3)] D(2) by auto
  then have r2: "reach ?B s (v_add H1 (free_list_head s) b) (add_to_free_list b s1)"
    using add_refines [OF r1, of b] hd(1) by simp
  have nx: "hb_next (hdr (mem ?t) c) = hb_next (hdr (mem s) c)" if "c \<in> B" for c
    using reach_read [OF r2, of c] that nb by (auto simp: t v_add_def H1_def Let_def)
  have "c \<in> B" if "c \<in> heap_blocks ?t" for c
    using that
  proof induction
    case first
    then show ?case using tiledD(4) [OF D(1)] hd(2) by simp
  next
    case (next' c)
    then show ?case using heap_blocks.next' [of c s] nx unfolding B by simp
  qed
  then have nt: "b \<notin> heap_blocks ?t" using nb by blast
  have ht: "free_list_head ?t = b" by (simp add: t)
  have "\<not> kheap_inv ?t"
  proof
    assume "kheap_inv ?t"
    then obtain B' F' lo' j' where K': "kinv B' F' 0 lo' j' ?t" by (auto simp: kheap_inv_def)
    note D' = heap_invD [OF kinvD(2) [OF K']]
    have "b \<in> B'" using listedD(2) [OF D'(3)] D'(2) ht b(1) by auto
    then show False using nt kinv_abs(1) [OF K'] by simp
  qed
  then show ?thesis using ht nt by blast
qed

text \<open>A block that is merged backward when it is freed: freeing it again is not noticed.\<close>

lemma double_free_undetected:
  assumes "kheap_inv s" and p: "live s p = Some n" and "p - 48 \<notin> heap_blocks (kfree p s)"
  shows "free_list_head (kfree p (kfree p s)) = p - 48 \<and> \<not> kheap_inv (kfree p (kfree p s))"
proof -
  obtain B F lo j where K: "kinv B F 0 lo j s" using assms(1) by (auto simp: kheap_inv_def)
  note D = heap_invD [OF kinvD(2) [OF K]]
  let ?b = "p - 48"
  have b: "?b \<in> B" "?b \<notin> F" using p by (auto simp: kinv_abs(5) [OF K] split: if_splits)
  have e: "?b + 48 = p" by simp
  obtain B' F' where t: "heap_inv B' F' 0 lo (frame_top j) (kfree p s)" "touches (hdrs B) s (kfree p s)"
      "B' \<subseteq> B" "?b \<notin> B' \<longrightarrow> (\<forall>y \<in> region ?b 48. mem (kfree p s) y = 0)"
    using kfree_step [OF kinvD(2) [OF K] b] unfolding e by metis
  note T = kinv_touches [OF K t(2) hdrs_span [OF D(1)] t(1)]
  have "kheap_inv (kfree p s)" using T(1) by (auto simp: kheap_inv_def)
  moreover have "?b \<noteq> 0" by (rule tiled_nonzero [OF D(1) b(1)])
  moreover have "?b + 48 \<noteq> 0" using live_aligned(2) [OF assms(1,2)] by simp
  moreover have "region ?b 48 \<inter> region c 48 = {}" if "c \<in> heap_blocks (kfree p s)" for c
    using tiled_separate [OF D(1)] b(1) t(3) assms(3) that kinv_abs(1) [OF T(1)] unfolding separate_def by (metis subsetD)
  then have "region ?b 48 \<inter> hdrs (heap_blocks (kfree p s)) = {}" by (auto simp: hdrs_def)
  moreover have "\<forall>y \<in> region ?b 48. mem (kfree p s) y = 0" using t(4) assms(3) kinv_abs(1) [OF T(1)] by simp
  ultimately show ?thesis using cleared_header_freed [of "kfree p s" ?b] unfolding e by blast
qed

text \<open>
  C38. \<open>kfree\<close> takes an address for that of an allocated block whenever the byte of its header
  that marks free blocks is 0. If the header has been cleared, as it is when a block is merged
  into the one before it, the check for a double free passes: the address becomes the head of
  the free list although no block of the heap lies there, and the invariant of the heap is
  lost.
\<close>

theorem kfree_cleared_header:
  assumes "kheap_inv s" and "b \<noteq> 0" and "b + 48 \<noteq> 0" and "region b 48 \<inter> hdrs (heap_blocks s) = {}"
    and "\<forall>y \<in> region b 48. mem s y = 0"
  defines "t \<equiv> kfree (b + 48) s"
  shows "free_list_head t = b \<and> b \<notin> heap_blocks t \<and> \<not> kheap_inv t"
  unfolding t_def by (rule cleared_header_freed [OF assms(1-5)])

theorem kfree_cleared_header_witness:
  "free_list_head (kfree 0x50000030 boot_heap) = 0x50000000 \<and> \<not> kheap_inv (kfree 0x50000030 boot_heap)"
proof -
  note K = kheap_init_kinv [OF boot_frames(1-3), folded boot_heap_def]
  let ?p = "frame_alloc_init image_syms None reset_heap"
  have bm: "frame_bitmap reset_heap = sym_pmm_bitmap_start image_syms" by (simp add: reset_heap_def)
  have W: "only_bitmap 0x20000 reset_heap ?p" by (rule frame_alloc_init_frame [OF bm]) (simp add: image_syms_def)
  have r: "region 0x50000000 48 \<inter> region (a :: addr) n = {}" if "unat a + n \<le> 0x50000000" for a n
    using that by (intro disjoint_regions_inter) (auto simp: disjoint_regions_def)
  have bb: "bitmap_bytes ?p \<subseteq> region 0x40097000 0x20000"
    using W region_mono [of "0x8000" "0x20000" "0x40097000 :: addr"]
    by (auto simp: bitmap_bytes_def only_bitmap_def reset_heap_def image_syms_def)
  have z: "mem boot_heap y = 0" if y: "y \<in> region 0x50000000 48" for y
  proof -
    have o: "y \<notin> region 0x40097000 0x20000" using r [of "0x40097000" "0x20000"] y by auto
    have "0x50000000 \<le> unat y" using y by (subst (asm) in_region_nat) simp_all
    then have "y \<notin> span (frame_top 0) (frame_top (0 + 5))" by (simp add: span_def)
    then have "mem boot_heap y = mem ?p y" using K(8) [of y] bb o by blast
    then show ?thesis using W o by (auto simp: only_bitmap_def reset_heap_def image_syms_def)
  qed
  have "region 0x50000000 48 \<inter> region (frame_addr i) 48 = {}" if "i < 5" for i
    using that by (intro r) (simp add: unat_frame_addr)
  then have d: "region 0x50000000 48 \<inter> hdrs (heap_blocks boot_heap) = {}"
    unfolding kinv_abs(1) [OF K(1)] hdrs_def by fastforce
  show ?thesis using kfree_cleared_header [of boot_heap "0x50000000", OF boot_heap_facts(1) _ _ d] z by simp
qed

end
