(* ===== verification/Stdlib_Stubs.thy ===== *)
theory Stdlib_Stubs
  imports CString Stdio
begin

text \<open>
  The number parser of \<^verbatim>\<open>src/src/lib/stdlib_stubs.c\<close>. The result is the value
  and the final \<open>nptr\<close>, which the C code stores through \<open>endptr\<close>; loops over a
  string without an end are \<^theory_text>\<open>partial_function (option)\<close>.
\<close>

section \<open>Definitions\<close>

definition is_space :: "byte \<Rightarrow> bool" where
  "is_space c = (c = 32 \<or> c = 9 \<or> c = 10 \<or> c = 13 \<or> c = 12 \<or> c = 11)"

partial_function (option) skip_space :: "memory \<Rightarrow> addr \<Rightarrow> addr option" where
  "skip_space m nptr = (if is_space (m nptr) then skip_space m (nptr + 1) else Some nptr)"

text \<open>The value of a digit or letter, as the if-chain of the loops computes it.\<close>

definition digit_of :: "byte \<Rightarrow> nat option" where
  "digit_of c =
     (if 48 \<le> c \<and> c \<le> 57 then Some (unat c - 48)
      else if 97 \<le> c \<and> c \<le> 122 then Some (unat c - 97 + 10)
      else if 65 \<le> c \<and> c \<le> 90 then Some (unat c - 65 + 10)
      else None)"

text \<open>After an overflow: consume the remaining valid digits.\<close>

partial_function (option) skip_digits :: "memory \<Rightarrow> addr \<Rightarrow> nat \<Rightarrow> addr option" where
  "skip_digits m nptr base =
     (case digit_of (m (nptr + 1)) of
        None \<Rightarrow> Some (nptr + 1)
      | Some digit \<Rightarrow>
          if digit \<ge> base then Some (nptr + 1) else skip_digits m (nptr + 1) base)"

partial_function (option) strtoull_loop ::
    "memory \<Rightarrow> addr \<Rightarrow> nat \<Rightarrow> u64 \<Rightarrow> (u64 \<times> addr) option" where
  "strtoull_loop m nptr base result =
     (case digit_of (m nptr) of
        None \<Rightarrow> Some (result, nptr)
      | Some digit \<Rightarrow>
          if digit \<ge> base then Some (result, nptr)
          else if result > UINT64_MAX div of_nat base
                \<or> result = UINT64_MAX div of_nat base \<and> of_nat digit > UINT64_MAX mod of_nat base
          then do { e \<leftarrow> skip_digits m nptr base; Some (UINT64_MAX, e) }
          else strtoull_loop m (nptr + 1) base (result * of_nat base + of_nat digit))"

text \<open>Sign and base prefix, from the pointer behind the white space.\<close>

definition skip_sign :: "memory \<Rightarrow> addr \<Rightarrow> addr" where
  "skip_sign m nptr = (if m nptr = 43 then nptr + 1 else if m nptr = 45 then nptr + 1 else nptr)"

definition find_base :: "memory \<Rightarrow> addr \<Rightarrow> int \<Rightarrow> int \<times> addr" where
  "find_base m nptr base =
     (if (base = 0 \<or> base = 16) \<and> m nptr = 48 \<and> (m (nptr + 1) = 120 \<or> m (nptr + 1) = 88)
      then (16, nptr + 2)
      else if base = 0 then (10, nptr)
      else (base, nptr))"

definition simple_strtoull :: "memory \<Rightarrow> addr \<Rightarrow> int \<Rightarrow> (u64 \<times> addr) option" where
  "simple_strtoull m orig_nptr base0 =
     do {
       nptr \<leftarrow> skip_space m orig_nptr;
       let (base, nptr) = find_base m (skip_sign m nptr) base0;
       if base < 2 \<or> base > 16 then Some (0, orig_nptr)
       else strtoull_loop m nptr (nat base) 0
     }"

definition simple_strtoul :: "memory \<Rightarrow> addr \<Rightarrow> int \<Rightarrow> (u64 \<times> addr) option" where
  "simple_strtoul m nptr base =
     do {
       (val, e) \<leftarrow> simple_strtoull m nptr base;
       Some (if val > UINT64_MAX then UINT64_MAX else val, e)
     }"

definition abort :: "'a machine_scheme \<Rightarrow> 'a machine_scheme outcome" where
  "abort s = Halted (kprintf ''ABORT CALLED!\<newline>'' [] s)"

text \<open>
  The reference: digit strings of a base, and the value clipped to 64 bits.
\<close>

definition valid_digits :: "nat \<Rightarrow> byte list \<Rightarrow> bool" where
  "valid_digits base xs = (\<forall>c \<in> set xs. case digit_of c of None \<Rightarrow> False | Some d \<Rightarrow> d < base)"

definition digit_vals :: "byte list \<Rightarrow> nat list" where
  "digit_vals xs = map (\<lambda>c. the (digit_of c)) xs"

definition saturate :: "nat \<Rightarrow> u64" where
  "saturate n = (if n < 2 ^ 64 then of_nat n else UINT64_MAX)"

definition string_bytes :: "string \<Rightarrow> byte list" where
  "string_bytes s = map of_char s"

definition stops :: "nat \<Rightarrow> byte list \<Rightarrow> bool" where
  "stops base ys = (case ys of [] \<Rightarrow> True | y # _ \<Rightarrow> \<not> valid_digits base [y])"

section \<open>The digit loop\<close>

lemma digit_of_NUL [simp]: "digit_of 0 = None"
  by (simp add: digit_of_def)

lemma overflow_check_nat:
  assumes "0 < (b::nat)" and "d < b"
  shows "r > M div b \<or> r = M div b \<and> d > M mod b \<longleftrightarrow> r * b + d > M"
proof -
  define q t where "q = M div b" and "t = M mod b"
  have M: "M = q * b + t" by (simp add: q_def t_def)
  have t: "t < b" using assms(1) by (simp add: t_def)
  consider "r < q" | "r = q" | "r > q" by linarith
  then have "r > q \<or> r = q \<and> d > t \<longleftrightarrow> r * b + d > M"
  proof cases
    case 1
    then have "(r + 1) * b \<le> q * b" by (intro mult_right_mono) auto
    with 1 assms(2) M show ?thesis by (simp add: algebra_simps)
  next
    case 2
    then show ?thesis using M by auto
  next
    case 3
    then have "(q + 1) * b \<le> r * b" by (intro mult_right_mono) auto
    with 3 M t show ?thesis by (simp add: algebra_simps)
  qed
  then show ?thesis by (simp add: q_def t_def)
qed

lemma overflow_check:
  assumes "2 \<le> b" and "b \<le> 16" and "d < b"
  shows "(r > UINT64_MAX div of_nat b \<or> r = UINT64_MAX div of_nat b \<and> of_nat d > UINT64_MAX mod of_nat b)
     \<longleftrightarrow> \<not> unat r * b + d < 2 ^ 64"
proof -
  have "unat (of_nat b :: u64) = b" and "unat (of_nat d :: u64) = d" using assms by simp_all
  then have "(r > UINT64_MAX div of_nat b \<or> r = UINT64_MAX div of_nat b \<and> of_nat d > UINT64_MAX mod of_nat b)
      \<longleftrightarrow> unat r > (2 ^ 64 - 1) div b \<or> unat r = (2 ^ 64 - 1) div b \<and> d > (2 ^ 64 - 1) mod b"
    by (simp only: word_less_nat_alt word_unat_eq_iff unat_div unat_mod unat_UINT64_MAX)
  also have "\<dots> \<longleftrightarrow> unat r * b + d > 2 ^ 64 - 1"
    using assms by (intro overflow_check_nat) auto
  finally show ?thesis by auto
qed

lemma digits_value_Cons_acc:
  "foldl (\<lambda>a d. a * b + d) r ds = r * b ^ length ds + digits_value b ds"
proof (induction ds rule: rev_induct)
  case Nil
  then show ?case by (simp add: digits_value_def)
next
  case (snoc d ds)
  then show ?case by (simp add: algebra_simps)
qed

lemma digits_value_Cons: "digits_value b (d # ds) = d * b ^ length ds + digits_value b ds"
  using digits_value_Cons_acc [of b d ds] by (simp add: digits_value_def)

lemma valid_digits_Cons [simp]:
  "valid_digits b (c # xs) \<longleftrightarrow> (\<exists>d. digit_of c = Some d \<and> d < b) \<and> valid_digits b xs"
  by (auto simp: valid_digits_def split: option.splits)

lemma valid_digits_Nil [simp]: "valid_digits b []"
  by (simp add: valid_digits_def)

lemma stops_digit:
  assumes "cstr m p ys" and "stops b ys"
  shows "\<not> (\<exists>d. digit_of (m p) = Some d \<and> d < b)"
  using assms by (cases ys) (auto simp: stops_def)

lemma skip_digits_spec:
  "valid_digits b xs \<Longrightarrow> cstr m (p + 1) (xs @ ys) \<Longrightarrow> stops b ys \<Longrightarrow>
   skip_digits m p b = Some (p + 1 + of_nat (length xs))"
proof (induction xs arbitrary: p)
  case Nil
  then have "\<not> (\<exists>d. digit_of (m (p + 1)) = Some d \<and> d < b)" by (intro stops_digit) auto
  then show ?case by (subst skip_digits.simps) (auto split: option.splits)
next
  case (Cons c xs)
  then show ?case by (subst skip_digits.simps) (auto simp: add.assoc)
qed

lemma saturate_unat [simp]: "saturate (unat r) = r"
  using unat_lt64 [of r] by (simp add: saturate_def)

lemma saturate_large: "\<not> n < 2 ^ 64 \<Longrightarrow> saturate n = UINT64_MAX"
  by (simp add: saturate_def)

lemma strtoull_loop_spec:
  assumes b: "2 \<le> b" "b \<le> 16"
    and "valid_digits b xs" and "cstr m p (xs @ ys)" and "stops b ys"
  shows "strtoull_loop m p b r =
     Some (saturate (unat r * b ^ length xs + digits_value b (digit_vals xs)), p + of_nat (length xs))"
  using assms(3-)
proof (induction xs arbitrary: p r)
  case Nil
  then have "\<not> (\<exists>d. digit_of (m p) = Some d \<and> d < b)" by (intro stops_digit) auto
  then show ?case
    by (subst strtoull_loop.simps) (auto simp: digit_vals_def digits_value_def split: option.splits)
next
  case (Cons c xs)
  then obtain d where d: "digit_of (m p) = Some d" "d < b" and c: "digit_of c = Some d"
      and xs: "valid_digits b xs" "cstr m (p + 1) (xs @ ys)"
    by auto
  define v where "v = digits_value b (digit_vals xs)"
  have total: "unat r * b ^ length (c # xs) + digits_value b (digit_vals (c # xs))
      = (unat r * b + d) * b ^ length xs + v"
    using c by (simp add: digit_vals_def digits_value_Cons v_def algebra_simps)
  show ?case
  proof (cases "unat r * b + d < 2 ^ 64")
    case True
    define r' where "r' = r * of_nat b + of_nat d"
    have "unat r' = unat r * b + d"
      using True d(2) b by (simp add: r'_def unat_word_ariths mod_simps)
    then have IH: "strtoull_loop m (p + 1) b r' =
        Some (saturate ((unat r * b + d) * b ^ length xs + v), p + 1 + of_nat (length xs))"
      using Cons.IH [OF xs Cons.prems(3), of r'] by (simp add: v_def)
    have "strtoull_loop m p b r = strtoull_loop m (p + 1) b r'"
      using d(2) by (subst strtoull_loop.simps)
        (simp only: d(1) overflow_check [OF b d(2)] True r'_def option.case, simp)
    with IH show ?thesis unfolding total by (simp add: add.assoc)
  next
    case False
    define t where "t = unat r * b + d"
    have "t * 1 \<le> t * b ^ length xs" using b by (intro mult_le_mono2) simp
    with False have "\<not> t * b ^ length xs + v < 2 ^ 64" unfolding t_def [symmetric] by linarith
    then have sat: "saturate ((unat r * b + d) * b ^ length xs + v) = UINT64_MAX"
      unfolding t_def by (rule saturate_large)
    have "strtoull_loop m p b r = Some (UINT64_MAX, p + 1 + of_nat (length xs))"
      using skip_digits_spec [OF xs Cons.prems(3)] d(2)
      by (subst strtoull_loop.simps) (simp only: d(1) overflow_check [OF b d(2)] False option.case, simp)
    then show ?thesis unfolding total sat by (simp add: add.assoc)
  qed
qed

section \<open>White space, sign and prefix\<close>

lemma skip_space_spec:
  assumes "\<forall>c \<in> set ws. is_space c" and "cstr m p (ws @ zs)"
    and "case zs of [] \<Rightarrow> True | z # _ \<Rightarrow> \<not> is_space z"
  shows "skip_space m p = Some (p + of_nat (length ws))"
  using assms
proof (induction ws arbitrary: p)
  case Nil
  then have "\<not> is_space (m p)" by (cases zs) (auto simp: is_space_def)
  then show ?case by (subst skip_space.simps) simp
next
  case (Cons w ws)
  then show ?case by (subst skip_space.simps) (simp add: add.assoc)
qed

lemma digit_not_space: "digit_of c = Some d \<Longrightarrow> \<not> is_space c \<and> c \<noteq> 43 \<and> c \<noteq> 45"
  by (auto simp: digit_of_def is_space_def split: if_splits)

lemma skip_sign_spec:
  assumes "cstr m p (sg @ zs)" and "sg \<in> {[], [43], [45]}"
    and "case zs of [] \<Rightarrow> True | z # _ \<Rightarrow> z \<noteq> 43 \<and> z \<noteq> 45"
  shows "skip_sign m p = p + of_nat (length sg)"
  using assms by (cases zs) (auto simp: skip_sign_def)

text \<open>The part before the digits: white space, an ignored sign, then the rest of the string.\<close>

lemma strtoull_front:
  assumes c: "cstr m p (ws @ sg @ c # zs)" and ws: "\<forall>c \<in> set ws. is_space c"
    and sg: "sg \<in> {[], [43], [45]}" and dg: "digit_of c = Some d"
  shows "\<exists>q. q = p + of_nat (length ws + length sg) \<and> cstr m q (c # zs)
     \<and> simple_strtoull m p base0 =
         (case find_base m q base0 of (base, nptr) \<Rightarrow>
            if base < 2 \<or> base > 16 then Some (0, p) else strtoull_loop m nptr (nat base) 0)"
proof -
  have nsp: "case sg @ c # zs of [] \<Rightarrow> True | z # _ \<Rightarrow> \<not> is_space z"
    using sg digit_not_space [OF dg] by (auto simp: is_space_def)
  have at_sg: "cstr m (p + of_nat (length ws)) (sg @ c # zs)"
    using c cstr_append [of m p ws] by blast
  then have "skip_sign m (p + of_nat (length ws)) = p + of_nat (length ws) + of_nat (length sg)"
    using sg digit_not_space [OF dg] by (intro skip_sign_spec) auto
  moreover have "cstr m (p + of_nat (length ws) + of_nat (length sg)) (c # zs)"
    using at_sg cstr_append [of m _ sg] by blast
  ultimately show ?thesis
    using skip_space_spec [OF ws c nsp] by (simp add: simple_strtoull_def add.assoc)
qed

section \<open>Whole strings\<close>

lemma decimal_value:
  assumes "cstr m p (ws @ sg @ xs @ ys)" and "\<forall>c \<in> set ws. is_space c"
    and "sg \<in> {[], [43], [45]}" and "valid_digits 10 xs" and "xs \<noteq> []" and "stops 10 ys"
    and "base = 10 \<or> base = 0 \<and> ys = []"
  shows "simple_strtoull m p base =
     Some (saturate (digits_value 10 (digit_vals xs)), p + of_nat (length ws + length sg + length xs))"
proof -
  from assms(5) obtain c zs where xs: "xs = c # zs" by (cases xs) auto
  with assms(4) obtain d where dg: "digit_of c = Some d" by auto
  obtain q where q: "q = p + of_nat (length ws + length sg)" "cstr m q (xs @ ys)"
      and eq: "simple_strtoull m p base = (case find_base m q base of (base, nptr) \<Rightarrow>
            if base < 2 \<or> base > 16 then Some (0, p) else strtoull_loop m nptr (nat base) 0)"
    using strtoull_front [of m p ws sg c "zs @ ys" d base] assms(1-3) dg xs by auto
  have "m (q + 1) \<noteq> 120 \<and> m (q + 1) \<noteq> 88" if "ys = []"
  proof -
    from q(2) xs that have "cstr m (q + 1) zs" by simp
    moreover have "valid_digits 10 zs" using assms(4) xs by simp
    ultimately show ?thesis by (cases zs) (auto simp: digit_of_def split: if_splits)
  qed
  then have "find_base m q base = (10, q)" using assms(7) by (auto simp: find_base_def)
  then show ?thesis
    using eq strtoull_loop_spec [OF _ _ assms(4) q(2) assms(6), of 0] q(1) by (simp add: add.assoc)
qed

lemma hex_value:
  assumes "cstr m p (ws @ sg @ 48 # x # xs @ ys)" and "\<forall>c \<in> set ws. is_space c"
    and "sg \<in> {[], [43], [45]}" and "x = 120 \<or> x = 88"
    and "valid_digits 16 xs" and "stops 16 ys" and "base = 0 \<or> base = 16"
  shows "simple_strtoull m p base =
     Some (saturate (digits_value 16 (digit_vals xs)),
           p + of_nat (length ws + length sg + 2 + length xs))"
proof -
  have dg: "digit_of 48 = Some 0" by (simp add: digit_of_def)
  obtain q where q: "q = p + of_nat (length ws + length sg)" "cstr m q (48 # x # xs @ ys)"
      and eq: "simple_strtoull m p base = (case find_base m q base of (base, nptr) \<Rightarrow>
            if base < 2 \<or> base > 16 then Some (0, p) else strtoull_loop m nptr (nat base) 0)"
    using strtoull_front [OF assms(1-3) dg, of base] by auto
  then have "find_base m q base = (16, q + 2)" using assms(4,7) by (auto simp: find_base_def)
  moreover have "cstr m (q + 2) (xs @ ys)"
    using q(2) by (simp add: add.assoc)
  ultimately show ?thesis
    using eq strtoull_loop_spec [OF _ _ assms(5) _ assms(6), of m "q + 2" 0] q(1)
    by (simp add: add.assoc)
qed

lemma digit_of_hex_char: "d < 16 \<Longrightarrow> digit_of (of_char (hex_digit_char b d)) = Some d"
proof -
  have "\<forall>b \<in> {True, False}. \<forall>d \<in> set [0..<16]. digit_of (of_char (hex_digit_char b d)) = Some d"
    by code_simp
  then show "d < 16 \<Longrightarrow> ?thesis" by (cases b) simp_all
qed

lemma printed_digits:
  assumes "2 \<le> base" and "\<And>d. d < base \<Longrightarrow> digit_of (of_char (f d)) = Some d"
  shows "valid_digits base (string_bytes (map f (nat_digits base n)))
       \<and> digits_value base (digit_vals (string_bytes (map f (nat_digits base n)))) = n"
proof -
  have "digit_of (of_char (f d)) = Some d \<and> d < base" if "d \<in> set (nat_digits base n)" for d
    using assms nat_digits_less [OF assms(1) that] by simp
  then have "valid_digits base (string_bytes (map f (nat_digits base n)))"
    and "digit_vals (string_bytes (map f (nat_digits base n))) = nat_digits base n"
    by (auto simp: valid_digits_def digit_vals_def string_bytes_def intro!: map_idI)
  then show ?thesis by (simp add: digits_value_nat_digits)
qed

text \<open>What \<open>%llx\<close> or \<open>%llX\<close> prints is read back behind the prefix \<open>0x\<close>, in base 0 and in base 16.\<close>

lemma printed_hex:
  assumes "cstr m p (48 # 120 # string_bytes (hex_digits b v []))" and "base = 0 \<or> base = 16"
  shows "simple_strtoull m p base = Some (v, p + of_nat (2 + length (hex_digits b v [])))"
proof -
  let ?xs = "string_bytes (hex_digits b v [])"
  have pd: "valid_digits 16 ?xs \<and> digits_value 16 (digit_vals ?xs) = unat v"
    using printed_digits [of 16 "hex_digit_char b" "unat v"] digit_of_hex_char
    by (simp add: hex_digits_eq)
  then show ?thesis
    using hex_value [of m p "[]" "[]" 120 ?xs "[]" base] assms
    by (simp add: stops_def string_bytes_def)
qed

section \<open>Theorems\<close>

text \<open>
  C30. White space, an optional sign, and decimal digits, or the prefix \<open>0x\<close> or \<open>0X\<close> and
  hexadecimal digits, give the value of the digits clipped to \<open>UINT64_MAX\<close>; the end pointer is
  behind the last digit. Decimal numbers are read in base 10, or in base 0 at the end of the
  string, hexadecimal ones in base 16 and 0. The sign is skipped and has no effect, and no
  digit need follow the prefix.
\<close>

theorem strtoull_parses:
  assumes "cstr m p (ws @ sg @ pre @ xs @ ys)" and "\<forall>c \<in> set ws. is_space c" and "sg \<in> {[], [43], [45]}"
    and "radix = 10 \<and> pre = [] \<and> xs \<noteq> [] \<and> (base = 10 \<or> base = 0 \<and> ys = [])
       \<or> radix = 16 \<and> pre \<in> {[48, 120], [48, 88]} \<and> (base = 0 \<or> base = 16)"
    and "valid_digits radix xs" and "stops radix ys"
  shows "simple_strtoull m p base = Some (saturate (digits_value radix (digit_vals xs)),
           p + of_nat (length ws + length sg + length pre + length xs))"
  using assms(4)
proof
  assume "radix = 10 \<and> pre = [] \<and> xs \<noteq> [] \<and> (base = 10 \<or> base = 0 \<and> ys = [])"
  then show ?thesis using decimal_value [of m p ws sg xs ys base] assms by simp
next
  assume h: "radix = 16 \<and> pre \<in> {[48, 120], [48, 88]} \<and> (base = 0 \<or> base = 16)"
  then obtain x where "pre = [48, x]" "x = 120 \<or> x = 88" by blast
  then show ?thesis using hex_value [of m p ws sg x xs ys base] assms h by simp
qed

theorem strtoull_parses_witness:
  "simple_strtoull (mem_of 0x1000 [32, 45, 52, 50]) 0x1000 0 = Some (42, 0x1004)
     \<and> simple_strtoull (mem_of 0x1000 [48, 120, 52, 70]) 0x1000 0 = Some (0x4f, 0x1004)"
proof -
  have v: "valid_digits 10 [52, 50]" "valid_digits 16 [52, 70]" by code_simp+
  have "saturate (digits_value 10 (digit_vals [52, 50])) = 42" "saturate (digits_value 16 (digit_vals [52, 70])) = 0x4f"
    by (simp_all add: saturate_def digits_value_def digit_vals_def digit_of_def)
  then show ?thesis
    using strtoull_parses [of "mem_of 0x1000 [32, 45, 52, 50]" "0x1000" "[32]" "[45]" "[]" "[52, 50]" "[]" 10 0]
      strtoull_parses [of "mem_of 0x1000 [48, 120, 52, 70]" "0x1000" "[]" "[]" "[48, 120]" "[52, 70]" "[]" 16 0]
      cstr_mem_of [of "[32, 45, 52, 50]" "0x1000"] cstr_mem_of [of "[48, 120, 52, 70]" "0x1000"] v
    by (simp add: is_space_def stops_def)
qed

end
