(* ===== verification/Exceptions.thy ===== *)
theory Exceptions
  imports Frame_Alloc
begin

text \<open>
  Exception entry and exit of \<^verbatim>\<open>src/src/exceptions/exceptions_asm.S\<close>, the handlers of
  \<^verbatim>\<open>src/src/exceptions/exceptions.c\<close> and the system call handler of
  \<^verbatim>\<open>src/src/syscall/syscall.c\<close>. The saved context lies in memory, where the assembly
  stores it and the handlers read and change it through a pointer; the layout is the one
  of \<open>saved_registers_t\<close>. A handler that ends in \<open>panic\<close> never returns.
\<close>

section \<open>Registers and contexts\<close>

record cpu =
  cpu_x :: "nat \<Rightarrow> u64"
  cpu_sp :: addr
  cpu_spsr_el1 :: u64
  cpu_elr_el1 :: u64
  cpu_sp_el0 :: u64
  cpu_esr_el1 :: u64
  cpu_far_el1 :: u64

text \<open>The fields of \<open>saved_registers_t\<close>: 31 general registers, then three system registers.\<close>

definition ctx_reg :: "memory \<Rightarrow> addr \<Rightarrow> nat \<Rightarrow> u64" where
  "ctx_reg m context i = load64 m (context + of_nat (8 * i))"

definition ctx_spsr :: "memory \<Rightarrow> addr \<Rightarrow> u64" where "ctx_spsr m context = load64 m (context + 248)"
definition ctx_elr :: "memory \<Rightarrow> addr \<Rightarrow> u64" where "ctx_elr m context = load64 m (context + 256)"
definition ctx_sp_el0 :: "memory \<Rightarrow> addr \<Rightarrow> u64" where "ctx_sp_el0 m context = load64 m (context + 264)"

definition set_ctx_elr :: "addr \<Rightarrow> u64 \<Rightarrow> 'a machine_scheme \<Rightarrow> 'a machine_scheme" where
  "set_ctx_elr context v s = s\<lparr>mem := store64 (mem s) (context + 256) v\<rparr>"

section \<open>Entry and exit\<close>

definition stp :: "u64 \<Rightarrow> u64 \<Rightarrow> addr \<Rightarrow> memory \<Rightarrow> memory" where
  "stp v w a m = store64 (store64 m a v) (a + 8) w"

definition save_gprs :: "(nat \<Rightarrow> u64) \<Rightarrow> addr \<Rightarrow> memory \<Rightarrow> memory" where
  "save_gprs x sp m =
     store64 (fold (\<lambda>k. stp (x (2 * k)) (x (2 * k + 1)) (sp + of_nat (16 * k))) [0..<15] m) (sp + 240) (x 30)"

definition save_context :: "cpu \<Rightarrow> memory \<Rightarrow> cpu \<times> memory" where
  "save_context c m =
     (let sp = cpu_sp c - 288;
          m1 = save_gprs (cpu_x c) sp m;
          x = (cpu_x c)(0 := cpu_spsr_el1 c, 1 := cpu_elr_el1 c, 2 := cpu_sp_el0 c);
          m2 = stp (x 0) (x 1) (sp + 248) m1;
          m3 = store64 m2 (sp + 264) (x 2)
      in (c\<lparr>cpu_sp := sp, cpu_x := x(0 := sp)\<rparr>, m3))"

definition restore_gprs :: "addr \<Rightarrow> memory \<Rightarrow> (nat \<Rightarrow> u64) \<Rightarrow> nat \<Rightarrow> u64" where
  "restore_gprs sp m x =
     (fold (\<lambda>k x. x(2 * k := load64 m (sp + of_nat (16 * k)), 2 * k + 1 := load64 m (sp + of_nat (16 * k) + 8)))
        [0..<15] x)(30 := load64 m (sp + 240))"

text \<open>Up to and with \<open>eret\<close>, which continues at \<open>ELR_EL1\<close>.\<close>

definition restore_context :: "cpu \<Rightarrow> memory \<Rightarrow> cpu" where
  "restore_context c m =
     (let sp = cpu_sp c;
          x = (cpu_x c)(0 := load64 m (sp + 248), 1 := load64 m (sp + 248 + 8), 2 := load64 m (sp + 264))
      in c\<lparr>cpu_spsr_el1 := x 0, cpu_elr_el1 := x 1, cpu_sp_el0 := x 2,
           cpu_x := restore_gprs sp m x, cpu_sp := sp + 288\<rparr>)"

section \<open>Handlers\<close>

definition panic :: "string \<Rightarrow> 'a machine_scheme \<Rightarrow> 'a machine_scheme outcome" where
  "panic message s =
     Halted (kprintf ''System halted.\<newline>'' []
       (kprintf ''\<newline>KERNEL PANIC: %s\<newline>'' [VStr (Some message)] s))"

fun print_regs_loop :: "nat list \<Rightarrow> addr \<Rightarrow> 'a machine_scheme \<Rightarrow> 'a machine_scheme" where
  "print_regs_loop [] context s = s"
| "print_regs_loop (i # is) context s =
     print_regs_loop is context
       (kprintf ''  x%-2d: %016llx   x%-2d: %016llx\<newline>''
          [VWord (of_nat i), VWord (ctx_reg (mem s) context i), VWord (of_nat i + 1),
           VWord (if i + 1 < 31 then ctx_reg (mem s) context (i + 1) else 0)] s)"

definition print_registers :: "addr \<Rightarrow> 'a machine_scheme \<Rightarrow> 'a machine_scheme" where
  "print_registers context s =
     (let s1 = kprintf ''Saved Registers:\<newline>'' [] s;
          s2 = print_regs_loop (filter even [0..<31]) context s1;
          s3 = kprintf ''  SPSR_EL1: %016llx\<newline>'' [VWord (ctx_spsr (mem s2) context)] s2;
          s4 = kprintf ''  ELR_EL1:  %016llx\<newline>'' [VWord (ctx_elr (mem s3) context)] s3
      in kprintf ''  SP_EL0:   %016llx\<newline>'' [VWord (ctx_sp_el0 (mem s4) context)] s4)"

definition handle_syscall :: "16 word \<Rightarrow> addr \<Rightarrow> 'a machine_scheme \<Rightarrow> 'a machine_scheme" where
  "handle_syscall svc_imm context s =
     (let s1 = kprintf ''Handling syscall: 0x%x\<newline>'' [VWord (ucast svc_imm)] s;
          s2 = kprintf ''Arguments (x0-x3): %016llx %016llx %016llx %016llx\<newline>''
                 [VWord (ctx_reg (mem s1) context 0), VWord (ctx_reg (mem s1) context 1),
                  VWord (ctx_reg (mem s1) context 2), VWord (ctx_reg (mem s1) context 3)] s1
      in set_ctx_elr context (ctx_elr (mem s2) context + 4) s2)"

text \<open>The switch over the exception class: a description, and whether \<open>FAR_EL1\<close> is valid.\<close>

definition describe_ec :: "u32 \<Rightarrow> string \<times> bool" where
  "describe_ec ec =
     (if ec = 0x00 then (''Unknown reason'', False)
      else if ec = 0x01 then (''Trapped WFI or WFE'', False)
      else if ec = 0x0E then (''Illegal Execution State'', False)
      else if ec = 0x11 then (''SVC instruction execution in AArch32 state'', False)
      else if ec = 0x15 then (''SVC instruction execution in AArch64 state'', False)
      else if ec = 0x18 then (''Trapped MSR, MRS or System instruction execution in AArch64 state'', False)
      else if ec = 0x19 then (''Access to SVE functionality trapped'', False)
      else if ec = 0x20 then (''Instruction Abort from a lower Exception level (AArch32)'', True)
      else if ec = 0x21 then (''Instruction Abort from a lower Exception level (AArch64)'', True)
      else if ec = 0x22 then (''PC alignment fault exception'', False)
      else if ec = 0x24 then (''Data Abort from a lower Exception level (AArch32)'', True)
      else if ec = 0x25 then (''Data Abort from a lower Exception level (AArch64)'', True)
      else if ec = 0x26 then (''SP alignment fault exception'', False)
      else if ec = 0x28 then (''Trapped floating-point exception (AArch32)'', False)
      else if ec = 0x2C then (''Trapped floating-point exception (AArch64)'', False)
      else if ec = 0x30 then (''SError interrupt'', False)
      else if ec = 0x31 then (''Breakpoint exception from a lower Exception level (AArch32)'', False)
      else if ec = 0x32 then (''Breakpoint exception from a lower Exception level (AArch64)'', False)
      else if ec = 0x34 then (''Step exception from a lower Exception level (AArch32)'', False)
      else if ec = 0x35 then (''Step exception from a lower Exception level (AArch64)'', False)
      else if ec = 0x38 then (''Watchpoint exception from a lower Exception level (AArch32)'', False)
      else if ec = 0x39 then (''Watchpoint exception from a lower Exception level (AArch64)'', False)
      else if ec = 0x3C then (''BRK instruction execution in AArch64 state'', False)
      else if ec = 0x23 then (''Instruction Abort from current EL'', True)
      else if ec = 0x27 then (''Data Abort from current EL'', True)
      else (''Unhandled Exception Class'', False))"

definition esr_ec :: "u64 \<Rightarrow> u32" where
  "esr_ec esr = ucast (drop_bit 26 esr AND 0x3F)"

definition esr_iss :: "u64 \<Rightarrow> u32" where
  "esr_iss esr = ucast (esr AND 0x1FFFFFF)"

definition handle_sync_exception ::
    "u64 \<Rightarrow> u64 \<Rightarrow> addr \<Rightarrow> 'a machine_scheme \<Rightarrow> 'a machine_scheme outcome" where
  "handle_sync_exception esr far context s =
     (let elr = ctx_elr (mem s) context;
          ec = esr_ec esr;
          iss = esr_iss esr;
          (ec_str, far_valid) = describe_ec ec
      in if ec = 0x3C then
           (let s1 = kprintf ''BRK instruction encountered. Continuing execution.\<newline>'' [] s
            in Returned (set_ctx_elr context (ctx_elr (mem s1) context + 4) s1))
         else if ec = 0x15 then
           Returned (handle_syscall (ucast (iss AND 0xFFFF)) context s)
         else
           (let s1 = kprintf ''\<newline>--- Synchronous Exception Taken ---\<newline>'' [] s;
                s2 = kprintf '' ESR_EL1: %016llx (EC: 0x%x, ISS: 0x%x)\<newline>''
                       [VWord esr, VWord (ucast ec), VWord (ucast iss)] s1;
                s3 = kprintf '' ELR_EL1: %016llx (Return Address)\<newline>'' [VWord elr] s2;
                s4 = kprintf '' Type: %s\<newline>'' [VStr (Some ec_str)] s3;
                s5 = (if far_valid
                      then kprintf '' FAR_EL1: %016llx (Faulting Virtual Address)\<newline>'' [VWord far] s4
                      else s4);
                s6 = print_registers context s5;
                s7 = kprintf ''-------------------------------------\<newline>'' [] s6
            in panic ''Unhandled synchronous exception'' s7))"

definition handle_irq :: "addr \<Rightarrow> 'a machine_scheme \<Rightarrow> 'a machine_scheme outcome" where
  "handle_irq context s =
     (let s1 = kprintf ''\<newline>--- IRQ Received ---\<newline>'' [] s;
          s2 = kprintf '' (No GIC driver implemented yet)\<newline>'' [] s1;
          s3 = print_registers context s2
      in Returned (kprintf ''--------------------\<newline>'' [] s3))"

definition handle_fiq :: "addr \<Rightarrow> 'a machine_scheme \<Rightarrow> 'a machine_scheme outcome" where
  "handle_fiq context s =
     panic ''FIQ handling not implemented''
       (print_registers context (kprintf ''\<newline>--- FIQ Received ---\<newline>'' [] s))"

definition handle_serror :: "u64 \<Rightarrow> addr \<Rightarrow> 'a machine_scheme \<Rightarrow> 'a machine_scheme outcome" where
  "handle_serror esr context s =
     (let s1 = kprintf ''\<newline>--- SError Received ---\<newline>'' [] s;
          s2 = kprintf '' ESR_EL1: %016llx\<newline>'' [VWord esr] s1
      in panic ''SError handling not implemented'' (print_registers context s2))"

text \<open>
  The common handlers of the vector table: save, call, restore. \<open>body\<close> is what the call
  leaves in the registers: any values, but for the stack pointer.
\<close>

datatype vector = Sync | Irq | Fiq | Serror

fun call_handler :: "vector \<Rightarrow> cpu \<Rightarrow> 'a machine_scheme \<Rightarrow> 'a machine_scheme outcome" where
  "call_handler Sync c s = handle_sync_exception (cpu_esr_el1 c) (cpu_far_el1 c) (cpu_x c 0) s"
| "call_handler Irq c s = handle_irq (cpu_x c 0) s"
| "call_handler Fiq c s = handle_fiq (cpu_x c 0) s"
| "call_handler Serror c s = handle_serror (cpu_esr_el1 c) (cpu_x c 0) s"

definition take_exception ::
    "(cpu \<Rightarrow> cpu) \<Rightarrow> vector \<Rightarrow> cpu \<Rightarrow> 'a machine_scheme \<Rightarrow> (cpu \<times> 'a machine_scheme) outcome" where
  "take_exception body v c s =
     (case save_context c (mem s) of (c1, m1) \<Rightarrow>
        (case call_handler v c1 (s\<lparr>mem := m1\<rparr>) of
           Halted s2 \<Rightarrow> Halted (c1, s2)
         | Returned s2 \<Rightarrow> Returned (restore_context (body c1) (mem s2), s2)))"

section \<open>The vector table\<close>

text \<open>
  The processor enters the table at an offset that depends on where the exception comes from
  and on its kind; the entries are 128 bytes apart (\<^verbatim>\<open>.align 7\<close>) and branch to a label.
\<close>

datatype origin = Current_SP0 | Current_SPx | Lower_AArch64 | Lower_AArch32

datatype label = Handler_sp0 vector | Handler_spx vector | Handler_el0_64 vector | Handler_el0_32 vector

definition exception_vector_table :: "label list" where
  "exception_vector_table =
     [Handler_sp0 Sync, Handler_sp0 Irq, Handler_sp0 Fiq, Handler_sp0 Serror,
      Handler_spx Sync, Handler_spx Irq, Handler_spx Fiq, Handler_spx Serror,
      Handler_el0_64 Sync, Handler_el0_64 Irq, Handler_el0_64 Fiq, Handler_el0_64 Serror,
      Handler_el0_32 Sync, Handler_el0_32 Irq, Handler_el0_32 Fiq, Handler_el0_32 Serror]"

text \<open>The offsets of the architecture.\<close>

definition vector_offset :: "origin \<Rightarrow> vector \<Rightarrow> u64" where
  "vector_offset src v =
     (case src of Current_SP0 \<Rightarrow> 0x000 | Current_SPx \<Rightarrow> 0x200 | Lower_AArch64 \<Rightarrow> 0x400 | Lower_AArch32 \<Rightarrow> 0x600)
     + (case v of Sync \<Rightarrow> 0x00 | Irq \<Rightarrow> 0x80 | Fiq \<Rightarrow> 0x100 | Serror \<Rightarrow> 0x180)"

text \<open>The common handler a label leads to; \<open>None\<close>: the endless loop for 32-bit code.\<close>

fun route :: "label \<Rightarrow> vector option" where
  "route (Handler_sp0 v) = Some v"
| "route (Handler_spx v) = Some v"
| "route (Handler_el0_64 v) = Some v"
| "route (Handler_el0_32 v) = None"

text \<open>An exception from the entry of the processor on. The stack pointer is \<open>SP_EL1\<close>.\<close>

definition exception_entry ::
    "(cpu \<Rightarrow> cpu) \<Rightarrow> origin \<Rightarrow> vector \<Rightarrow> cpu \<Rightarrow> 'a machine_scheme \<Rightarrow> (cpu \<times> 'a machine_scheme) outcome" where
  "exception_entry body src v c s =
     (case route (exception_vector_table ! (unat (vector_offset src v) div 128)) of
        Some h \<Rightarrow> take_exception body h c s
      | None \<Rightarrow> Halted (c, s))"

lemma vector_table_slot:
  "unat (vector_offset src v) div 128 < length exception_vector_table"
  "route (exception_vector_table ! (unat (vector_offset src v) div 128)) = (if src = Lower_AArch32 then None else Some v)"
  by (cases src; cases v; simp add: vector_offset_def exception_vector_table_def)+

lemma exception_entry_eq:
  "exception_entry body src v c s = (if src = Lower_AArch32 then Halted (c, s) else take_exception body v c s)"
  by (simp add: exception_entry_def vector_table_slot(2))

section \<open>Words of the frame\<close>

text \<open>The frame as an array of words: the fields of the context are the words 0 to 33.\<close>

lemma unat_word_offset: "i < 64 \<Longrightarrow> unat (of_nat (8 * i) :: addr) = 8 * i"
  by (subst unat_of_nat64) simp_all

lemma frame_load_store:
  assumes "i < 64" and "j < 64"
  shows "load64 (store64 m (a + of_nat (8 * j)) v) (a + of_nat (8 * i))
    = (if i = j then v else load64 m (a + of_nat (8 * i)))"
proof (cases "i = j")
  case False
  then have "8 * j + 8 \<le> 8 * i \<or> 8 * i + 8 \<le> 8 * j" by linarith
  then show ?thesis
    using False assms by (simp add: load_store_off unat_word_offset del: load.simps store.simps of_nat_mult)
qed (simp del: load.simps store.simps)

lemma frame_store_outside:
  assumes "j < 36" and "x \<notin> region a 288"
  shows "store64 m (a + of_nat (8 * j)) v x = m x"
proof -
  have "region (a + of_nat (8 * j)) 8 \<subseteq> region a 288"
    using assms(1) by (intro region_off_subset) (simp_all add: unat_word_offset del: of_nat_mult)
  with assms(2) show ?thesis by (intro store_outside) auto
qed

lemma frame_words:
  "(240 :: addr) = of_nat (8 * 30)" "(248 :: addr) = of_nat (8 * 31)" "(256 :: addr) = of_nat (8 * 32)"
  "(264 :: addr) = of_nat (8 * 33)" "(a :: addr) + 248 + 8 = a + of_nat (8 * 32)"
  "(a :: addr) + of_nat (16 * k) + 8 = a + of_nat (8 * (2 * k + 1))" "of_nat (16 * k) = (of_nat (8 * (2 * k)) :: addr)"
  by (simp_all add: algebra_simps)

lemma stp_words:
  "stp v w (a + of_nat (16 * k)) m = store64 (store64 m (a + of_nat (8 * (2 * k))) v) (a + of_nat (8 * (2 * k + 1))) w"
  unfolding stp_def frame_words(6) unfolding frame_words(7) by (rule refl)

lemma save_pairs:
  fixes m :: memory and a :: addr and x :: "nat \<Rightarrow> u64"
  assumes "n \<le> 15"
  defines "m' \<equiv> fold (\<lambda>k. stp (x (2 * k)) (x (2 * k + 1)) (a + of_nat (16 * k))) [0..<n] m"
  shows "i < 2 * n \<Longrightarrow> load64 m' (a + of_nat (8 * i)) = x i" and "y \<notin> region a 288 \<Longrightarrow> m' y = m y"
proof -
  have "(\<forall>i < 2 * n. load64 m' (a + of_nat (8 * i)) = x i) \<and> (\<forall>y. y \<notin> region a 288 \<longrightarrow> m' y = m y)"
    unfolding m'_def using assms(1)
  proof (induction n)
    case (Suc n)
    let ?m = "fold (\<lambda>k. stp (x (2 * k)) (x (2 * k + 1)) (a + of_nat (16 * k))) [0..<n] m"
    have f: "fold (\<lambda>k. stp (x (2 * k)) (x (2 * k + 1)) (a + of_nat (16 * k))) [0..<Suc n] m
        = store64 (store64 ?m (a + of_nat (8 * (2 * n))) (x (2 * n))) (a + of_nat (8 * (2 * n + 1))) (x (2 * n + 1))"
      by (simp only: upt_Suc_append le0 fold_append fold.simps comp_apply id_apply stp_words)
    have "load64 (store64 (store64 ?m (a + of_nat (8 * (2 * n))) (x (2 * n))) (a + of_nat (8 * (2 * n + 1))) (x (2 * n + 1)))
        (a + of_nat (8 * i)) = x i" if "i < 2 * Suc n" for i
    proof -
      have lt: "2 * n < 64" "2 * n + 1 < 64" "i < 64" using that Suc.prems by auto
      have "load64 ?m (a + of_nat (8 * i)) = x i" if "i < 2 * n" using Suc that by simp
      then show ?thesis
        using that unfolding frame_load_store [OF lt(3,2)] frame_load_store [OF lt(3,1)] by auto
    qed
    moreover have "store64 (store64 ?m (a + of_nat (8 * (2 * n))) (x (2 * n))) (a + of_nat (8 * (2 * n + 1))) (x (2 * n + 1)) y = m y"
      if "y \<notin> region a 288" for y
    proof -
      have lt: "2 * n < 36" "2 * n + 1 < 36" using Suc.prems by auto
      show ?thesis
        unfolding frame_store_outside [OF lt(2) that] frame_store_outside [OF lt(1) that] using Suc that by simp
    qed
    ultimately show ?case unfolding f by blast
  qed simp
  then show "i < 2 * n \<Longrightarrow> load64 m' (a + of_nat (8 * i)) = x i" and "y \<notin> region a 288 \<Longrightarrow> m' y = m y" by blast+
qed

lemma restore_pairs:
  "fold (\<lambda>k x. x(2 * k := load64 m (a + of_nat (16 * k)), 2 * k + 1 := load64 m (a + of_nat (16 * k) + 8))) [0..<n] x i
   = (if i < 2 * n then load64 m (a + of_nat (8 * i)) else x i)"
proof (induction n)
  case (Suc n)
  have "i < 2 * Suc n \<longleftrightarrow> i < 2 * n \<or> i = 2 * n \<or> i = 2 * n + 1" by auto
  moreover have "(a :: addr) + of_nat (16 * n) = a + of_nat (8 * (2 * n))" by simp
  moreover have "(a :: addr) + of_nat (16 * n) + 8 = a + of_nat (8 * (2 * n + 1))" by (rule frame_words(6))
  ultimately show ?case
    unfolding upt_Suc_append [OF le0] fold_append comp_apply fold.simps id_apply
    by (simp only: fun_upd_apply Suc) auto
qed simp

lemma four_words:
  assumes "i < 34"
  shows "load64 (store64 (store64 (store64 (store64 p (a + of_nat (8 * 30)) v0) (a + of_nat (8 * 31)) v1)
      (a + of_nat (8 * 32)) v2) (a + of_nat (8 * 33)) v3) (a + of_nat (8 * i))
    = (if i = 33 then v3 else if i = 32 then v2 else if i = 31 then v1 else if i = 30 then v0
       else load64 p (a + of_nat (8 * i)))"
proof -
  have lt: "i < 64" "(30 :: nat) < 64" "(31 :: nat) < 64" "(32 :: nat) < 64" "(33 :: nat) < 64" using assms by auto
  show ?thesis
    unfolding frame_load_store [OF lt(1,5)] frame_load_store [OF lt(1,4)] frame_load_store [OF lt(1,3)]
      frame_load_store [OF lt(1,2)] by (rule refl)
qed

text \<open>The words of the frame behind \<open>save_context\<close>.\<close>

definition frame_word :: "cpu \<Rightarrow> nat \<Rightarrow> u64" where
  "frame_word c i = (if i < 31 then cpu_x c i else if i = 31 then cpu_spsr_el1 c
     else if i = 32 then cpu_elr_el1 c else cpu_sp_el0 c)"

lemma save_context_words:
  assumes "save_context c m = (c1, m1)"
  shows "i < 34 \<Longrightarrow> load64 m1 (cpu_sp c - 288 + of_nat (8 * i)) = frame_word c i"
    and "y \<notin> region (cpu_sp c - 288) 288 \<Longrightarrow> m1 y = m y"
    and "cpu_sp c1 = cpu_sp c - 288" and "cpu_x c1 0 = cpu_sp c - 288"
    and "cpu_esr_el1 c1 = cpu_esr_el1 c" and "cpu_far_el1 c1 = cpu_far_el1 c"
proof -
  let ?a = "cpu_sp c - 288"
  let ?p = "fold (\<lambda>k. stp (cpu_x c (2 * k)) (cpu_x c (2 * k + 1)) (?a + of_nat (16 * k))) [0..<15] m"
  have m1: "m1 = store64 (store64 (store64 (store64 ?p (?a + of_nat (8 * 30)) (cpu_x c 30))
      (?a + of_nat (8 * 31)) (cpu_spsr_el1 c)) (?a + of_nat (8 * 32)) (cpu_elr_el1 c))
      (?a + of_nat (8 * 33)) (cpu_sp_el0 c)"
    using assms unfolding save_context_def save_gprs_def stp_def Let_def prod.inject
    by (simp del: store.simps upt_rec_numeral add: algebra_simps)
  note S = save_pairs [where n = 15 and a = ?a and x = "cpu_x c" and m = m, OF order_refl]
  show "load64 m1 (?a + of_nat (8 * i)) = frame_word c i" if lt: "i < 34"
    using S(1) [of i] lt unfolding m1 four_words [OF lt] frame_word_def by auto
  show "m1 y = m y" if "y \<notin> region ?a 288"
  proof -
    have lt: "(30 :: nat) < 36" "(31 :: nat) < 36" "(32 :: nat) < 36" "(33 :: nat) < 36" by simp_all
    show ?thesis
      unfolding m1 frame_store_outside [OF lt(4) that] frame_store_outside [OF lt(3) that]
        frame_store_outside [OF lt(2) that] frame_store_outside [OF lt(1) that] by (rule S(2) [OF that])
  qed
  show "cpu_sp c1 = ?a" "cpu_x c1 0 = ?a" "cpu_esr_el1 c1 = cpu_esr_el1 c" "cpu_far_el1 c1 = cpu_far_el1 c"
    using assms by (auto simp: save_context_def Let_def)
qed

section \<open>What the handlers do to memory\<close>

lemma kprintf_mem [simp]: "mem (kprintf f as s) = mem s"
  by (simp add: kprintf_def)

lemma print_regs_loop_mem [simp]: "mem (print_regs_loop is context s) = mem s"
  by (induction "is" "context" s rule: print_regs_loop.induct) simp_all

lemma print_registers_mem [simp]: "mem (print_registers context s) = mem s"
  by (simp add: print_registers_def Let_def)

lemma handle_syscall_mem:
  "mem (handle_syscall imm context s) = store64 (mem s) (context + 256) (ctx_elr (mem s) context + 4)"
  by (simp add: handle_syscall_def set_ctx_elr_def Let_def del: store.simps)

definition resumes :: "vector \<Rightarrow> u64 \<Rightarrow> bool" where
  "resumes v esr \<longleftrightarrow> v = Irq \<or> v = Sync \<and> esr_ec esr \<in> {0x3C, 0x15}"

definition elr_step :: "vector \<Rightarrow> u64" where
  "elr_step v = (if v = Sync then 4 else 0)"

lemma call_handler_returns:
  assumes "resumes v (cpu_esr_el1 c)"
  shows "\<exists>t. call_handler v c s = Returned t \<and> mem t = (if v = Irq then mem s
    else store64 (mem s) (cpu_x c 0 + 256) (ctx_elr (mem s) (cpu_x c 0) + 4))"
  using assms
  by (cases v) (auto simp: resumes_def handle_irq_def Let_def handle_sync_exception_def handle_syscall_mem
      set_ctx_elr_def split: prod.splits simp del: store.simps)

lemma call_handler_halts:
  assumes "\<not> resumes v (cpu_esr_el1 c)"
  shows "\<exists>t. call_handler v c s = Halted t \<and> mem t = mem s"
  using assms
  by (cases v) (auto simp: resumes_def handle_fiq_def handle_serror_def panic_def Let_def
      handle_sync_exception_def split: prod.splits)

lemma restore_context_words:
  assumes "\<And>i. i < 34 \<Longrightarrow> load64 m (cpu_sp c + of_nat (8 * i)) = w i"
  shows "i < 31 \<Longrightarrow> cpu_x (restore_context c m) i = w i" and "cpu_spsr_el1 (restore_context c m) = w 31"
    and "cpu_elr_el1 (restore_context c m) = w 32" and "cpu_sp_el0 (restore_context c m) = w 33"
    and "cpu_sp (restore_context c m) = cpu_sp c + 288"
proof -
  have f: "load64 m (cpu_sp c + 240) = w 30" "load64 m (cpu_sp c + 248) = w 31" "load64 m (cpu_sp c + 256) = w 32"
    "load64 m (cpu_sp c + 264) = w 33"
    using assms [of 30] assms [of 31] assms [of 32] assms [of 33] by simp_all
  have e: "cpu_sp c + 248 + 8 = cpu_sp c + 256" by simp
  show "cpu_spsr_el1 (restore_context c m) = w 31" "cpu_elr_el1 (restore_context c m) = w 32"
    "cpu_sp_el0 (restore_context c m) = w 33" "cpu_sp (restore_context c m) = cpu_sp c + 288"
    unfolding restore_context_def Let_def using f by (simp_all add: e del: load.simps)
  show "cpu_x (restore_context c m) i = w i" if "i < 31"
  proof (cases "i = 30")
    case True
    then show ?thesis unfolding restore_context_def Let_def restore_gprs_def using f(1) by simp
  next
    case False
    then have "i < 2 * 15" "i < 34" using that by auto
    moreover obtain x where "cpu_x (restore_context c m) = restore_gprs (cpu_sp c) m x"
      by (simp add: restore_context_def Let_def)
    ultimately show ?thesis
      using False assms [of i] by (simp only: restore_gprs_def fun_upd_apply restore_pairs if_True if_False)
  qed
qed

text \<open>An exception whose handler returns.\<close>

lemma exception_returns:
  assumes "src \<noteq> Lower_AArch32" and "resumes v (cpu_esr_el1 c)" and "\<forall>c. cpu_sp (body c) = cpu_sp c"
  shows "\<exists>c' t. exception_entry body src v c s = Returned (c', t)
    \<and> (\<forall>i < 31. cpu_x c' i = cpu_x c i) \<and> cpu_sp c' = cpu_sp c \<and> cpu_spsr_el1 c' = cpu_spsr_el1 c
    \<and> cpu_sp_el0 c' = cpu_sp_el0 c \<and> cpu_elr_el1 c' = cpu_elr_el1 c + elr_step v
    \<and> (\<forall>x. x \<notin> region (cpu_sp c - 288) 288 \<longrightarrow> mem t x = mem s x)"
proof -
  let ?a = "cpu_sp c - 288"
  obtain c1 m1 where sv: "save_context c (mem s) = (c1, m1)" by fastforce
  note S = save_context_words [OF sv]
  obtain t where t: "call_handler v c1 (s\<lparr>mem := m1\<rparr>) = Returned t"
      "mem t = (if v = Irq then m1 else store64 m1 (?a + 256) (ctx_elr m1 ?a + 4))"
    using call_handler_returns [of v c1 "s\<lparr>mem := m1\<rparr>"] assms(2) S(4,5) by auto
  have e: "(256 :: addr) = of_nat (8 * 32)" by simp
  have elr: "ctx_elr m1 ?a = cpu_elr_el1 c" using S(1) [of 32] unfolding ctx_elr_def e by (simp add: frame_word_def)
  have v: "v = Irq \<or> v = Sync" using assms(2) by (auto simp: resumes_def)
  define w where "w i = (if i = 32 then cpu_elr_el1 c + elr_step v else frame_word c i)" for i
  have sp: "cpu_sp (body c1) = ?a" using assms(3) S(3) by simp
  have w: "load64 (mem t) (cpu_sp (body c1) + of_nat (8 * i)) = w i" if "i < 34" for i
  proof -
    have "load64 (store64 m1 (?a + of_nat (8 * 32)) (cpu_elr_el1 c + 4)) (?a + of_nat (8 * i))
        = (if i = 32 then cpu_elr_el1 c + 4 else frame_word c i)"
      using that S(1) [of i] by (subst frame_load_store) auto
    then show ?thesis
      using v S(1) [OF that] unfolding sp t(2) elr w_def elr_step_def e by (auto simp: frame_word_def)
  qed
  note R = restore_context_words [of "mem t" "body c1" w, OF w]
  have "mem t x = mem s x" if "x \<notin> region ?a 288" for x
    using frame_store_outside [of 32 x ?a m1] that S(2) [OF that] unfolding t(2) e by simp
  moreover have "exception_entry body src v c s = Returned (restore_context (body c1) (mem t), t)"
    using sv t(1) assms(1) by (simp add: exception_entry_eq take_exception_def)
  ultimately show ?thesis
    using R by (intro exI [of _ "restore_context (body c1) (mem t)"] exI [of _ t]) (simp add: w_def frame_word_def sp)
qed

section \<open>Theorems\<close>

text \<open>
  C14. An exception from 64-bit code that a handler returns from, an interrupt, a breakpoint or
  a system call, is routed by the vector table to its handler and gives every general register, the stack pointers and the status register back their
  values, whatever the handler left in them; the return address is as before for an
  interrupt and four higher for the other two, and memory changes only in the 288-byte
  frame below the stack pointer. (For a breakpoint this continues behind the instruction;
  the return address of a system call already points behind the \<open>SVC\<close>, so the instruction
  that follows it is skipped.)
\<close>

theorem exception_roundtrip:
  assumes "src \<noteq> Lower_AArch32" and "resumes v (cpu_esr_el1 c)" and "\<forall>c. cpu_sp (body c) = cpu_sp c"
  shows "\<exists>c' t. exception_entry body src v c s = Returned (c', t)
    \<and> (\<forall>i < 31. cpu_x c' i = cpu_x c i) \<and> cpu_sp c' = cpu_sp c \<and> cpu_spsr_el1 c' = cpu_spsr_el1 c
    \<and> cpu_sp_el0 c' = cpu_sp_el0 c \<and> cpu_elr_el1 c' = cpu_elr_el1 c + elr_step v
    \<and> (\<forall>x. x \<notin> region (cpu_sp c - 288) 288 \<longrightarrow> mem t x = mem s x)"
  using assms by (rule exception_returns)

definition brk_cpu :: cpu where
  "brk_cpu = \<lparr>cpu_x = (\<lambda>i. of_nat i), cpu_sp = 0x400b6000, cpu_spsr_el1 = 0x3c5, cpu_elr_el1 = 0x40081000,
     cpu_sp_el0 = 0, cpu_esr_el1 = 0xf2000000, cpu_far_el1 = 0\<rparr>"

theorem exception_roundtrip_witness:
  "\<exists>c' t. exception_entry (\<lambda>c. c\<lparr>cpu_x := (\<lambda>_. 0)\<rparr>) Current_SPx Sync brk_cpu reset_pmm = Returned (c', t)
     \<and> cpu_elr_el1 c' = 0x40081004 \<and> cpu_x c' 7 = 7"
proof -
  have r: "resumes Sync (cpu_esr_el1 brk_cpu)" by (simp add: resumes_def brk_cpu_def esr_ec_def)
  have b: "\<forall>c :: cpu. cpu_sp (c\<lparr>cpu_x := (\<lambda>_. 0)\<rparr>) = cpu_sp c" by simp
  obtain c' t where "exception_entry (\<lambda>c. c\<lparr>cpu_x := (\<lambda>_. 0)\<rparr>) Current_SPx Sync brk_cpu reset_pmm = Returned (c', t)"
      "\<forall>i < 31. cpu_x c' i = cpu_x brk_cpu i" "cpu_elr_el1 c' = cpu_elr_el1 brk_cpu + elr_step Sync"
    using exception_roundtrip [OF _ r b, of Current_SPx reset_pmm] by blast
  then show ?thesis by (intro exI [of _ c'] exI [of _ t]) (simp add: brk_cpu_def elr_step_def)
qed

text \<open>
  C28. Every other exception halts the machine: no handler returns from it, and it changes
  nothing but the console and the frame of the saved registers. Exceptions from 32-bit code
  end in a loop that does not even do that.
\<close>

theorem exception_halts:
  assumes "src = Lower_AArch32 \<or> \<not> resumes v (cpu_esr_el1 c)"
  shows "\<exists>c' t. exception_entry body src v c s = Halted (c', t)
    \<and> (\<forall>x. x \<notin> region (cpu_sp c - 288) 288 \<longrightarrow> mem t x = mem s x) \<and> (src = Lower_AArch32 \<longrightarrow> t = s)"
proof (cases "src = Lower_AArch32")
  case True
  then show ?thesis by (simp add: exception_entry_eq)
next
  case False
  obtain c1 m1 where sv: "save_context c (mem s) = (c1, m1)" by fastforce
  note S = save_context_words [OF sv]
  obtain t where "call_handler v c1 (s\<lparr>mem := m1\<rparr>) = Halted t" "mem t = m1"
    using call_handler_halts [of v c1 "s\<lparr>mem := m1\<rparr>"] assms False S(5) by auto
  then show ?thesis using sv S(2) False by (simp add: exception_entry_eq take_exception_def)
qed

theorem exception_halts_witness:
  "\<exists>c' t. exception_entry id Lower_AArch64 Fiq brk_cpu reset_pmm = Halted (c', t)"
proof -
  have "Lower_AArch64 = Lower_AArch32 \<or> \<not> resumes Fiq (cpu_esr_el1 brk_cpu)" by (simp add: resumes_def)
  from exception_halts [OF this, of id reset_pmm] show ?thesis by blast
qed

end
