(* ===== verification/Shell.thy ===== *)
theory Shell
  imports Stdlib_Stubs Kheap Exceptions
begin

text \<open>
  The command line of \<^verbatim>\<open>src/src/shell/shell.c\<close>: reading and editing a line, splitting it into
  arguments, finding the command and running it. Strings are read from and written to
  memory. What the compiler and the linker decide is a parameter (\<open>shell_env\<close>): the addresses
  of the line buffer on the stack, of the string literals (the separator, \<open>"exit"\<close>, \<open>""\<close>) and
  of the command names, which are initialised static arrays; \<open>env_partial\<close> and \<open>env_formats\<close>
  belong to the system call below. \<open>None\<close> stands for a call that does not return: waiting for
  input for ever, or a string without an end.
\<close>

section \<open>State\<close>

record shell = kheap +
  strtok_last :: addr

record shell_env =
  env_cmd_buffer :: addr
  env_space :: addr
  env_exit :: addr
  env_names :: "addr list"
  env_empty :: addr
  env_partial :: "u64 list \<Rightarrow> addr"
  env_formats :: "(addr \<times> byte list) list"

abbreviation MAX_CMD_LEN :: nat where "MAX_CMD_LEN \<equiv> 128"
abbreviation MAX_ARGS :: nat where "MAX_ARGS \<equiv> 10"

text \<open>The text of the C string at an address, for \<open>%s\<close>.\<close>

partial_function (option) cstring :: "memory \<Rightarrow> addr \<Rightarrow> string option" where
  "cstring m a =
     (if m a = 0 then Some []
      else do { t \<leftarrow> cstring m (a + 1); Some (char_of (unat (m a)) # t) })"

definition kprintf_s :: "string \<Rightarrow> addr \<Rightarrow> 'a machine_scheme \<Rightarrow> 'a machine_scheme option" where
  "kprintf_s fmt a s = do { t \<leftarrow> cstring (mem s) a; Some (kprintf fmt [VStr (Some t)] s) }"

section \<open>Address check\<close>

definition is_address_valid :: "u64 \<Rightarrow> u64 \<Rightarrow> 'a pmm_scheme \<Rightarrow> bool" where
  "is_address_valid addr len s =
     (let highest_ram = pmm_get_highest_usable_address s
      in if addr < PMM_RAM_BASE \<or> addr \<ge> highest_ram then False
         else if len > 0 \<and> addr + len - 1 \<ge> highest_ram then False
         else True)"

section \<open>Commands\<close>

text \<open>A row of the dump: the hexadecimal columns, then the characters.\<close>

fun dump_hex :: "nat list \<Rightarrow> u64 \<Rightarrow> u64 \<Rightarrow> u64 \<Rightarrow> 'a machine_scheme \<Rightarrow> 'a machine_scheme" where
  "dump_hex [] ptr i length' s = s"
| "dump_hex (j # js) ptr i length' s =
     (let s1 = (if i + of_nat j < length'
                then kprintf ''%02x '' [VWord (ucast (mem s (ptr + (i + of_nat j))))] s
                else kprintf ''   '' [] s);
          s2 = (if j = 7 then kprintf '' '' [] s1 else s1)
      in dump_hex js ptr i length' s2)"

fun dump_chars :: "nat list \<Rightarrow> u64 \<Rightarrow> u64 \<Rightarrow> u64 \<Rightarrow> 'a machine_scheme \<Rightarrow> 'a machine_scheme" where
  "dump_chars [] ptr i length' s = s"
| "dump_chars (j # js) ptr i length' s =
     (let c = mem s (ptr + (i + of_nat j));
          s1 = (if i + of_nat j < length'
                then kprintf ''%c'' [VWord (ucast (if c \<ge> 32 \<and> c \<le> 126 then c else 46))] s
                else kprintf '' '' [] s)
      in dump_chars js ptr i length' s1)"

definition dump_row :: "u64 \<Rightarrow> u64 \<Rightarrow> u64 \<Rightarrow> 'a machine_scheme \<Rightarrow> 'a machine_scheme" where
  "dump_row addr i length' s =
     (let s1 = kprintf ''%016llx: '' [VWord (addr + i)] s;
          s2 = dump_hex [0..<16] addr i length' s1;
          s3 = kprintf '' |'' [] s2;
          s4 = dump_chars [0..<16] addr i length' s3
      in kprintf ''|\<newline>'' [] s4)"

partial_function (option) dump_loop :: "u64 \<Rightarrow> u64 \<Rightarrow> u64 \<Rightarrow> 'a machine_scheme \<Rightarrow> 'a machine_scheme option" where
  "dump_loop addr i length' s =
     (if i < length' then dump_loop addr (i + 16) length' (dump_row addr i length' s) else Some s)"

definition cmd_memdump :: "nat \<Rightarrow> addr list \<Rightarrow> 'a shell_scheme \<Rightarrow> 'a shell_scheme option" where
  "cmd_memdump argc argv s =
     (if argc < 2 then Some (kprintf ''Usage: memdump <address> [length]\<newline>'' [] s)
      else do {
        (addr, endptr) \<leftarrow> simple_strtoull (mem s) (argv ! 1) 0;
        if mem s endptr \<noteq> 0 then kprintf_s ''Error: Invalid address format '%s'\<newline>'' (argv ! 1) s
        else do {
          (length', endptr) \<leftarrow> (if argc > 2 then simple_strtoull (mem s) (argv ! 2) 0 else Some (256, endptr));
          if argc > 2 \<and> mem s endptr \<noteq> 0 then kprintf_s ''Error: Invalid length format '%s'\<newline>'' (argv ! 2) s
          else if length' = 0 then Some s
          else if \<not> is_address_valid addr length' s then
            Some (kprintf ''Error: Address range 0x%llx - 0x%llx is not within valid RAM.\<newline>''
                    [VWord addr, VWord (addr + length' - 1)] s)
          else dump_loop addr 0 length'
                 (kprintf ''Memory dump from 0x%llx (length %zu):\<newline>'' [VWord addr, VWord length'] s)
        }
      })"

text \<open>The size letter of \<open>peek\<close> and \<open>poke\<close>.\<close>

definition size_bytes_of :: "byte \<Rightarrow> nat option" where
  "size_bytes_of c =
     (if c = 98 then Some 1 else if c = 104 then Some 2 else if c = 119 then Some 4
      else if c = 100 then Some 8 else None)"

definition size_char_of :: "nat \<Rightarrow> addr list \<Rightarrow> nat \<Rightarrow> 'a machine_scheme \<Rightarrow> (byte \<times> bool) option" where
  "size_char_of argc argv n s =
     (if argc > n then do { l \<leftarrow> strlen (mem s) (argv ! n); Some (mem s (argv ! n), l = 1) }
      else Some (100, True))"

definition warn_unaligned :: "u64 \<Rightarrow> nat \<Rightarrow> 'a machine_scheme \<Rightarrow> 'a machine_scheme" where
  "warn_unaligned addr n s =
     (if 1 < n \<and> addr mod of_nat n \<noteq> 0
      then kprintf ''Warning: Address 0x%llx is not aligned for size %zu.\<newline>'' [VWord addr, VWord (of_nat n)] s
      else s)"

definition cmd_peek :: "nat \<Rightarrow> addr list \<Rightarrow> 'a shell_scheme \<Rightarrow> 'a shell_scheme option" where
  "cmd_peek argc argv s =
     (if argc < 2 then Some (kprintf ''Usage: peek <address> [size: b/h/w/d (default: d)]\<newline>'' [] s)
      else do {
        (addr, endptr) \<leftarrow> simple_strtoull (mem s) (argv ! 1) 0;
        if mem s endptr \<noteq> 0 then kprintf_s ''Error: Invalid address format '%s'\<newline>'' (argv ! 1) s
        else do {
          (size_char, single) \<leftarrow> size_char_of argc argv 2 s;
          if \<not> single then kprintf_s ''Error: Invalid size format '%s'\<newline>'' (argv ! 2) s
          else case size_bytes_of size_char of
                 None \<Rightarrow> Some (kprintf ''Error: Invalid size '%c'. Use b, h, w, or d.\<newline>'' [VWord (ucast size_char)] s)
               | Some n \<Rightarrow>
                   if \<not> is_address_valid addr (of_nat n) s then
                     Some (kprintf ''Error: Address 0x%llx is not within valid RAM for size %zu.\<newline>''
                             [VWord addr, VWord (of_nat n)] s)
                   else
                     (let s1 = warn_unaligned addr n s;
                          s2 = kprintf ''Peek at 0x%llx (size %zu): '' [VWord addr, VWord (of_nat n)] s1
                      in Some (kprintf (if n = 1 then ''0x%02llx\<newline>'' else if n = 2 then ''0x%04llx\<newline>''
                                        else if n = 4 then ''0x%08llx\<newline>'' else ''0x%016llx\<newline>'')
                                 [VWord (load (mem s2) addr n)] s2))
        }
      })"

definition cmd_poke :: "nat \<Rightarrow> addr list \<Rightarrow> 'a shell_scheme \<Rightarrow> 'a shell_scheme option" where
  "cmd_poke argc argv s =
     (if argc < 3 then Some (kprintf ''Usage: poke <address> <value> [size: b/h/w/d (default: d)]\<newline>'' [] s)
      else do {
        (addr, endptr) \<leftarrow> simple_strtoull (mem s) (argv ! 1) 0;
        if mem s endptr \<noteq> 0 then kprintf_s ''Error: Invalid address format '%s'\<newline>'' (argv ! 1) s
        else do {
          (value, endptr) \<leftarrow> simple_strtoull (mem s) (argv ! 2) 0;
          if mem s endptr \<noteq> 0 then kprintf_s ''Error: Invalid value format '%s'\<newline>'' (argv ! 2) s
          else do {
            (size_char, single) \<leftarrow> size_char_of argc argv 3 s;
            if \<not> single then kprintf_s ''Error: Invalid size format '%s'\<newline>'' (argv ! 3) s
            else case size_bytes_of size_char of
                   None \<Rightarrow> Some (kprintf ''Error: Invalid size '%c'. Use b, h, w, or d.\<newline>'' [VWord (ucast size_char)] s)
                 | Some n \<Rightarrow>
                     if \<not> is_address_valid addr (of_nat n) s then
                       Some (kprintf ''Error: Address 0x%llx is not within valid RAM for size %zu.\<newline>''
                               [VWord addr, VWord (of_nat n)] s)
                     else
                       (let s1 = warn_unaligned addr n s;
                            s2 = kprintf ''Poke at 0x%llx (size %zu) with value 0x%llx\<newline>''
                                   [VWord addr, VWord (of_nat n), VWord value] s1
                        in Some (s2\<lparr>mem := store (mem s2) addr n value\<rparr>))
          }
        }
      })"

definition cmd_alloc :: "nat \<Rightarrow> addr list \<Rightarrow> 'a shell_scheme \<Rightarrow> 'a shell_scheme option" where
  "cmd_alloc argc argv s =
     (if argc < 2 then Some (kprintf ''Usage: alloc <size>\<newline>'' [] s)
      else do {
        (size', endptr) \<leftarrow> simple_strtoull (mem s) (argv ! 1) 0;
        if mem s endptr \<noteq> 0 \<or> size' = 0 then kprintf_s ''Error: Invalid size '%s'\<newline>'' (argv ! 1) s
        else do {
          (ptr, s1) \<leftarrow> kmalloc size' s;
          if ptr \<noteq> 0 then Some (kprintf ''Allocated %zu bytes at 0x%p\<newline>'' [VWord size', VWord ptr] s1)
          else Some (kprintf ''Allocation failed!\<newline>'' [] s1)
        }
      })"

definition cmd_free :: "nat \<Rightarrow> addr list \<Rightarrow> 'a shell_scheme \<Rightarrow> 'a shell_scheme option" where
  "cmd_free argc argv s =
     (if argc < 2 then Some (kprintf ''Usage: free <address>\<newline>'' [] s)
      else do {
        (addr, endptr) \<leftarrow> simple_strtoull (mem s) (argv ! 1) 0;
        if mem s endptr \<noteq> 0 then kprintf_s ''Error: Invalid address format '%s'\<newline>'' (argv ! 1) s
        else Some (kfree addr (kprintf ''Freeing memory at 0x%p\<newline>'' [VWord addr] s))
      })"

definition cmd_help :: "'a machine_scheme \<Rightarrow> 'a machine_scheme" where
  "cmd_help s =
     fold (\<lambda>line. kprintf line [])
       [''Available commands:\<newline>'',
        ''  help          - Display this help message\<newline>'',
        ''  memdump <addr> [len] - Dump memory contents (default len=256)\<newline>'',
        ''  peek <addr> [sz] - Read value from memory (sz=b/h/w/d, default=d)\<newline>'',
        ''  poke <addr> <val> [sz] - Write value to memory (sz=b/h/w/d, default=d)\<newline>'',
        ''  alloc <size>  - Allocate memory of given size\<newline>'',
        ''  free <addr>   - Free previously allocated memory\<newline>'',
        ''  pmm_info      - Display Physical Memory Manager info\<newline>''] s"

definition cmd_pmm_info :: "'a pmm_scheme \<Rightarrow> 'a pmm_scheme" where
  "cmd_pmm_info s =
     (let s1 = kprintf ''Physical Memory Manager Info:\<newline>'' [] s;
          s2 = kprintf ''  Total Usable Memory: %llu KB\<newline>'' [VWord (pmm_get_total_memory s1 div 1024)] s1;
          s3 = kprintf ''  Free Memory:         %llu KB\<newline>'' [VWord (pmm_get_free_memory s2 div 1024)] s2
      in kprintf ''  Highest Usable Addr: 0x%llx\<newline>'' [VWord (pmm_get_highest_usable_address s3)] s3)"

section \<open>Command table\<close>

datatype command = Cmd_Help | Cmd_Memdump | Cmd_Peek | Cmd_Poke | Cmd_Alloc | Cmd_Free | Cmd_Pmm_Info

fun run_command :: "command \<Rightarrow> nat \<Rightarrow> addr list \<Rightarrow> 'a shell_scheme \<Rightarrow> 'a shell_scheme option" where
  "run_command Cmd_Help argc argv s = Some (cmd_help s)"
| "run_command Cmd_Memdump argc argv s = cmd_memdump argc argv s"
| "run_command Cmd_Peek argc argv s = cmd_peek argc argv s"
| "run_command Cmd_Poke argc argv s = cmd_poke argc argv s"
| "run_command Cmd_Alloc argc argv s = cmd_alloc argc argv s"
| "run_command Cmd_Free argc argv s = cmd_free argc argv s"
| "run_command Cmd_Pmm_Info argc argv s = Some (cmd_pmm_info s)"

text \<open>The table after its initialisation: seven entries and the sentinel.\<close>

definition init_command_table :: "shell_env \<Rightarrow> (addr \<times> command option) list" where
  "init_command_table env =
     zip (env_names env)
       (map Some [Cmd_Help, Cmd_Memdump, Cmd_Peek, Cmd_Poke, Cmd_Alloc, Cmd_Free, Cmd_Pmm_Info])
     @ [(0, None)]"

text \<open>The search through the table up to the sentinel.\<close>

fun find_command :: "(addr \<times> command option) list \<Rightarrow> memory \<Rightarrow> addr \<Rightarrow> command option option" where
  "find_command ((name, func) # cs) m arg0 =
     (if name \<noteq> 0 then do {
        d \<leftarrow> strcmp m arg0 name;
        if d = 0 then Some func else find_command cs m arg0
      } else Some None)"
| "find_command [] m arg0 = Some None"

section \<open>Main loop\<close>

partial_function (option) read_line :: "addr \<Rightarrow> nat \<Rightarrow> 'a machine_scheme \<Rightarrow> (nat \<times> 'a machine_scheme) option" where
  "read_line cmd_buffer i s =
     (if i < MAX_CMD_LEN - 1 then
        do {
          (c, u) \<leftarrow> kgetc_blocking (uart s);
          let s1 = s\<lparr>uart := u\<rparr>;
          if c = 13 \<or> c = 10 then Some (i, kprintf ''\<newline>'' [] s1)
          else if c = 8 \<or> c = 127 then
            (if i > 0 then read_line cmd_buffer (i - 1) (kprintf [CHR 0x08, CHR '' '', CHR 0x08] [] s1)
             else read_line cmd_buffer i s1)
          else if c \<ge> 32 \<and> c \<le> 126 then
            read_line cmd_buffer (i + 1)
              (kprintf ''%c'' [VWord (ucast c)] (s1\<lparr>mem := (mem s1)(cmd_buffer + of_nat i := c)\<rparr>))
          else read_line cmd_buffer i s1
        }
      else Some (i, s))"

text \<open>The loop around \<open>strtok\<close>; \<open>n\<close> is the room left in \<open>argv\<close>.\<close>

fun parse_args :: "nat \<Rightarrow> addr \<Rightarrow> addr \<Rightarrow> addr list \<Rightarrow> 'a shell_scheme \<Rightarrow> (addr list \<times> 'a shell_scheme) option" where
  "parse_args 0 space token argv s = Some (argv, s)"
| "parse_args (Suc n) space token argv s =
     (if token = 0 then Some (argv, s)
      else do {
        (m, last', token') \<leftarrow> strtok (mem s) (strtok_last s) 0 space;
        parse_args n space token' (argv @ [token]) (s\<lparr>mem := m, strtok_last := last'\<rparr>)
      })"

text \<open>What the loop does with a line: \<open>True\<close> if it goes on.\<close>

definition run_line :: "shell_env \<Rightarrow> 'a shell_scheme \<Rightarrow> (bool \<times> 'a shell_scheme) option" where
  "run_line env s =
     do {
       (m, last', token) \<leftarrow> strtok (mem s) (strtok_last s) (env_cmd_buffer env) (env_space env);
       (argv, s1) \<leftarrow> parse_args MAX_ARGS (env_space env) token [] (s\<lparr>mem := m, strtok_last := last'\<rparr>);
       if argv = [] then Some (True, s1)
       else do {
         d \<leftarrow> strcmp (mem s1) (argv ! 0) (env_exit env);
         if d = 0 then Some (False, kprintf ''Exiting shell.\<newline>'' [] s1)
         else do {
           f \<leftarrow> find_command (init_command_table env) (mem s1) (argv ! 0);
           case f of
             None \<Rightarrow> do { s2 \<leftarrow> kprintf_s ''Unknown command: %s\<newline>'' (argv ! 0) s1; Some (True, s2) }
           | Some cmd \<Rightarrow> do { s2 \<leftarrow> run_command cmd (length argv) argv s1; Some (True, s2) }
         }
       }
     }"

text \<open>
  The \<open>svc #0\<close> at the top of the loop, with its syndrome. The registers there depend on the
  compiler: \<open>regs_at\<close> gives them, \<open>body\<close> what the handler's code leaves in them. The result
  is the processor that continues at \<open>ELR_EL1\<close>.
\<close>

definition svc :: "(cpu \<Rightarrow> cpu) \<Rightarrow> cpu \<Rightarrow> 'a machine_scheme \<Rightarrow> (cpu \<times> 'a machine_scheme) option" where
  "svc body c s =
     (case exception_entry body Current_SPx Sync (c\<lparr>cpu_esr_el1 := 0x56000000\<rparr>) s of
        Returned (c1, s1) \<Rightarrow> Some (c1, s1)
      | Halted _ \<Rightarrow> None)"

text \<open>
  The next statement is \<open>kprintf("")\<close>, and its first instruction is the one behind the \<open>svc\<close>.
  When the handler continues there, the call gets the address of the empty string. When the
  handler continues one instruction further, the first of the instructions that compute the
  address is missing: \<open>env_partial\<close> is what the others make of the general registers.
\<close>

definition format_arg :: "shell_env \<Rightarrow> cpu \<Rightarrow> cpu \<Rightarrow> addr option" where
  "format_arg env c c1 =
     (if cpu_elr_el1 c1 = cpu_elr_el1 c then Some (env_empty env)
      else if cpu_elr_el1 c1 = cpu_elr_el1 c + 4 then Some (env_partial env (map (cpu_x c1) [0..<31]))
      else None)"

text \<open>\<open>kprintf\<close> of a string in memory, without arguments; \<open>None\<close>: it goes wrong.\<close>

definition kprintf_at :: "addr \<Rightarrow> 'a machine_scheme \<Rightarrow> 'a machine_scheme option" where
  "kprintf_at a s =
     do {
       fmt \<leftarrow> cstring (mem s) a;
       case kprintf_buf fmt [] of
         Inl _ \<Rightarrow> None
       | Inr _ \<Rightarrow> Some (kprintf fmt [] s)
     }"

definition shell_step ::
    "(cpu \<Rightarrow> cpu) \<Rightarrow> ('a shell_scheme \<Rightarrow> cpu) \<Rightarrow> shell_env \<Rightarrow> 'a shell_scheme \<Rightarrow> (bool \<times> 'a shell_scheme) option" where
  "shell_step body regs_at env s =
     do {
       let c = regs_at s;
       (c1, s1) \<leftarrow> svc body c s;
       fmt \<leftarrow> format_arg env c c1;
       s1 \<leftarrow> kprintf_at fmt s1;
       let s2 = kprintf ''\<newline>> '' [] s1;
       let s3 = s2\<lparr>mem := memset (mem s2) (env_cmd_buffer env) 0 (of_nat MAX_CMD_LEN)\<rparr>;
       (i, s4) \<leftarrow> read_line (env_cmd_buffer env) 0 s3;
       let s5 = s4\<lparr>mem := (mem s4)(env_cmd_buffer env + of_nat i := 0)\<rparr>;
       if i = 0 then Some (True, s5) else run_line env s5
     }"

partial_function (option) shell_iterate ::
    "(cpu \<Rightarrow> cpu) \<Rightarrow> ('a shell_scheme \<Rightarrow> cpu) \<Rightarrow> shell_env \<Rightarrow> 'a shell_scheme \<Rightarrow> 'a shell_scheme option" where
  "shell_iterate body regs_at env s =
     do {
       (go, s1) \<leftarrow> shell_step body regs_at env s;
       if go then shell_iterate body regs_at env s1 else Some s1
     }"

definition shell_loop ::
    "(cpu \<Rightarrow> cpu) \<Rightarrow> ('a shell_scheme \<Rightarrow> cpu) \<Rightarrow> shell_env \<Rightarrow> 'a shell_scheme \<Rightarrow> 'a shell_scheme option" where
  "shell_loop body regs_at env s =
     shell_iterate body regs_at env
       (kprintf ''Type 'help' for available commands.\<newline>'' [] (kprintf ''\<newline>SolaceOS Shell\<newline>'' [] s))"

end
