(* ===== verification/Tui.thy ===== *)
theory Tui
  imports Stdio
begin

text \<open>
  The console fallback of the text user interface, \<^verbatim>\<open>src/src/ui/tui.c\<close>.
\<close>

definition tui_init :: "'a machine_scheme \<Rightarrow> int \<times> 'a machine_scheme" where
  "tui_init s =
     (0, kprintf ''TUI: Using fallback console mode (no framebuffer)\<newline>'' [] (kprintf ''TUI: Initializing...\<newline>'' [] s))"

fun tui_write_loop :: "addr \<Rightarrow> nat \<Rightarrow> 'a machine_scheme \<Rightarrow> 'a machine_scheme" where
  "tui_write_loop data 0 s = s"
| "tui_write_loop data (Suc n) s =
     tui_write_loop (data + 1) n (kprintf ''%c'' [VWord (ucast (mem s data))] s)"

definition tui_write :: "addr \<Rightarrow> u64 \<Rightarrow> 'a machine_scheme \<Rightarrow> 'a machine_scheme" where
  "tui_write data len s = tui_write_loop data (unat len) s"

section \<open>What reaches the line\<close>

lemma unat_byte: "unat (c :: byte) < 256"
  using unsigned_less [of c, where 'a = nat] by simp

lemma kprintf_char:
  "kprintf_text ''%c'' [VWord (ucast (c :: byte))] = (if c = 0 then [] else [char_of (unat c)])"
proof -
  have l: "length_mod (skip_flags ''c'') = (No_Mod, ''c'')" by (simp add: skip_flags_def is_flag_def is_digit_def)
  have "unat (ucast c :: u64) = unat c" 
    using unat_byte [of c] by (simp add: unsigned_ucast_eq take_bit_nat_eq_self)
  then have "kprintf_loop ''%c'' [VWord (ucast c)] [] = Inr [char_of (unat c)]"
    by (subst kprintf_loop_step(4) [OF _ l]) (simp_all add: convert_def)
  then have b: "kprintf_buf ''%c'' [VWord (ucast c)] = Inr [char_of (unat c)]"
    by (simp add: kprintf_buf_def PRINTF_BUFFER_SIZE_def)
  have "char_of (unat c) = NUL \<longleftrightarrow> c = 0"
  proof -
    have "char_of (unat c) = NUL \<longleftrightarrow> of_char (char_of (unat c)) = (of_char NUL :: nat)"
      by (simp only: of_char_eq_iff)
    also have "\<dots> \<longleftrightarrow> unat c = 0"
      using unat_byte [of c] by (simp add: NUL_def del: of_char_eq_iff)
    finally show ?thesis by (simp add: unat_eq_zero)
  qed
  then show ?thesis by (simp add: kprintf_text_def b)
qed

lemma kprintf_char_out:
  "tx_out (uart (kprintf ''%c'' [VWord (ucast (c :: byte))] s))
     = tx_out (uart s) @ (if c = 0 then [] else line_bytes c)"
proof -
  have "of_char (char_of (unat c) :: char) = (of_nat (of_char (char_of (unat c) :: char)) :: byte)"
    by (rule of_nat_of_char [symmetric])
  also have "\<dots> = c" using unat_byte [of c] by (simp del: of_nat_of_char)
  finally have "of_char (char_of (unat c) :: char) = c" .
  then show ?thesis by (simp add: kprintf_def kprintf_char)
qed

lemma kprintf_keeps_mem: "mem (kprintf f as s) = mem s"
  by (simp add: kprintf_def)

lemma tui_write_loop_out:
  "tx_out (uart (tui_write_loop data n s))
     = tx_out (uart s) @ concat (map line_bytes (filter (\<lambda>c. c \<noteq> 0) (map (\<lambda>i. mem s (data + of_nat i)) [0..<n])))"
proof (induction n arbitrary: data s)
  case (Suc n)
  have "map (\<lambda>i. mem s (data + of_nat i)) [0..<Suc n] = mem s data # map (\<lambda>i. mem s (data + 1 + of_nat i)) [0..<n]"
    by (simp add: upt_conv_Cons map_Suc_upt [symmetric] comp_def add.assoc del: upt_Suc)
  then show ?case by (simp add: Suc kprintf_char_out kprintf_keeps_mem del: upt_Suc)
qed simp

section \<open>Theorem\<close>

text \<open>
  \<open>tui_write\<close> sends the given number of bytes from memory to the line, in order, each
  newline followed by a carriage return; only NUL bytes are lost, because each byte goes
  through a \<open>kprintf\<close> buffer of its own.
\<close>

lemma tui_write_delivers:
  "tx_out (uart (tui_write data len s)) = tx_out (uart s)
     @ concat (map line_bytes (filter (\<lambda>c. c \<noteq> 0) (map (\<lambda>i. mem s (data + of_nat i)) [0..<unat len])))"
  unfolding tui_write_def by (rule tui_write_loop_out)

end
