(* ===== verification/Kernel.thy ===== *)
theory Kernel
  imports Shell Tui
begin

text \<open>
  The entry point \<open>kernel_main\<close>, the power-off call and the early boot messages of
  \<^verbatim>\<open>src/src/boot/kernel.c\<close>. The firmware behind the hypervisor call is a parameter
  (\<open>psci\<close>): it gives the machine it returns with, or \<open>None\<close> if it does not return.
\<close>

section \<open>Early messages\<close>

text \<open>
  Characters go to the data register directly, with the same wait for room in the FIFO as
  in the driver and without the carriage return that the driver adds. \<open>None\<close>: the string has
  no terminator in the array it lies in.
\<close>

fun early_debug_print :: "byte list \<Rightarrow> uart_dev \<Rightarrow> uart_dev option" where
  "early_debug_print [] u = None"
| "early_debug_print (c # str) u =
     (if c = 0 then Some u else early_debug_print str (write_dr (ucast c) (uart_wait_tx u)))"

text \<open>The digits, backwards, into \<open>size_str\<close>; \<open>int\<close> is 32 bits wide.\<close>

function size_digits :: "int \<Rightarrow> nat \<Rightarrow> byte list \<Rightarrow> nat \<times> byte list" where
  "size_digits tmp i size_str =
     (if 0 < tmp then size_digits (tmp div 10) (i + 1) (size_str[i := 48 + of_int (tmp mod 10)])
      else (i, size_str))"
  by pat_completeness auto
termination
  by (relation "measure (\<lambda>(tmp, i, str). nat tmp)") auto

declare size_digits.simps [simp del]

fun reverse_loop :: "nat list \<Rightarrow> nat \<Rightarrow> byte list \<Rightarrow> byte list" where
  "reverse_loop [] i size_str = size_str"
| "reverse_loop (j # js) i size_str =
     reverse_loop js i (size_str[j := size_str ! (i - j - 1), i - j - 1 := size_str ! j])"

text \<open>\<open>size_str\<close> is the uninitialised array of 16 characters on the stack.\<close>

definition size_string :: "u64 \<Rightarrow> byte list \<Rightarrow> byte list" where
  "size_string size' size_str =
     (let tmp = sint (ucast size' :: u32)
      in if tmp = 0 then size_str[0 := 48, 1 := 0]
         else (case size_digits tmp 0 size_str of
                 (i, str) \<Rightarrow> reverse_loop [0..<i div 2] i (str[i := 0])))"

definition boot_debug_copy :: "addr \<Rightarrow> addr \<Rightarrow> u64 \<Rightarrow> byte list \<Rightarrow> uart_dev \<Rightarrow> uart_dev option" where
  "boot_debug_copy dest src size' size_str u =
     do {
       u1 \<leftarrow> early_debug_print (string_bytes ''[BOOT] Copying section: '' @ [0]) u;
       u2 \<leftarrow> early_debug_print (size_string size' size_str) u1;
       early_debug_print (string_bytes '' bytes\<newline>'' @ [0]) u2
     }"

section \<open>Power off and entry point\<close>

datatype 's final = Powered_Off 's | Halting 's

definition shutdown :: "(u64 \<Rightarrow> 'a machine_scheme \<Rightarrow> 'a machine_scheme option) \<Rightarrow> 'a machine_scheme \<Rightarrow> 'a machine_scheme final" where
  "shutdown psci s =
     (case psci 0x84000008 s of
        None \<Rightarrow> Powered_Off s
      | Some s1 \<Rightarrow> Halting (kprintf ''Shutdown failed, halting CPU.\<newline>'' [] s1))"

text \<open>\<open>None\<close>: the shell never returns.\<close>

definition kernel_main ::
    "linker_syms \<Rightarrow> (cpu \<Rightarrow> cpu) \<Rightarrow> ('a shell_scheme \<Rightarrow> cpu) \<Rightarrow> shell_env
     \<Rightarrow> (u64 \<Rightarrow> 'a shell_scheme \<Rightarrow> 'a shell_scheme option) \<Rightarrow> kernel_boot_params option
     \<Rightarrow> 'a shell_scheme \<Rightarrow> 'a shell_scheme final option" where
  "kernel_main ls body regs_at env psci params s =
     (let s1 = kprintf ''SolaceOS starting...\<newline>'' [] s;
          s2 = kprintf ''Initializing Physical Memory Manager...\<newline>'' [] s1;
          s3 = frame_alloc_init ls params s2;
          s4 = kprintf ''Initializing Kernel Heap Allocator...\<newline>'' [] s3;
          s5 = kheap_init s4;
          s6 = kprintf ''Initializing TUI subsystem...\<newline>'' [] s5;
          (r, s7) = tui_init s6;
          s8 = (if r \<noteq> 0 then kprintf ''Failed to initialize TUI subsystem!\<newline>'' [] s7 else s7);
          s9 = kprintf ''Starting shell...\<newline>'' [] s8
      in do {
           s10 \<leftarrow> shell_loop body regs_at env s9;
           Some (shutdown psci (kprintf ''Kernel halting.\<newline>'' [] s10))
         })"

section \<open>Early messages\<close>

lemma early_debug_print_out:
  "0 \<notin> set xs \<Longrightarrow> \<exists>v. early_debug_print (xs @ 0 # ys) u = Some v \<and> tx_out v = tx_out u @ map ucast xs"
proof (induction xs arbitrary: u)
  case (Cons x xs)
  then obtain v where "early_debug_print (xs @ 0 # ys) (write_dr (ucast x) (uart_wait_tx u)) = Some v"
      "tx_out v = tx_out (write_dr (ucast x) (uart_wait_tx u)) @ map ucast xs" by fastforce
  then show ?case using Cons.prems by auto
qed simp

definition dec_bytes :: "nat \<Rightarrow> byte list" where
  "dec_bytes n = map (\<lambda>d. 48 + of_nat d) (nat_digits 10 n)"

text \<open>The loop fills the array from the least significant digit on.\<close>

lemma size_digits_spec:
  "0 < n \<Longrightarrow> i + length (nat_digits 10 n) < length str \<Longrightarrow>
   size_digits (int n) i str
    = (i + length (nat_digits 10 n), take i str @ rev (dec_bytes n) @ drop (i + length (nat_digits 10 n)) str)"
proof (induction n arbitrary: i str rule: less_induct)
  case (less n)
  let ?d = "48 + of_nat (n mod 10) :: byte"
  have d: "(of_int (int n mod 10) :: byte) = of_nat (n mod 10)"
    by (metis of_int_of_nat_eq of_nat_numeral zmod_int)
  have step: "size_digits (int n) i str = size_digits (int (n div 10)) (i + 1) (str[i := ?d])"
    using less.prems(1) d by (subst size_digits.simps) (simp add: zdiv_int)
  show ?case
  proof (cases "n < 10")
    case True
    then have dg: "nat_digits 10 n = [n]" by (simp add: nat_digits.simps)
    have "size_digits (int n) i str = (i + 1, str[i := ?d])"
      using step True by (simp add: size_digits.simps)
    then show ?thesis
      using True less.prems(2) by (simp add: dg dec_bytes_def upd_conv_take_nth_drop)
  next
    case False
    then have dg: "nat_digits 10 n = nat_digits 10 (n div 10) @ [n mod 10]" by (subst nat_digits.simps) simp
    have "size_digits (int (n div 10)) (i + 1) (str[i := ?d])
        = (i + 1 + length (nat_digits 10 (n div 10)), take (i + 1) (str[i := ?d]) @ rev (dec_bytes (n div 10))
             @ drop (i + 1 + length (nat_digits 10 (n div 10))) (str[i := ?d]))"
      using False less.prems(2) dg by (intro less.IH) auto
    moreover have "take (i + 1) (str[i := ?d]) = take i str @ [?d]"
      using less.prems(2) by (simp add: take_Suc_conv_app_nth)
    ultimately show ?thesis unfolding step by (simp add: dg dec_bytes_def)
  qed
qed

text \<open>The second loop reverses the first \<open>i\<close> characters.\<close>

lemma length_reverse_loop [simp]: "length (reverse_loop js i str) = length str"
  by (induction js arbitrary: str) simp_all

lemma reverse_loop_nth:
  assumes "k \<le> m" and "m \<le> i div 2" and "i \<le> length str"
  shows "p < length str \<Longrightarrow> reverse_loop [k..<m] i str ! p
      = (if k \<le> p \<and> p < m \<or> i - m \<le> p \<and> p < i - k then str ! (i - p - 1) else str ! p)"
  using assms
proof (induction "m - k" arbitrary: k str)
  case 0
  then show ?case by auto
next
  case (Suc n)
  define s1 where "s1 = str[k := str ! (i - k - 1), i - k - 1 := str ! k]"
  have km: "k < m" using Suc.hyps(2) by simp
  then have "reverse_loop [k..<m] i str ! p = reverse_loop [Suc k..<m] i s1 ! p"
    by (simp add: upt_conv_Cons s1_def)
  also have "\<dots> = (if Suc k \<le> p \<and> p < m \<or> i - m \<le> p \<and> p < i - Suc k then s1 ! (i - p - 1) else s1 ! p)"
    by (rule Suc.hyps(1)) (use Suc.prems Suc.hyps(2) km in \<open>auto simp: s1_def\<close>)
  also have "\<dots> = (if k \<le> p \<and> p < m \<or> i - m \<le> p \<and> p < i - k then str ! (i - p - 1) else str ! p)"
  proof -
    have q: "k < i - k - 1" "i - k - 1 < length str" "m \<le> i - m" using Suc.prems(3,4) km by linarith+
    have out: "s1 ! r = str ! r" if "r \<noteq> k" "r \<noteq> i - k - 1" for r using that by (simp add: s1_def)
    consider "p = k" | "p = i - k - 1" | "p \<noteq> k" "p \<noteq> i - k - 1" by blast
    then show ?thesis
    proof cases
      case 1
      then show ?thesis using q km by (simp add: s1_def)
    next
      case 2
      have "i - (i - k - 1) - 1 = k" using q(1) by linarith
      moreover have "i - m \<le> i - k - 1" "i - k - 1 < i - k" using q km by linarith+
      ultimately show ?thesis using 2 q km by (simp add: s1_def)
    next
      case 3
      have c: "(Suc k \<le> p \<and> p < m \<or> i - m \<le> p \<and> p < i - Suc k)
          = (k \<le> p \<and> p < m \<or> i - m \<le> p \<and> p < i - k)" using 3 by linarith
      have "i - p - 1 \<noteq> k \<and> i - p - 1 \<noteq> i - k - 1" if "k \<le> p \<and> p < m \<or> i - m \<le> p \<and> p < i - k"
        using that 3 q km by linarith
      then show ?thesis unfolding c using 3 out by simp
    qed
  qed
  finally show ?case .
qed

lemma reverse_loop_rev: "reverse_loop [0..<length xs div 2] (length xs) (xs @ ys) = rev xs @ ys"
proof (rule nth_equalityI)
  let ?i = "length xs"
  note R = reverse_loop_nth [of 0 "?i div 2" ?i "xs @ ys"]
  show "length (reverse_loop [0..<?i div 2] ?i (xs @ ys)) = length (rev xs @ ys)" by simp
  fix p assume "p < length (reverse_loop [0..<?i div 2] ?i (xs @ ys))"
  then have p: "p < length (xs @ ys)" by simp
  have "?i - p - 1 = p" if "\<not> p < ?i div 2" "\<not> ?i - ?i div 2 \<le> p" using that by linarith
  then show "reverse_loop [0..<?i div 2] ?i (xs @ ys) ! p = (rev xs @ ys) ! p"
    using R [OF _ _ _ p] by (auto simp: nth_append rev_nth)
qed

lemma size_string_spec:
  assumes "unat size' < 2 ^ 31" and "length size_str = 16"
  shows "\<exists>ys. size_string size' size_str = dec_bytes (unat size') @ 0 # ys" and "length (dec_bytes (unat size')) \<le> 10"
proof -
  show l: "length (dec_bytes (unat size')) \<le> 10"
    using length_nat_digits [of 10 10 "unat size'"] assms(1) by (simp add: dec_bytes_def)
  have u: "unat (ucast size' :: u32) = unat size'"
    using assms(1) by (simp add: unsigned_ucast_eq take_bit_nat_eq_self)
  have t: "sint (ucast size' :: u32) = int (unat size')"
  proof -
    define n where "n = unat size'"
    have "signed_take_bit 31 (int n) = int n"
      using assms(1) by (intro signed_take_bit_int_eq_self) (simp_all add: n_def [symmetric])
    then show ?thesis unfolding sint_uint uint_nat u n_def [symmetric] by simp
  qed
  show "\<exists>ys. size_string size' size_str = dec_bytes (unat size') @ 0 # ys"
  proof (cases "unat size' = 0")
    case True
    obtain a b ys where "size_str = a # b # ys" using assms(2) by (cases size_str; cases "tl size_str") auto
    then show ?thesis using True t by (simp add: size_string_def dec_bytes_def nat_digits.simps)
  next
    case False
    define xs where "xs = rev (dec_bytes (unat size'))"
    have lx: "length xs = length (nat_digits 10 (unat size'))" by (simp add: xs_def dec_bytes_def)
    have d: "size_digits (int (unat size')) 0 size_str = (length xs, xs @ drop (length xs) size_str)"
      using size_digits_spec [of "unat size'" 0 size_str] False l assms(2) by (simp add: lx xs_def dec_bytes_def)
    obtain y ys where y: "drop (length xs) size_str = y # ys"
      using l assms(2) by (cases "drop (length xs) size_str") (auto simp: xs_def)
    have "size_string size' size_str = reverse_loop [0..<length xs div 2] (length xs) (xs @ 0 # ys)"
      using t False d y unfolding size_string_def Let_def t by (simp del: of_nat_unat)
    also have "\<dots> = rev xs @ 0 # ys" by (rule reverse_loop_rev)
    finally show ?thesis by (simp add: xs_def)
  qed
qed

lemma dec_bytes_no_NUL: "0 \<notin> set (dec_bytes n)"
proof -
  have "48 + of_nat d \<noteq> (0 :: byte)" if "d < 10" for d
  proof -
    have "d \<in> set [0..<10]" using that by simp
    moreover have "\<forall>d \<in> set [0..<10]. 48 + of_nat d \<noteq> (0 :: byte)" by code_simp
    ultimately show ?thesis by blast
  qed
  then show ?thesis using nat_digits_less [of 10 _ n] by (force simp: dec_bytes_def)
qed

section \<open>The report of a copy\<close>

text \<open>
  For sections of less than 2 GB the boot code reports the size in decimal, and its
  sixteen-character array is large enough whatever it held before: the digits take at most
  ten of them. The characters go out unchanged, without carriage returns.
\<close>

lemma boot_debug_copy_out:
  assumes "unat size' < 2 ^ 31" and "length size_str = 16"
  shows "\<exists>v. boot_debug_copy dest src size' size_str u = Some v
    \<and> tx_out v = tx_out u @ map ucast (string_bytes ''[BOOT] Copying section: '' @ dec_bytes (unat size')
        @ string_bytes '' bytes\<newline>'')
    \<and> length (dec_bytes (unat size')) \<le> 10"
proof -
  obtain ys where ys: "size_string size' size_str = dec_bytes (unat size') @ 0 # ys"
    using size_string_spec(1) [OF assms] by blast
  have n: "0 \<notin> set (string_bytes ''[BOOT] Copying section: '')" "0 \<notin> set (string_bytes '' bytes\<newline>'')"
    by (simp_all add: string_bytes_def)
  obtain u1 where 1: "early_debug_print (string_bytes ''[BOOT] Copying section: '' @ [0]) u = Some u1"
      "tx_out u1 = tx_out u @ map ucast (string_bytes ''[BOOT] Copying section: '')"
    using early_debug_print_out [OF n(1)] by blast
  obtain u2 where 2: "early_debug_print (size_string size' size_str) u1 = Some u2"
      "tx_out u2 = tx_out u1 @ map ucast (dec_bytes (unat size'))"
    using early_debug_print_out [OF dec_bytes_no_NUL] unfolding ys by blast
  obtain u3 where 3: "early_debug_print (string_bytes '' bytes\<newline>'' @ [0]) u2 = Some u3"
      "tx_out u3 = tx_out u2 @ map ucast (string_bytes '' bytes\<newline>'')"
    using early_debug_print_out [OF n(2)] by blast
  have "boot_debug_copy dest src size' size_str u = Some u3"
    unfolding boot_debug_copy_def 1(1) 2(1) 3(1) bind.bind_lunit by simp
  moreover have "tx_out u3 = tx_out u @ map ucast (string_bytes ''[BOOT] Copying section: '' @ dec_bytes (unat size')
        @ string_bytes '' bytes\<newline>'')" unfolding 3(2) 2(2) 1(2) by (simp only: map_append append_assoc)
  ultimately show ?thesis using size_string_spec(2) [OF assms] by blast
qed

end
