(* ===== verification/Shell_Parse.thy ===== *)
theory Shell_Parse
  imports Shell
begin

text \<open>
  Reading a line and splitting it: the bytes that arrive are edited into the line buffer as
  the reference \<open>edit\<close> says, and \<open>strtok\<close> with a space splits the buffer in place into
  the tokens of the line.
\<close>

section \<open>Reference definitions\<close>

text \<open>
  Line editing on a list of received bytes: the line and the bytes left, or \<open>None\<close> if the
  line is not complete yet.
\<close>

function edit :: "byte list \<Rightarrow> byte list \<Rightarrow> (byte list \<times> byte list) option" where
  "edit line input =
     (if 127 \<le> length line then Some (line, input)
      else case input of
             [] \<Rightarrow> None
           | c # cs \<Rightarrow>
               if c = 0 then edit line cs
               else if c = 13 \<or> c = 10 then Some (line, cs)
               else if c = 8 \<or> c = 127 then edit (butlast line) cs
               else if 32 \<le> c \<and> c \<le> 126 then edit (line @ [c]) cs
               else edit line cs)"
  by pat_completeness auto
termination
  by (relation "measure (\<lambda>(l, i). length i)") auto

declare edit.simps [simp del]

lemma edit_length: "edit line input = Some (l, r) \<Longrightarrow> length line \<le> 127 \<Longrightarrow> length l \<le> 127"
proof (induction line input rule: edit.induct)
  case (1 line input)
  then show ?case
    by (subst (asm) (2) edit.simps) (auto split: if_splits list.splits)
qed

lemma edit_no_NUL: "edit line input = Some (l, r) \<Longrightarrow> 0 \<notin> set line \<Longrightarrow> 0 \<notin> set l"
proof (induction line input rule: edit.induct)
  case (1 line input)
  have b: "0 \<notin> set (butlast line)" using "1.prems"(2) in_set_butlastD by metis
  from 1 show ?case
    by (subst (asm) (2) edit.simps) (auto split: if_splits list.splits simp: b)
qed

section \<open>Tokens in place\<close>

lemma tokens_empty: "dropWhile (\<lambda>c. c \<in> D) xs = [] \<Longrightarrow> tokens D xs = []"
  by (simp add: tokens.simps)

lemma tokens_cons:
  "ys = dropWhile (\<lambda>c. c \<in> D) xs \<Longrightarrow> ys \<noteq> [] \<Longrightarrow>
   tokens D xs = takeWhile (\<lambda>c. c \<notin> D) ys # tokens D (drop 1 (dropWhile (\<lambda>c. c \<notin> D) ys))"
  by (subst tokens.simps) (simp add: Let_def)

lemma unat_plus_nat: "unat (a :: addr) + n < 2 ^ 64 \<Longrightarrow> unat (a + of_nat n) = unat a + n"
  by (subst unat_add_no_wrap) simp_all

lemma cstr_cong_range:
  assumes "cstr m a xs" and "unat a + length xs < 2 ^ 64"
    and "\<And>y. unat a \<le> unat y \<Longrightarrow> unat y \<le> unat a + length xs \<Longrightarrow> m' y = m y"
  shows "cstr m' a xs"
proof -
  have "m' y = m y" if "y \<in> region a (Suc (length xs))" for y
    using that assms(2,3) by (subst (asm) in_region_nat) auto
  then show ?thesis using cstr_cong [of a xs m' m] assms(1,2) by auto
qed

text \<open>
  Between two calls: the tokens \<open>ts\<close> are still to come from the string at \<open>lst\<close>, which starts
  behind \<open>k\<close> and ends at \<open>e\<close>.
\<close>

definition pending :: "byte set \<Rightarrow> memory \<Rightarrow> nat \<Rightarrow> nat \<Rightarrow> addr \<Rightarrow> byte list list \<Rightarrow> bool" where
  "pending D m k e lst ts \<longleftrightarrow> lst = 0 \<and> ts = []
     \<or> (\<exists>r. ts = tokens D r \<and> lst \<noteq> 0 \<and> cstr m lst r \<and> k < unat lst \<and> unat lst + length r = e)"

text \<open>After a call: the first of the tokens \<open>ts\<close> lies at \<open>tok\<close>, between \<open>lo\<close> and \<open>e\<close>; the others are pending.\<close>

definition found :: "byte set \<Rightarrow> memory \<Rightarrow> nat \<Rightarrow> nat \<Rightarrow> addr \<Rightarrow> addr \<Rightarrow> byte list list \<Rightarrow> bool" where
  "found D m lo e tok lst ts \<longleftrightarrow>
     (case ts of
        [] \<Rightarrow> tok = 0
      | t # ts' \<Rightarrow> tok \<noteq> 0 \<and> lo \<le> unat tok \<and> unat tok + length t \<le> e \<and> cstr m tok t
                  \<and> pending D m (unat tok + length t) e lst ts')"

text \<open>One call of \<open>strtok\<close> on the string \<open>xs\<close> at \<open>q\<close>.\<close>

lemma strtok_call:
  assumes xs: "cstr m q xs" and d: "cstr m d ds" and q: "q \<noteq> 0" "unat q + length xs < 2 ^ 64"
    and s': "q = (if str = 0 then lst else str)"
  shows "\<exists>m' last' tok'. strtok m lst str d = Some (m', last', tok')
    \<and> (\<forall>y. unat y < unat q \<or> unat q + length xs < unat y \<longrightarrow> m' y = m y)
    \<and> found (set ds) m' (unat q) (unat q + length xs) tok' last' (tokens (set ds) xs)"
proof -
  define ys where "ys = dropWhile (\<lambda>c. c \<in> set ds) xs"
  define t0 where "t0 = takeWhile (\<lambda>c. c \<notin> set ds) ys"
  define off where "off = length (takeWhile (\<lambda>c. c \<in> set ds) xs)"
  define p where "p = q + of_nat (off + length t0)"
  note call = strtok_step [OF xs d q s' ys_def t0_def off_def p_def]
  have len: "off + length ys = length xs"
    unfolding off_def ys_def by (metis length_append takeWhile_dropWhile_id)
  have lt: "length t0 \<le> length ys" unfolding t0_def by (rule length_takeWhile_le)
  have uo: "unat (q + of_nat off) = unat q + off" using q(2) len by (intro unat_plus_nat) linarith
  have up: "unat p = unat q + off + length t0"
    unfolding p_def using q(2) len lt by (subst unat_plus_nat) linarith+
  have q0: "0 < unat q" using q(1) by (simp add: unat_gt_0)
  consider "ys = []" | "ys \<noteq> []" "t0 = ys" | "ys \<noteq> []" "t0 \<noteq> ys" by blast
  then show ?thesis
  proof cases
    case 1
    then have "tokens (set ds) xs = []" unfolding ys_def by (rule tokens_empty)
    with 1 call show ?thesis by (intro exI [of _ m] exI [of _ 0]) (simp add: found_def)
  next
    case 2
    note T = tokens_cons [OF ys_def 2(1), folded t0_def]
    have dr: "dropWhile (\<lambda>c. c \<notin> set ds) ys = []" using 2(2) unfolding t0_def by (metis append_self_conv takeWhile_dropWhile_id)
    have "tokens (set ds) xs = [t0]" unfolding T dr by (simp add: tokens_empty)
    moreover have "cstr m (q + of_nat off) ys"
      using cstr_drop [OF xs, of off] len unfolding off_def ys_def by (simp add: dropWhile_eq_drop)
    ultimately show ?thesis
      using call 2 uo q0 len
      by (intro exI [of _ m] exI [of _ 0] exI [of _ "q + of_nat off"]) (auto simp: found_def pending_def)
  next
    case 3
    note T = tokens_cons [OF ys_def 3(1), folded t0_def]
    have l64: "length xs < 2 ^ 64" using q(2) by simp
    note S = strtok_strings [OF xs l64 ys_def t0_def 3(2) off_def p_def]
    let ?r = "drop 1 (dropWhile (\<lambda>c. c \<notin> set ds) ys)"
    have pl: "unat p < unat q + length xs" using S up by (cases "dropWhile (\<lambda>c. c \<notin> set ds) ys") auto
    then have u1: "unat (p + 1) = unat p + 1" using q(2) unat_plus_nat [of p 1] by simp
    have lr: "unat (p + 1) + length ?r = unat q + length xs"
      using S u1 up by (cases "dropWhile (\<lambda>c. c \<notin> set ds) ys") auto
    have "p + 1 \<noteq> 0" using u1 by auto
    moreover have "unat q \<le> unat p" using up by simp
    ultimately show ?thesis
      using call 3 uo q0 S T u1 up lr pl
      by (intro exI [of _ "m(p := 0)"] exI [of _ "p + 1"] exI [of _ "q + of_nat off"]) (auto simp: found_def pending_def)
  qed
qed

text \<open>The next call.\<close>

lemma pending_call:
  assumes "pending (set ds) m k e lst ts" and "cstr m d ds" and "e < 2 ^ 64"
  shows "\<exists>m' last' tok' lo. strtok m lst 0 d = Some (m', last', tok') \<and> k < lo
    \<and> (\<forall>y. unat y < lo \<or> e < unat y \<longrightarrow> m' y = m y) \<and> found (set ds) m' lo e tok' last' ts"
proof (cases "lst = 0")
  case True
  then have "strtok m lst 0 d = Some (m, 0, 0)" "ts = []" using assms(1) by (simp_all add: strtok_def pending_def)
  then show ?thesis by (auto simp: found_def)
next
  case False
  then obtain r where r: "ts = tokens (set ds) r" "cstr m lst r" "k < unat lst" "unat lst + length r = e"
    using assms(1) by (auto simp: pending_def)
  have "unat lst + length r < 2 ^ 64" using r(4) assms(3) by simp
  from strtok_call [OF r(2) assms(2) False this, of 0 lst] show ?thesis using r by auto
qed

text \<open>The loop around \<open>strtok\<close> collects the tokens, up to the room in \<open>argv\<close>.\<close>

lemma parse_args_tokens:
  assumes "found (set ds) (mem s) lo e token (strtok_last s) ts" and "e < 2 ^ 64" and "b \<le> lo"
    and "\<And>m. (\<And>y. unat y < b \<or> e < unat y \<Longrightarrow> m y = mem s y) \<Longrightarrow> cstr m d ds"
  shows "\<exists>new s'. parse_args n d token argv s = Some (argv @ new, s')
    \<and> length new = min n (length ts) \<and> (\<forall>i < length new. cstr (mem s') (new ! i) (ts ! i))
    \<and> (\<forall>y. unat y < lo \<or> e < unat y \<longrightarrow> mem s' y = mem s y) \<and> (\<exists>m l. s' = s\<lparr>mem := m, strtok_last := l\<rparr>)"
  using assms
proof (induction n arbitrary: lo token ts argv s)
  case 0
  have "\<exists>m l. s = s\<lparr>mem := m, strtok_last := l\<rparr>" by (intro exI [of _ "mem s"] exI [of _ "strtok_last s"]) simp
  then show ?case by simp
next
  case (Suc n)
  show ?case
  proof (cases ts)
    case Nil
    have "\<exists>m l. s = s\<lparr>mem := m, strtok_last := l\<rparr>" by (intro exI [of _ "mem s"] exI [of _ "strtok_last s"]) simp
    then show ?thesis using Nil Suc.prems(1) by (simp add: found_def)
  next
    case (Cons t ts')
    have tok: "token \<noteq> 0" "lo \<le> unat token" "unat token + length t \<le> e" "cstr (mem s) token t"
        "pending (set ds) (mem s) (unat token + length t) e (strtok_last s) ts'"
      using Suc.prems(1) Cons by (simp_all add: found_def)
    have "cstr (mem s) d ds" by (rule Suc.prems(4)) simp
    from pending_call [OF tok(5) this Suc.prems(2)]
    obtain m' last' tok' lo' where c: "strtok (mem s) (strtok_last s) 0 d = Some (m', last', tok')"
        "unat token + length t < lo'" "\<forall>y. unat y < lo' \<or> e < unat y \<longrightarrow> m' y = mem s y"
        "found (set ds) m' lo' e tok' last' ts'" by blast
    define s1 where "s1 = s\<lparr>mem := m', strtok_last := last'\<rparr>"
    have d1: "cstr m d ds" if "\<And>y. unat y < b \<or> e < unat y \<Longrightarrow> m y = mem s1 y" for m
      using that c(2,3) tok(2) Suc.prems(3) by (intro Suc.prems(4)) (auto simp: s1_def)
    have f1: "found (set ds) (mem s1) lo' e tok' (strtok_last s1) ts'" "b \<le> lo'"
      using c(2,4) tok(2) Suc.prems(3) by (simp_all add: s1_def)
    from Suc.IH [OF f1(1) Suc.prems(2) f1(2) d1, of "argv @ [token]"]
    obtain new s' where n: "parse_args n d tok' (argv @ [token]) s1 = Some ((argv @ [token]) @ new, s')"
        "length new = min n (length ts')" "\<forall>i < length new. cstr (mem s') (new ! i) (ts' ! i)"
        "\<forall>y. unat y < lo' \<or> e < unat y \<longrightarrow> mem s' y = mem s1 y" "\<exists>m l. s' = s1\<lparr>mem := m, strtok_last := l\<rparr>" by blast
    have fr: "mem s' y = mem s y" if "unat y < lo' \<or> e < unat y" for y using n(4) c(3) that by (auto simp: s1_def)
    then have "cstr (mem s') token t" using c(2) tok(3) Suc.prems(2) by (intro cstr_cong_range [OF tok(4)]) auto
    then have "\<forall>i < length (token # new). cstr (mem s') ((token # new) ! i) (ts ! i)"
      using n(3) Cons by (auto simp: less_Suc_eq_0_disj)
    moreover have "\<exists>m l. s' = s\<lparr>mem := m, strtok_last := l\<rparr>" using n(5) by (auto simp: s1_def)
    moreover have "parse_args (Suc n) d token argv s = Some (argv @ token # new, s')"
      using tok(1) c(1) n(1) by (simp add: s1_def)
    moreover have "\<forall>y. unat y < lo \<or> e < unat y \<longrightarrow> mem s' y = mem s y" using fr tok(2) c(2) by simp
    ultimately show ?thesis using n(2) Cons by (intro exI [of _ "token # new"] exI [of _ s']) simp
  qed
qed

end
