(* ===== verification/Shell_Line.thy ===== *)
theory Shell_Line
  imports Shell_Parse
begin

text \<open>
  The line editor: \<open>read_line\<close> against the reference \<open>edit\<close> on the bytes that arrive. What the
  loop leaves in the buffer, how much of the input it consumes, and when it waits for ever.
\<close>

section \<open>One received byte\<close>

text \<open>What the loop does with the first byte that is not NUL.\<close>

lemma read_line_wait:
  assumes "\<forall>b \<in> set (rx_bytes (uart s)). b = 0" and "i < 127"
  shows "read_line buf i s = None"
  using kgetc_blocking_stuck [OF assms(1)] assms(2) by (subst read_line.simps) simp

lemma read_line_byte:
  assumes "rx_bytes (uart s) = replicate n 0 @ c # rest" and "c \<noteq> 0" and "i < 127"
  obtains s1 where "rx_bytes (uart s1) = rest" and "mem s1 = mem s" and "\<exists>u. s1 = s\<lparr>uart := u\<rparr>"
    and "read_line buf i s =
      (if c = 13 \<or> c = 10 then Some (i, kprintf ''\<newline>'' [] s1)
       else if c = 8 \<or> c = 127 then
         (if i > 0 then read_line buf (i - 1) (kprintf [CHR 0x08, CHR '' '', CHR 0x08] [] s1)
          else read_line buf i s1)
       else if 32 \<le> c \<and> c \<le> 126 then
         read_line buf (i + 1) (kprintf ''%c'' [VWord (ucast c)] (s1\<lparr>mem := (mem s1)(buf + of_nat i := c)\<rparr>))
       else read_line buf i s1)"
proof -
  obtain u where u: "kgetc_blocking (uart s) = Some (if c = 13 then 10 else c, u)" "rx_bytes u = rest"
    using kgetc_blocking_gets [OF assms(1,2)] by blast
  show thesis
  proof (rule that [of "s\<lparr>uart := u\<rparr>"])
    show "\<exists>v. s\<lparr>uart := u\<rparr> = s\<lparr>uart := v\<rparr>" by blast
  qed (use u assms(3) in \<open>simp, simp, subst read_line.simps, simp add: Let_def\<close>)
qed

section \<open>The whole line\<close>

text \<open>The bytes at the start of the buffer.\<close>

definition holds :: "memory \<Rightarrow> addr \<Rightarrow> byte list \<Rightarrow> bool" where
  "holds m a xs \<longleftrightarrow> (\<forall>i < length xs. m (a + of_nat i) = xs ! i)"

text \<open>\<open>only_mem R s t\<close>: \<open>t\<close> differs from \<open>s\<close> in the console and in the bytes of \<open>R\<close> only.\<close>

definition only_mem :: "addr set \<Rightarrow> 'a machine_scheme \<Rightarrow> 'a machine_scheme \<Rightarrow> bool" where
  "only_mem R s t \<longleftrightarrow> (\<exists>m u. t = s\<lparr>mem := m, uart := u\<rparr>) \<and> (\<forall>x. x \<notin> R \<longrightarrow> mem t x = mem s x)"

lemma only_memI:
  "t = s\<lparr>mem := m, uart := u\<rparr> \<Longrightarrow> (\<And>x. x \<notin> R \<Longrightarrow> m x = mem s x) \<Longrightarrow> only_mem R s t"
  unfolding only_mem_def by (rule conjI, intro exI, assumption, simp)

lemma only_memE:
  assumes "only_mem R s t"
  obtains m u where "t = s\<lparr>mem := m, uart := u\<rparr>" and "\<And>x. x \<notin> R \<Longrightarrow> m x = mem s x"
  using assms unfolding only_mem_def by (elim exE conjE) (rule that, assumption, simp)

lemma only_mem_seq: "only_mem R s t \<Longrightarrow> only_mem R' t u \<Longrightarrow> R \<subseteq> S \<Longrightarrow> R' \<subseteq> S \<Longrightarrow> only_mem S s u"
  by (elim only_memE, rule only_memI [where m = "mem u" and u = "uart u"]) (simp_all add: subset_iff, metis)

lemma only_mem_kprintf: "only_mem R s t \<Longrightarrow> only_mem R s (kprintf f as t)"
  by (elim only_memE, rule only_memI [where m = "mem t" and u = "uart (kprintf f as t)"]) (simp_all add: kprintf_def)

lemma only_mem_mem: "(\<And>x. x \<notin> R \<Longrightarrow> m x = mem s x) \<Longrightarrow> only_mem R s (s\<lparr>mem := m\<rparr>)"
  by (rule only_memI [where m = m and u = "uart s"]) simp_all

lemma only_mem_trans: "only_mem R s t \<Longrightarrow> only_mem R t u \<Longrightarrow> only_mem R s u"
  by (erule (1) only_mem_seq) simp_all

lemma only_mem_uart: "\<exists>u. t = s\<lparr>uart := u\<rparr> \<Longrightarrow> only_mem R s t"
  by (elim exE, rule only_memI [where m = "mem s" and u = "uart t"]) simp_all

lemma only_mem_put:
  assumes "\<exists>u. t = s\<lparr>uart := u\<rparr>" and "i < 127"
  shows "only_mem (region buf 127) s (t\<lparr>mem := (mem t)(buf + of_nat i := c)\<rparr>)"
proof -
  have "buf + of_nat i \<in> region buf 127" using assms(2) by (simp add: region_def)
  then show ?thesis
    using assms(1) by (elim exE, intro only_memI [where m = "(mem t)(buf + of_nat i := c)" and u = "uart t"]) auto
qed

lemma holds_snoc:
  "holds m a xs \<Longrightarrow> length xs < 2 ^ 64 \<Longrightarrow> holds (m(a + of_nat (length xs) := c)) a (xs @ [c])"
  unfolding holds_def by (auto simp: nth_append less_Suc_eq of_nat64_inject)

lemma holds_butlast: "holds m a xs \<Longrightarrow> holds m a (butlast xs)"
  unfolding holds_def by (simp add: nth_butlast)

definition reads :: "addr \<Rightarrow> byte list \<Rightarrow> 'a machine_scheme \<Rightarrow> (byte list \<times> byte list) option \<Rightarrow> bool" where
  "reads buf line s e =
     (case e of
        None \<Rightarrow> read_line buf (length line) s = None
      | Some (l, r) \<Rightarrow> (\<exists>t. read_line buf (length line) s = Some (length l, t) \<and> rx_bytes (uart t) = r
          \<and> holds (mem t) buf l \<and> only_mem (region buf 127) s t))"

lemma reads_step:
  assumes "reads buf line' s1 e" and "read_line buf (length line) s = read_line buf (length line') s1" and "only_mem (region buf 127) s s1"
  shows "reads buf line s e"
  using assms only_mem_trans [OF assms(3)] unfolding reads_def by (auto split: option.splits prod.splits)

text \<open>A full line ends without a further byte.\<close>

lemma reads_full:
  assumes "127 \<le> length line" and "rx_bytes (uart s) = input" and "holds (mem s) buf line"
  shows "reads buf line s (edit line input)"
proof -
  have "read_line buf (length line) s = Some (length line, s)" using assms(1) by (subst read_line.simps) simp
  moreover have "only_mem (region buf 127) s s" by (rule only_mem_uart) (rule exI [of _ "uart s"], simp)
  ultimately show ?thesis using assms by (subst edit.simps) (simp add: reads_def)
qed

text \<open>One byte other than NUL, when the rest of the input is edited right.\<close>

lemma reads_byte:
  fixes s :: "'a machine_scheme"
  assumes rx: "rx_bytes (uart s) = replicate k 0 @ c # cs" and c0: "c \<noteq> 0" and len: "length line < 127"
    and h: "holds (mem s) buf line"
    and IH: "\<And>line' (s' :: 'a machine_scheme). rx_bytes (uart s') = cs \<Longrightarrow> holds (mem s') buf line'
      \<Longrightarrow> reads buf line' s' (edit line' cs)"
  shows "reads buf line s (edit line (c # cs))"
proof -
  obtain s1 where s1: "rx_bytes (uart s1) = cs" "mem s1 = mem s" "\<exists>u. s1 = s\<lparr>uart := u\<rparr>"
    and step: "read_line buf (length line) s =
    (if c = 13 \<or> c = 10 then Some (length line, kprintf ''\<newline>'' [] s1)
     else if c = 8 \<or> c = 127 then
       (if length line > 0 then read_line buf (length line - 1) (kprintf [CHR 0x08, CHR '' '', CHR 0x08] [] s1)
        else read_line buf (length line) s1)
     else if 32 \<le> c \<and> c \<le> 126 then
       read_line buf (length line + 1)
         (kprintf ''%c'' [VWord (ucast c)] (s1\<lparr>mem := (mem s1)(buf + of_nat (length line) := c)\<rparr>))
     else read_line buf (length line) s1)"
    by (rule read_line_byte [OF rx c0 len])
  have h: "holds (mem s1) buf line" using h s1(2) by simp
  have o: "only_mem (region buf 127) s s1" by (rule only_mem_uart [OF s1(3)])
  consider "c = 13 \<or> c = 10" | "c = 8 \<or> c = 127" | "32 \<le> c" "c \<le> 126" "c \<noteq> 8" "c \<noteq> 127" "c \<noteq> 13" "c \<noteq> 10"
    | "\<not> (32 \<le> c \<and> c \<le> 126)" "c \<noteq> 8" "c \<noteq> 127" "c \<noteq> 13" "c \<noteq> 10" by blast
  then show ?thesis
  proof cases
    case 1
    have "edit line (c # cs) = Some (line, cs)" using len c0 1 by (subst edit.simps) auto
    then show ?thesis using step 1 h s1(1) only_mem_kprintf [OF o] by (auto simp: reads_def)
  next
    case 2
    have e: "edit line (c # cs) = edit (butlast line) cs" using len c0 2 by (subst edit.simps) auto
    let ?s2 = "if line = [] then s1 else kprintf [CHR 0x08, CHR '' '', CHR 0x08] [] s1"
    have "reads buf (butlast line) ?s2 (edit (butlast line) cs)" by (rule IH) (use h s1 in \<open>auto simp: holds_butlast\<close>)
    then show ?thesis unfolding e by (rule reads_step) (use step 2 in \<open>auto simp: o only_mem_kprintf\<close>)
  next
    case 3
    have e: "edit line (c # cs) = edit (line @ [c]) cs" using len c0 3 by (subst edit.simps) auto
    let ?s2 = "kprintf ''%c'' [VWord (ucast c)] (s1\<lparr>mem := (mem s1)(buf + of_nat (length line) := c)\<rparr>)"
    have "holds (mem ?s2) buf (line @ [c])" using holds_snoc [OF h] len by simp
    then have "reads buf (line @ [c]) ?s2 (edit (line @ [c]) cs)" using s1(1) by (intro IH) (simp_all add: fun_upd_def)
    moreover have "read_line buf (length line) s = read_line buf (length (line @ [c])) ?s2" using step 3 by auto
    ultimately show ?thesis unfolding e by (rule reads_step) (intro only_mem_kprintf only_mem_put s1(3) len)
  next
    case 4
    have e: "edit line (c # cs) = edit line cs" using len c0 4 by (subst edit.simps) auto
    show ?thesis unfolding e by (rule reads_step [OF IH [OF s1(1) h]]) (use step 4 o in auto)
  qed
qed

lemma read_line_edit:
  fixes s :: "'a machine_scheme"
  assumes "rx_bytes (uart s) = replicate k 0 @ input" and "length line < 127 \<or> k = 0"
    and "holds (mem s) buf line"
  shows "reads buf line s (edit line input)"
  using assms
proof (induction input arbitrary: line k s)
  case Nil
  show ?case
  proof (cases "127 \<le> length line")
    case True
    then show ?thesis using Nil by (intro reads_full) auto
  next
    case False
    then have "read_line buf (length line) s = None" using Nil by (intro read_line_wait) auto
    then show ?thesis using False by (subst edit.simps) (simp add: reads_def)
  qed
next
  case (Cons c cs)
  consider "127 \<le> length line" | "length line < 127" "c = 0" | "length line < 127" "c \<noteq> 0" by fastforce
  then show ?case
  proof cases
    case 1
    then show ?thesis using Cons.prems by (intro reads_full) auto
  next
    case 2
    then have "reads buf line s (edit line cs)"
      using Cons.IH [of s "Suc k" line] Cons.prems by (simp add: replicate_app_Cons_same)
    then show ?thesis using 2 by (subst edit.simps) simp
  next
    case 3
    have "reads buf line' s' (edit line' cs)" if "rx_bytes (uart s') = cs" "holds (mem s') buf line'"
      for line' and s' :: "'a machine_scheme" using Cons.IH [of s' 0 line'] that by simp
    then show ?thesis by (rule reads_byte [OF Cons.prems(1) 3(2,1) Cons.prems(3)])
  qed
qed

text \<open>Printable lines and their end.\<close>

definition printable :: "byte list \<Rightarrow> bool" where
  "printable xs \<longleftrightarrow> (\<forall>c \<in> set xs. 32 \<le> c \<and> c \<le> 126)"

lemma edit_line:
  assumes "printable xs" and "length line + length xs < 127"
  shows "edit line (xs @ 13 # rest) = Some (line @ xs, rest)"
  using assms
proof (induction xs arbitrary: line)
  case Nil
  then show ?case by (subst edit.simps) simp
next
  case (Cons c cs)
  have "c \<noteq> 0 \<and> c \<noteq> 13 \<and> c \<noteq> 10 \<and> c \<noteq> 8 \<and> c \<noteq> 127"
    using Cons.prems(1) by (auto simp: printable_def word_le_nat_alt)
  then have "edit line ((c # cs) @ 13 # rest) = edit (line @ [c]) (cs @ 13 # rest)"
    using Cons.prems by (subst edit.simps) (simp add: printable_def)
  also have "\<dots> = Some ((line @ [c]) @ cs, rest)"
    using Cons.prems by (intro Cons.IH) (simp_all add: printable_def)
  finally show ?case by simp
qed

lemma holds_cstr:
  assumes "holds m a xs" and "0 \<notin> set xs" and "length xs < 2 ^ 64"
  shows "cstr (m(a + of_nat (length xs) := 0)) a xs"
  using assms cstr_append [of "m(a + of_nat (length xs) := 0)" a xs "[]"]
  by (auto simp: holds_def of_nat64_inject)

text \<open>The line in the buffer behind the loop and the final NUL.\<close>

lemma read_line_line:
  assumes "edit [] (rx_bytes (uart s)) = Some (l, r)"
  obtains t where "read_line buf 0 s = Some (length l, t)" and "rx_bytes (uart t) = r" and "only_mem (region buf 127) s t"
    and "cstr ((mem t)(buf + of_nat (length l) := 0)) buf l" and "length l \<le> 127"
proof -
  have "reads buf [] s (Some (l, r))"
    using read_line_edit [of s 0 "rx_bytes (uart s)" "[]" buf] assms by (simp add: holds_def)
  then obtain t where t: "read_line buf 0 s = Some (length l, t)" "rx_bytes (uart t) = r"
      "holds (mem t) buf l" "only_mem (region buf 127) s t" by (auto simp: reads_def)
  have "length l \<le> 127" "0 \<notin> set l" using edit_length [OF assms] edit_no_NUL [OF assms] by simp_all
  then show thesis using t holds_cstr [OF t(3)] by (intro that) auto
qed

section \<open>Theorem\<close>

text \<open>
  C10. Reading a line ends exactly when the bytes on the line complete one: a carriage return
  or newline, or the 127th character. Then the buffer holds the line the reference editor
  computes (NUL and control bytes ignored, backspace and delete removing a character), of
  at most 127 characters, the bytes behind it are still to be read, and nothing outside the
  first 127 bytes of the buffer changes but the console.
\<close>

theorem read_line_correct:
  "case edit [] (rx_bytes (uart s)) of
     None \<Rightarrow> read_line buf 0 s = None
   | Some (l, r) \<Rightarrow> length l \<le> 127 \<and> (\<exists>t. read_line buf 0 s = Some (length l, t) \<and> rx_bytes (uart t) = r
       \<and> cstr ((mem t)(buf + of_nat (length l) := 0)) buf l
       \<and> (\<forall>x. x \<notin> region buf 127 \<longrightarrow> mem t x = mem s x))"
proof (cases "edit [] (rx_bytes (uart s))")
  case None
  then show ?thesis
    using read_line_edit [of s 0 "rx_bytes (uart s)" "[]" buf] by (simp add: reads_def holds_def)
next
  case (Some e)
  obtain l r where e: "e = (l, r)" by (cases e)
  obtain t where "read_line buf 0 s = Some (length l, t)" "rx_bytes (uart t) = r" "only_mem (region buf 127) s t"
      "cstr ((mem t)(buf + of_nat (length l) := 0)) buf l" "length l \<le> 127"
    by (rule read_line_line [OF Some [unfolded e]])
  then show ?thesis unfolding Some e by (auto simp: only_mem_def)
qed

theorem read_line_correct_witness:
  "\<exists>t. read_line 0x40000000 0 \<lparr>mem = (\<lambda>_. 1), uart = \<lparr>uart_ibrd = 0, uart_fbrd = 0, uart_lcrh = 0, uart_imsc = 0,
       uart_cr = 0, tx_busy = [2], tx_out = [], rx_line = [(3, 104), (0, 120), (1, 8), (0, 0), (0, 105), (0, 13)], rx_stale = 88\<rparr>\<rparr>
     = Some (2, t) \<and> mem t 0x40000001 = 105"
proof -
  let ?s = "\<lparr>mem = (\<lambda>_. 1), uart = \<lparr>uart_ibrd = 0, uart_fbrd = 0, uart_lcrh = 0, uart_imsc = 0,
       uart_cr = 0, tx_busy = [2], tx_out = [], rx_line = [(3, 104), (0, 120), (1, 8), (0, 0), (0, 105), (0, 13)], rx_stale = 88\<rparr>\<rparr>"
  have "edit [] (rx_bytes (uart ?s)) = Some ([104, 105], [])" by (simp add: rx_bytes_def edit.simps)
  then obtain t where "read_line 0x40000000 0 ?s = Some (2, t)"
      "cstr ((mem t)(0x40000000 + of_nat 2 := 0)) 0x40000000 [104, 105]"
    using read_line_correct [where s = ?s and buf = "0x40000000"] by (auto simp del: cstr.simps)
  then show ?thesis by (intro exI [of _ t]) simp
qed

end
