(* ===== verification/Shell_Run.thy ===== *)
theory Shell_Run
  imports Shell_Line
begin

text \<open>
  What the shell does with a line: the arguments are the tokens of the line, at most ten,
  and the first one selects the command.
\<close>

section \<open>The literals of the program\<close>

text \<open>
  The strings that the shell relies on: the separator, the name of the exit command, the names
  in the command table, and the strings that \<open>kprintf\<close> may find as its format behind the system
  call. \<open>shell_ok\<close> says that they are where the environment says, outside the line buffer, and
  that those formats have no conversions.
\<close>

definition cmd_names :: "string list" where
  "cmd_names = [''help'', ''memdump'', ''peek'', ''poke'', ''alloc'', ''free'', ''pmm_info'']"

definition commands :: "command list" where
  "commands = [Cmd_Help, Cmd_Memdump, Cmd_Peek, Cmd_Poke, Cmd_Alloc, Cmd_Free, Cmd_Pmm_Info]"

definition command_of :: "byte list \<Rightarrow> command option" where
  "command_of t = map_of (zip (map string_bytes cmd_names) commands) t"

definition literals :: "shell_env \<Rightarrow> (addr \<times> byte list) list" where
  "literals env = (env_space env, [32]) # (env_exit env, string_bytes ''exit'')
     # zip (env_names env) (map string_bytes cmd_names) @ env_formats env"

definition shell_ok :: "shell_env \<Rightarrow> memory \<Rightarrow> bool" where
  "shell_ok env m \<longleftrightarrow> env_cmd_buffer env \<noteq> 0 \<and> unat (env_cmd_buffer env) + 128 < 2 ^ 64
     \<and> length (env_names env) = 7 \<and> 0 \<notin> set (env_names env)
     \<and> (\<forall>(a, xs) \<in> set (env_formats env). length xs < 2 ^ 64 \<and> 37 \<notin> set xs)
     \<and> (\<forall>(a, xs) \<in> set (literals env). cstr m a xs
          \<and> region a (Suc (length xs)) \<inter> region (env_cmd_buffer env) 128 = {})"

text \<open>The memory of all the literals.\<close>

definition literal_bytes :: "shell_env \<Rightarrow> addr set" where
  "literal_bytes env = (\<Union>(a, xs) \<in> set (literals env). region a (Suc (length xs)))"

lemma literal_length:
  assumes "shell_ok env m" and "(a, xs) \<in> set (literals env)"
  shows "length xs < 2 ^ 64"
proof -
  consider "(a, xs) \<in> set (env_formats env)" | "xs \<in> {[32], string_bytes ''exit''} \<union> set (map string_bytes cmd_names)"
    using assms(2) by (auto simp: literals_def dest: set_zip_rightD)
  then show ?thesis
  proof cases
    case 2
    then have "length xs \<le> 8" by (auto simp: string_bytes_def cmd_names_def)
    then show ?thesis by simp
  qed (use assms(1) in \<open>auto simp: shell_ok_def\<close>)
qed

lemma shell_ok_cong:
  assumes "shell_ok env m" and "\<And>y. y \<in> literal_bytes env \<Longrightarrow> m' y = m y"
  shows "shell_ok env m'"
proof -
  have "cstr m' a xs" if "(a, xs) \<in> set (literals env)" for a xs
  proof -
    have "cstr m' a xs = cstr m a xs"
      by (rule cstr_cong [OF _ literal_length [OF assms(1) that]]) (use that assms(2) in \<open>auto simp: literal_bytes_def\<close>)
    then show ?thesis using assms(1) that by (auto simp: shell_ok_def)
  qed
  then show ?thesis using assms(1) by (auto simp: shell_ok_def)
qed

lemma literal_not_buffer: "shell_ok env m \<Longrightarrow> y \<in> literal_bytes env \<Longrightarrow> y \<notin> region (env_cmd_buffer env) 128"
  by (auto simp: shell_ok_def literal_bytes_def)

lemma shell_ok_buffer:
  assumes "shell_ok env m" and "\<And>y. y \<notin> region (env_cmd_buffer env) 128 \<Longrightarrow> m' y = m y"
  shows "shell_ok env m'"
  using assms(1) by (rule shell_ok_cong) (simp add: assms(2) literal_not_buffer [OF assms(1)])

lemma shell_okD:
  assumes "shell_ok env m"
  shows "env_cmd_buffer env \<noteq> 0" and "unat (env_cmd_buffer env) + 128 < 2 ^ 64" and "cstr m (env_space env) [32]"
    and "cstr m (env_exit env) (string_bytes ''exit'')"
    and "list_all2 (\<lambda>n x. n \<noteq> 0 \<and> cstr m n x) (env_names env) (map string_bytes cmd_names)"
proof -
  show "env_cmd_buffer env \<noteq> 0" "unat (env_cmd_buffer env) + 128 < 2 ^ 64" "cstr m (env_space env) [32]"
    "cstr m (env_exit env) (string_bytes ''exit'')"
    using assms by (auto simp: shell_ok_def literals_def)
  have "length (env_names env) = length (map string_bytes cmd_names)"
    using assms by (simp add: shell_ok_def cmd_names_def)
  then show "list_all2 (\<lambda>n x. n \<noteq> 0 \<and> cstr m n x) (env_names env) (map string_bytes cmd_names)"
    using assms by (auto simp: list_all2_iff shell_ok_def literals_def dest: set_zip_leftD)
qed

section \<open>Printing and looking up\<close>

definition text_of :: "byte list \<Rightarrow> string" where
  "text_of xs = map (\<lambda>c. char_of (unat c)) xs"

lemma cstring_cstr: "cstr m a xs \<Longrightarrow> cstring m a = Some (text_of xs)"
proof (induction xs arbitrary: a)
  case (Cons x xs)
  then show ?case by (subst cstring.simps) (simp add: text_of_def)
qed (subst cstring.simps, simp add: text_of_def)

lemma kprintf_s_cstr: "cstr (mem s) a xs \<Longrightarrow> kprintf_s f a s = Some (kprintf f [VStr (Some (text_of xs))] s)"
  by (simp add: kprintf_s_def cstring_cstr)

lemma strcmp_eq:
  assumes "cstr m a xs" and "cstr m b ys"
  obtains d where "strcmp m a b = Some d" and "d = 0 \<longleftrightarrow> xs = ys"
  using strcmp_list_cmp [OF assms] list_cmp_0_iff [OF cstr_no_NUL cstr_no_NUL, OF assms] by (intro that)

lemma find_command_table:
  assumes "list_all2 (\<lambda>n x. n \<noteq> 0 \<and> cstr m n x) ns xs" and "length fs = length xs" and "cstr m a t"
  shows "find_command (zip ns (map Some fs) @ [(0, None)]) m a = Some (map_of (zip xs fs) t)"
  using assms(1,2)
proof (induction arbitrary: fs rule: list_all2_induct)
  case (Cons n ns x xs)
  then obtain g gs where fs: "fs = g # gs" by (cases fs) auto
  obtain d where "strcmp m a n = Some d" "d = 0 \<longleftrightarrow> t = x"
    using strcmp_eq [OF assms(3), of n x] Cons.hyps by blast
  then show ?case using Cons fs by auto
qed simp

lemma find_command_of:
  assumes "shell_ok env m" and "cstr m a t"
  shows "find_command (init_command_table env) m a = Some (command_of t)"
proof -
  have "find_command (zip (env_names env) (map Some commands) @ [(0, None)]) m a
      = Some (map_of (zip (map string_bytes cmd_names) commands) t)"
    by (rule find_command_table [OF shell_okD(5) [OF assms(1)] _ assms(2)]) (simp add: cmd_names_def commands_def)
  then show ?thesis by (simp add: init_command_table_def commands_def command_of_def)
qed

section \<open>The arguments\<close>

text \<open>What splitting the line leaves unchanged.\<close>

definition splits :: "shell_env \<Rightarrow> 'a shell_scheme \<Rightarrow> 'a shell_scheme \<Rightarrow> bool" where
  "splits env s t \<longleftrightarrow> (\<exists>m l. t = s\<lparr>mem := m, strtok_last := l\<rparr>)
     \<and> (\<forall>y. y \<notin> region (env_cmd_buffer env) 128 \<longrightarrow> mem t y = mem s y)"

lemma parse_line:
  assumes ok: "shell_ok env (mem s)" and l: "cstr (mem s) (env_cmd_buffer env) l" "length l \<le> 127"
  defines "ts \<equiv> tokens {32} l"
  shows "\<exists>m la tok argv s1. strtok (mem s) (strtok_last s) (env_cmd_buffer env) (env_space env) = Some (m, la, tok)
    \<and> parse_args MAX_ARGS (env_space env) tok [] (s\<lparr>mem := m, strtok_last := la\<rparr>) = Some (argv, s1)
    \<and> length argv = min MAX_ARGS (length ts) \<and> (\<forall>i < length argv. cstr (mem s1) (argv ! i) (ts ! i))
    \<and> splits env s s1 \<and> shell_ok env (mem s1)"
proof -
  let ?b = "env_cmd_buffer env" and ?d = "env_space env"
  note O = shell_okD [OF ok]
  have le: "unat ?b + length l < 2 ^ 64" using O(2) l(2) by simp
  have out: "y \<notin> region ?b 128 \<Longrightarrow> unat y < unat ?b \<or> unat ?b + length l < unat y" for y
    using O(2) l(2) by (subst (asm) in_region_nat) auto
  have e0: "?b = (if ?b = 0 then strtok_last s else ?b)" using O(1) by simp
  obtain m la tok where c: "strtok (mem s) (strtok_last s) ?b ?d = Some (m, la, tok)"
      "\<forall>y. unat y < unat ?b \<or> unat ?b + length l < unat y \<longrightarrow> m y = mem s y"
      "found (set [32]) m (unat ?b) (unat ?b + length l) tok la (tokens (set [32]) l)"
    using strtok_call [OF l(1) O(3) O(1) le e0] by blast
  define s0 where "s0 = s\<lparr>mem := m, strtok_last := la\<rparr>"
  have f: "found (set [32]) (mem s0) (unat ?b) (unat ?b + length l) tok (strtok_last s0) ts"
    using c(3) by (simp add: s0_def ts_def)
  have sp: "cstr m' ?d [32]" if "\<And>y. unat y < unat ?b \<or> unat ?b + length l < unat y \<Longrightarrow> m' y = mem s0 y" for m'
  proof -
    have "shell_ok env m'" using that c(2) out by (intro shell_ok_buffer [OF ok]) (auto simp: s0_def)
    then show ?thesis by (rule shell_okD(3))
  qed
  from parse_args_tokens [OF f le order_refl sp, of MAX_ARGS "[]"]
  obtain argv s1 where n: "parse_args MAX_ARGS ?d tok [] s0 = Some (argv, s1)"
      "length argv = min MAX_ARGS (length ts)" "\<forall>i < length argv. cstr (mem s1) (argv ! i) (ts ! i)"
      "\<forall>y. unat y < unat ?b \<or> unat ?b + length l < unat y \<longrightarrow> mem s1 y = mem s0 y"
      "\<exists>m l. s1 = s0\<lparr>mem := m, strtok_last := l\<rparr>" unfolding append_Nil by blast
  have m1: "mem s1 y = mem s y" if "y \<notin> region ?b 128" for y using n(4) c(2) out [OF that] by (auto simp: s0_def)
  have "splits env s s1" using m1 n(5) by (auto simp: splits_def s0_def)
  moreover have "shell_ok env (mem s1)" using m1 by (intro shell_ok_buffer [OF ok]) auto
  ultimately show ?thesis using c(1) n(1-3) unfolding s0_def by blast
qed

section \<open>Dispatch\<close>

text \<open>The reference: what happens to a line with the given tokens.\<close>

definition dispatch :: "byte list list \<Rightarrow> addr list \<Rightarrow> 'a shell_scheme \<Rightarrow> (bool \<times> 'a shell_scheme) option" where
  "dispatch ts argv s =
     (if ts = [] then Some (True, s)
      else if hd ts = string_bytes ''exit'' then Some (False, kprintf ''Exiting shell.\<newline>'' [] s)
      else case command_of (hd ts) of
             None \<Rightarrow> Some (True, kprintf ''Unknown command: %s\<newline>'' [VStr (Some (text_of (hd ts)))] s)
           | Some cmd \<Rightarrow> map_option (Pair True) (run_command cmd (length argv) argv s))"

lemma run_line_dispatch:
  assumes ok: "shell_ok env (mem s)" and l: "cstr (mem s) (env_cmd_buffer env) l" "length l \<le> 127"
  obtains argv s1 where "run_line env s = dispatch (tokens {32} l) argv s1"
    and "length argv = min MAX_ARGS (length (tokens {32} l))"
    and "\<forall>i < length argv. cstr (mem s1) (argv ! i) (tokens {32} l ! i)"
    and "splits env s s1" and "shell_ok env (mem s1)"
proof -
  obtain m la tok argv s1 where
      c: "strtok (mem s) (strtok_last s) (env_cmd_buffer env) (env_space env) = Some (m, la, tok)"
      "parse_args MAX_ARGS (env_space env) tok [] (s\<lparr>mem := m, strtok_last := la\<rparr>) = Some (argv, s1)"
      "length argv = min MAX_ARGS (length (tokens {32} l))"
      "\<forall>i < length argv. cstr (mem s1) (argv ! i) (tokens {32} l ! i)"
      "splits env s s1" "shell_ok env (mem s1)"
    using parse_line [OF assms] by (elim exE conjE) (rule that)
  have "run_line env s = dispatch (tokens {32} l) argv s1"
  proof (cases "tokens {32} l")
    case Nil
    then show ?thesis using c(1-3) by (simp add: run_line_def dispatch_def)
  next
    case (Cons t ts)
    then have a: "argv \<noteq> []" and a0: "cstr (mem s1) (argv ! 0) t" using c(3,4) by auto
    obtain d where d: "strcmp (mem s1) (argv ! 0) (env_exit env) = Some d" "d = 0 \<longleftrightarrow> t = string_bytes ''exit''"
      by (rule strcmp_eq [OF a0 shell_okD(4) [OF c(6)]])
    have rl: "run_line env s = (if d = 0 then Some (False, kprintf ''Exiting shell.\<newline>'' [] s1)
        else case command_of t of
               None \<Rightarrow> do { s2 \<leftarrow> kprintf_s ''Unknown command: %s\<newline>'' (argv ! 0) s1; Some (True, s2) }
             | Some cmd \<Rightarrow> do { s2 \<leftarrow> run_command cmd (length argv) argv s1; Some (True, s2) })"
      using c(1,2) a d(1) find_command_of [OF c(6) a0] by (simp add: run_line_def)
    show ?thesis
      unfolding rl dispatch_def Cons list.sel d(2) kprintf_s_cstr [OF a0]
      by (auto split: option.splits bind_splits simp: map_option_case)
  qed
  then show thesis using c(3-6) by (rule that)
qed

text \<open>
  C9. A line is split into its tokens at spaces: \<open>argv\<close> holds the first ten of them as C
  strings, \<open>argc\<close> is their number, and nothing outside the buffer changes. The line is then
  handled as the reference says: no token, nothing happens; \<open>exit\<close> ends the shell; one of
  the seven command names runs that command with these arguments; any other name is
  reported.
\<close>

theorem run_line_correct:
  assumes "shell_ok env (mem s)" and "cstr (mem s) (env_cmd_buffer env) l" and "length l \<le> 127"
  shows "\<exists>argv s1. run_line env s = dispatch (tokens {32} l) argv s1
    \<and> length argv = min 10 (length (tokens {32} l)) \<and> (\<forall>i < length argv. cstr (mem s1) (argv ! i) (tokens {32} l ! i))
    \<and> (\<forall>y. y \<notin> region (env_cmd_buffer env) 128 \<longrightarrow> mem s1 y = mem s y)"
proof -
  obtain argv s1 where "run_line env s = dispatch (tokens {32} l) argv s1"
      "length argv = min MAX_ARGS (length (tokens {32} l))"
      "\<forall>i < length argv. cstr (mem s1) (argv ! i) (tokens {32} l ! i)" "splits env s s1"
    by (rule run_line_dispatch [OF assms])
  then show ?thesis by (intro exI [of _ argv] exI [of _ s1]) (simp add: splits_def)
qed

end
