(* ===== verification/Kheap_Zone.thy ===== *)
theory Kheap_Zone
  imports Kheap_Correct
begin

text \<open>
  The memory that the physical memory manager and the heap may write, and what follows for
  the rest of the kernel: code that writes elsewhere keeps the heap, and the heap keeps what
  lies elsewhere, the kernel's own strings and stack among it.
\<close>

definition heap_zone :: "'a kheap_scheme \<Rightarrow> addr set" where
  "heap_zone s = heap_range s \<union> bitmap_bytes s \<union> (\<Union>i \<in> free_frames s. region (frame_addr i) 4096)"

definition same_heads :: "'a kheap_scheme \<Rightarrow> 'a kheap_scheme \<Rightarrow> bool" where
  "same_heads s t \<longleftrightarrow> heap_start t = heap_start s \<and> heap_end t = heap_end s \<and> free_list_head t = free_list_head s"

text \<open>
  Writes that leave the block headers and the bitmap alone keep the heap; so do writes to the
  contents of blocks, and all writes outside the zone.
\<close>

lemma kheap_headers_frame:
  assumes "kheap_inv s" and t: "touches R s t" "same_heads s t"
    and d: "R \<inter> hdrs (heap_blocks s) = {}" "R \<inter> bitmap_bytes s = {}"
  shows "kheap_inv t" and "live t = live s" and "frontier t = frontier s" and "free_frames t = free_frames s"
    and "heap_zone t = heap_zone s"
proof -
  obtain B F lo j where K: "kinv B F 0 lo j s" using assms(1) by (auto simp: kheap_inv_def)
  have h: "heap_start t = heap_start s" "heap_end t = heap_end s" "free_list_head t = free_list_head s"
    using t(2) by (simp_all add: same_heads_def)
  note I = heap_inv_frame [OF kinvD(2) [OF K] t(1) d(1) [unfolded kinv_abs(1) [OF K]] h]
  note P = touches_pmm [OF t(1) d(2)]
  have K': "kinv B F 0 lo j t"
    unfolding kinv_def P(1,2) using P(3) I(1) kinvD(1,3,4) [OF K] by blast
  then show "kheap_inv t" by (auto simp: kheap_inv_def)
  show "live t = live s"
  proof
    fix p show "live t p = live s p" unfolding kinv_abs(5) [OF K] kinv_abs(5) [OF K'] using I(2) by auto
  qed
  show "frontier t = frontier s" "free_frames t = free_frames s"
    using kinv_abs(2) [OF K] kinv_abs(2) [OF K'] P(1) by simp_all
  show "heap_zone t = heap_zone s"
    unfolding heap_zone_def kinv_abs(4) [OF K] kinv_abs(4) [OF K'] P(1,2) ..
qed

lemma kheap_frame:
  assumes "kheap_inv s" and t: "touches R s t" "same_heads s t" and R: "R \<inter> heap_zone s = {}"
  shows "kheap_inv t" and "live t = live s" and "frontier t = frontier s" and "free_frames t = free_frames s"
    and "heap_zone t = heap_zone s" and "y \<in> heap_zone s \<Longrightarrow> mem t y = mem s y"
proof -
  obtain B F lo j where K: "kinv B F 0 lo j s" using assms(1) by (auto simp: kheap_inv_def)
  have "hdrs (heap_blocks s) \<subseteq> heap_range s"
    unfolding kinv_abs(1,4) [OF K] by (rule hdrs_span [OF heap_invD(1) [OF kinvD(2) [OF K]]])
  then have d: "R \<inter> hdrs (heap_blocks s) = {}" "R \<inter> bitmap_bytes s = {}" using R by (auto simp: heap_zone_def)
  note H = kheap_headers_frame [OF assms(1) t d]
  show "kheap_inv t" "live t = live s" "frontier t = frontier s" "free_frames t = free_frames s"
    "heap_zone t = heap_zone s" by (rule H)+
  show "y \<in> heap_zone s \<Longrightarrow> mem t y = mem s y" using t(1) R by (auto simp: touches_def)
qed

lemma kheap_kprintf [simp]:
  "kheap_inv (kprintf f as s) = kheap_inv s" "frontier (kprintf f as s) = frontier s"
  "heap_zone (kprintf f as s) = heap_zone s" "room n (kprintf f as s) = room n s" "same_heads s (kprintf f as t) = same_heads s t"
proof -
  show f: "frontier (kprintf f as s) = frontier s" by (simp add: frontier_def)
  show "kheap_inv (kprintf f as s) = kheap_inv s" by (simp add: kheap_inv_def)
  show "heap_zone (kprintf f as s) = heap_zone s" by (simp add: heap_zone_def heap_range_def f)
  show "room n (kprintf f as s) = room n s" by (simp add: room_def f)
  show "same_heads s (kprintf f as t) = same_heads s t" by (simp add: same_heads_def)
qed

lemma live_kprintf: "kheap_inv s \<Longrightarrow> live (kprintf f as s) = live s"
  by (rule kheap_frame(2) [where R = "{}"]) (simp_all add: same_heads_def)

text \<open>The contents of allocated blocks lie in the zone.\<close>

lemma live_zone: "kheap_inv s \<Longrightarrow> live s p = Some n \<Longrightarrow> region p n \<subseteq> heap_zone s"
  using live_aligned(3) [of s p n] by (auto simp: heap_zone_def)

text \<open>Writes to the contents of an allocated block.\<close>

lemma kheap_contents_frame:
  assumes "kheap_inv s" and "live s p = Some n" and t: "touches (region p n) s t" "same_heads s t"
  shows "kheap_inv t" and "live t = live s" and "frontier t = frontier s" and "free_frames t = free_frames s"
    and "heap_zone t = heap_zone s"
proof -
  obtain B F lo j where K: "kinv B F 0 lo j s" using assms(1) by (auto simp: kheap_inv_def)
  note T = heap_invD(1) [OF kinvD(2) [OF K]]
  have b: "p - 48 \<in> B" "n = unat (hb_size (hdr (mem s) (p - 48)))"
    using assms(2) by (auto simp: kinv_abs(5) [OF K] split: if_splits)
  have "p - 48 + 48 = p" by simp
  then have "region p n \<inter> hdrs (heap_blocks s) = {}"
    using data_hdrs_disjoint [OF T b(1)] unfolding kinv_abs(1) [OF K] b(2) by simp
  moreover have "region p n \<inter> bitmap_bytes s = {}"
    using live_aligned(3) [OF assms(1,2)] kinvD(4) [OF K] unfolding kinv_abs(4) [OF K] by blast
  ultimately show "kheap_inv t" "live t = live s" "frontier t = frontier s" "free_frames t = free_frames s"
      "heap_zone t = heap_zone s"
    by (rule kheap_headers_frame [OF assms(1) t])+
qed

text \<open>\<open>kmalloc\<close> writes inside the zone only, and the zone does not grow.\<close>

lemma kmalloc_zone:
  assumes "kheap_inv s" and "k \<noteq> 0" and "room (kmalloc_pages k + r) s"
  shows "\<exists>p t. kmalloc k s = Some (p, t) \<and> kheap_inv t \<and> room r t \<and> (align8 k \<le> 4048 \<longrightarrow> p \<noteq> 0)
    \<and> (p = 0 \<longrightarrow> live t = live s) \<and> (p \<noteq> 0 \<longrightarrow> live s p = None \<and> (\<exists>m. unat (align8 k) \<le> m \<and> live t = (live s)(p \<mapsto> m)))
    \<and> (\<forall>q m. live s q = Some m \<longrightarrow> (\<forall>y \<in> region q m. mem t y = mem s y))
    \<and> heap_zone t \<subseteq> heap_zone s \<and> (\<forall>y. y \<notin> heap_zone s \<longrightarrow> mem t y = mem s y)"
proof -
  obtain B F lo j where K: "kinv B F 0 lo j s" using assms(1) by (auto simp: kheap_inv_def)
  have rm: "{j..<j + kmalloc_pages k} \<subseteq> free_frames s"
    using assms(3) kinv_abs(2) [OF K] by (auto simp: room_def)
  obtain p t B' F' j' where t: "kmalloc k s = Some (p, t)" "kinv B' F' 0 lo j' t" "j \<le> j'" "j' \<le> j + kmalloc_pages k"
      "free_frames t = free_frames s - {j..<j'}" "bitmap_bytes t = bitmap_bytes s"
      "\<forall>y. y \<notin> span lo (frame_top j') \<longrightarrow> y \<notin> bitmap_bytes s \<longrightarrow> mem t y = mem s y"
    using kmalloc_step [OF K assms(2) kmalloc_pages_def rm] by metis
  have sp: "span lo (frame_top j') \<subseteq> heap_zone s"
  proof
    fix y assume y: "y \<in> span lo (frame_top j')"
    show "y \<in> heap_zone s"
    proof (cases "unat y < frame_top j")
      case True
      then show ?thesis using y kinv_abs(4) [OF K] by (auto simp: heap_zone_def span_def)
    next
      case False
      define i where "i = (unat y - 0x40000000) div 4096"
      have i: "frame_top i \<le> unat y" "unat y < frame_top i + 4096"
        using False unfolding i_def by (auto simp: span_def)
      have ij: "j \<le> i" "i < j'" using False y i by (auto simp: span_def)
      then have fr: "i \<in> free_frames s" using rm t(4) by auto
      then have "unat (frame_addr i) = frame_top i" by (simp add: unat_frame_addr free_frames_bound)
      moreover have "frame_top i + 4096 \<le> 2 ^ 64" using free_frames_bound [OF fr] by simp
      ultimately have "y \<in> region (frame_addr i) 4096" using i by (subst in_region_nat) auto
      then show ?thesis using fr by (auto simp: heap_zone_def)
    qed
  qed
  have "heap_zone t \<subseteq> heap_zone s"
    using sp unfolding heap_zone_def [of t] kinv_abs(4) [OF t(2)] t(5,6) by (auto simp: heap_zone_def)
  moreover have "\<forall>y. y \<notin> heap_zone s \<longrightarrow> mem t y = mem s y" using t(7) sp by (auto simp: heap_zone_def)
  ultimately show ?thesis
    using kmalloc_contract [OF assms] t(1) by (intro exI [of _ p] exI [of _ t]) auto
qed

text \<open>\<open>kfree\<close> likewise.\<close>

lemma kfree_zone:
  assumes "kheap_inv s" and "live s p = Some n"
  shows "heap_zone (kfree p s) = heap_zone s" and "y \<notin> heap_zone s \<Longrightarrow> mem (kfree p s) y = mem s y"
proof -
  note F = kfree_contract [OF assms]
  show "y \<notin> heap_zone s \<Longrightarrow> mem (kfree p s) y = mem s y" using F(4) by (auto simp: heap_zone_def)
  obtain B F lo j where K: "kinv B F 0 lo j s" using assms(1) by (auto simp: kheap_inv_def)
  have b: "p - 48 \<in> B" "p - 48 \<notin> F" using assms(2) by (auto simp: kinv_abs(5) [OF K] split: if_splits)
  have "p - 48 + 48 = p" by simp
  then obtain B' F' where t: "heap_inv B' F' 0 lo (frame_top j) (kfree p s)" "touches (hdrs B) s (kfree p s)"
    using kfree_step [OF kinvD(2) [OF K] b] by metis
  note T = kinv_touches [OF K t(2) hdrs_span [OF heap_invD(1) [OF kinvD(2) [OF K]]] t(1)]
  show "heap_zone (kfree p s) = heap_zone s"
    unfolding heap_zone_def kinv_abs(4) [OF K] kinv_abs(4) [OF T(1)] T(2,3) ..
qed

section \<open>Allocators that stay in their zone\<close>

text \<open>
  The contract of an allocator together with the memory it may write: calls neither write
  outside the zone nor make it larger. A client that keeps its own data outside the zone
  finds it unchanged after any sequence of calls.
\<close>

locale zoned_allocator = allocator malloc free blocks bytes good spare cost
  for malloc :: "u64 \<Rightarrow> 's \<Rightarrow> (addr \<times> 's) option" and free :: "addr \<Rightarrow> 's \<Rightarrow> 's"
    and blocks :: "'s \<Rightarrow> addr \<Rightarrow> nat option" and bytes :: "'s \<Rightarrow> memory"
    and good :: "'s \<Rightarrow> bool" and spare :: "nat \<Rightarrow> 's \<Rightarrow> bool" and cost :: "u64 \<Rightarrow> nat" +
  fixes zone :: "'s \<Rightarrow> addr set"
  assumes malloc_zone:
      "good s \<Longrightarrow> k \<noteq> 0 \<Longrightarrow> spare (cost k + r) s \<Longrightarrow> malloc k s = Some (p, t) \<Longrightarrow>
       zone t \<subseteq> zone s \<and> (\<forall>y. y \<notin> zone s \<longrightarrow> bytes t y = bytes s y)"
    and free_zone:
      "good s \<Longrightarrow> blocks s p \<noteq> None \<Longrightarrow>
       zone (free p s) \<subseteq> zone s \<and> (\<forall>y. y \<notin> zone s \<longrightarrow> bytes (free p s) y = bytes s y)"
begin

lemma run_outside:
  assumes "good s" and "legal ops s" and "spare (sum_list (map (op_cost cost) ops)) s" and "run ops s = Some t"
  shows "zone t \<subseteq> zone s \<and> (\<forall>y. y \<notin> zone s \<longrightarrow> bytes t y = bytes s y)"
  using assms
proof (induction ops arbitrary: s)
  case (Cons x ops)
  show ?case
  proof (cases x)
    case (Malloc k)
    then have k: "k \<noteq> 0" "spare (cost k + sum_list (map (op_cost cost) ops)) s" using Cons.prems by auto
    obtain p u where u: "malloc k s = Some (p, u)" "good u" "spare (sum_list (map (op_cost cost) ops)) u"
      using malloc_law [OF Cons.prems(1) k] by blast
    note Z = malloc_zone [OF Cons.prems(1) k u(1)]
    have "zone t \<subseteq> zone u \<and> (\<forall>y. y \<notin> zone u \<longrightarrow> bytes t y = bytes u y)"
      using Cons.IH [OF u(2) _ u(3)] Cons.prems(2,4) Malloc u(1) by simp
    then show ?thesis using Z by (auto simp: subset_iff)
  next
    case (Free p)
    then have p: "blocks s p \<noteq> None" "legal ops (free p s)" "run ops (free p s) = Some t" using Cons.prems by auto
    have "spare (sum_list (map (op_cost cost) ops)) (free p s)"
      using free_spare [OF Cons.prems(1) p(1)] Cons.prems(3) Free by simp
    then have "zone t \<subseteq> zone (free p s) \<and> (\<forall>y. y \<notin> zone (free p s) \<longrightarrow> bytes t y = bytes (free p s) y)"
      using Cons.IH [OF _ p(2) _ p(3)] free_law [OF Cons.prems(1) p(1)] by blast
    then show ?thesis using free_zone [OF Cons.prems(1) p(1)] by (auto simp: subset_iff)
  qed
qed simp

end

interpretation kernel_zone: zoned_allocator kmalloc kfree live mem kheap_inv room kmalloc_pages heap_zone
proof
  fix s t :: "'a kheap_scheme" and k r p
  assume s: "kheap_inv s" "k \<noteq> 0" "room (kmalloc_pages k + r) s" and t: "kmalloc k s = Some (p, t)"
  show "heap_zone t \<subseteq> heap_zone s \<and> (\<forall>y. y \<notin> heap_zone s \<longrightarrow> mem t y = mem s y)"
    using kmalloc_zone [OF s] t by auto
next
  fix s :: "'a kheap_scheme" and p
  assume s: "kheap_inv s" "live s p \<noteq> None"
  then obtain n where n: "live s p = Some n" by blast
  show "heap_zone (kfree p s) \<subseteq> heap_zone s \<and> (\<forall>y. y \<notin> heap_zone s \<longrightarrow> mem (kfree p s) y = mem s y)"
    using kfree_zone [OF s(1) n] by simp
qed

text \<open>
  C5. Any sequence of requests and of releases of allocated blocks, whose total demand for
  pages fits the room behind the heap, runs to its end, keeps the invariant, and leaves
  every block that it does not release allocated, with its size and its contents. No byte
  changes outside the heap, the free frames and the bitmap.
\<close>

theorem heap_calls_safe:
  assumes "kheap_inv s" and "legal_calls ops s" and "room (sum_list (map (op_cost kmalloc_pages) ops)) s"
  shows "\<exists>t. run_heap ops s = Some t \<and> kheap_inv t
    \<and> (\<forall>q m. live s q = Some m \<longrightarrow> Free q \<notin> set ops \<longrightarrow>
         live t q = Some m \<and> (\<forall>y \<in> region q m. mem t y = mem s y))
    \<and> (\<forall>y. y \<notin> heap_zone s \<longrightarrow> mem t y = mem s y)"
proof -
  note L = assms(2) [unfolded legal_calls_eq]
  obtain t where t: "kernel_heap.run ops s = Some t" "kheap_inv t"
      "\<forall>q m. live s q = Some m \<longrightarrow> Free q \<notin> set ops \<longrightarrow>
         live t q = Some m \<and> (\<forall>y \<in> region q m. mem t y = mem s y)"
    using kernel_heap.run_keeps [OF assms(1) L assms(3)] by blast
  then show ?thesis
    using kernel_zone.run_outside [OF assms(1) L assms(3) t(1)] by (simp add: run_heap_eq)
qed

theorem heap_calls_safe_witness:
  "\<exists>t. run_heap [Malloc 100, Malloc 200] boot_heap = Some t \<and> kheap_inv t"
proof -
  have "legal_calls [Malloc 100, Malloc 200] boot_heap" by (auto split: option.splits)
  moreover have "room (sum_list (map (op_cost kmalloc_pages) [Malloc 100, Malloc 200])) boot_heap"
    by (simp add: pages_100 boot_heap_facts(4))
  ultimately show ?thesis using heap_calls_safe [OF boot_heap_facts(1)] by blast
qed

text \<open>
  C6. Whatever the kernel allocates and releases after \<open>kheap_init\<close>: at every point of the
  history the allocated blocks overlap neither each other nor the bitmap of the physical
  memory manager nor a free frame, and they lie in the memory that the allocators had at
  the start.
\<close>

theorem heap_history_disjoint:
  assumes "pmm_inv s" and "{j..<j + 5} \<subseteq> free_frames s" and "\<forall>i \<in> free_frames s. j \<le> i"
    and "legal_calls ops (kheap_init s)" and "room (sum_list (map (op_cost kmalloc_pages) ops)) (kheap_init s)"
  shows "\<exists>t. run_heap ops (kheap_init s) = Some t
    \<and> (\<forall>p n. live t p = Some n \<longrightarrow> region p n \<inter> bitmap_bytes t = {} \<and> region p n \<subseteq> heap_zone (kheap_init s)
         \<and> (\<forall>i \<in> free_frames t. region p n \<inter> region (frame_addr i) 4096 = {})
         \<and> (\<forall>q m. live t q = Some m \<longrightarrow> p \<noteq> q \<longrightarrow> region p n \<inter> region q m = {}))"
proof -
  note L = assms(4) [unfolded legal_calls_eq]
  have I: "kheap_inv (kheap_init s)"
    using kheap_init_kinv(1) [OF assms(1-3)] by (auto simp: kheap_inv_def)
  obtain t where t: "kernel_heap.run ops (kheap_init s) = Some t" "kheap_inv t"
    using kernel_heap.run_keeps [OF I L assms(5)] by blast
  have "heap_zone t \<subseteq> heap_zone (kheap_init s)" using kernel_zone.run_outside [OF I L assms(5) t(1)] by blast
  then have z: "region p n \<subseteq> heap_zone (kheap_init s)" if "live t p = Some n" for p n
    using live_zone [OF t(2) that] by blast
  show ?thesis
    unfolding run_heap_eq
    by (intro exI [of _ t] conjI allI impI) (fact t(1) live_blocks_bitmap [OF t(2)] z live_disjoint [OF t(2)])+
qed

theorem heap_history_disjoint_witness:
  "\<exists>t. run_heap [Malloc 100, Malloc 200] boot_heap = Some t
     \<and> (\<forall>p n q m. live t p = Some n \<longrightarrow> live t q = Some m \<longrightarrow> p \<noteq> q \<longrightarrow> region p n \<inter> region q m = {})"
proof -
  have l: "legal_calls [Malloc 100, Malloc 200] boot_heap" by (auto split: option.splits)
  have r: "room (sum_list (map (op_cost kmalloc_pages) [Malloc 100, Malloc 200])) boot_heap"
    by (simp add: pages_100 boot_heap_facts(4))
  show ?thesis
    using heap_history_disjoint [OF boot_frames(1-3), folded boot_heap_def, OF l r] by blast
qed

section \<open>Input\<close>

text \<open>The heap prints, but consumes no input.\<close>

abbreviation input_of :: "'a machine_scheme \<Rightarrow> byte list" where
  "input_of s \<equiv> rx_bytes (uart s)"

named_theorems input_simps

lemma input_setters [input_simps]:
  "input_of (set_size b v s) = input_of s" "input_of (set_is_free b f s) = input_of s"
  "input_of (set_next b v s) = input_of s" "input_of (set_prev b v s) = input_of s"
  "input_of (set_next_free b v s) = input_of s" "input_of (set_prev_free b v s) = input_of s"
  by (simp_all add: set_size_def set_is_free_def set_next_def set_prev_def set_next_free_def set_prev_free_def)

lemma input_lists [input_simps]:
  "input_of (add_to_free_list b s) = input_of s" "input_of (remove_from_free_list b s) = input_of s"
  "input_of (absorb a b s) = input_of s" "input_of (link_frame b s) = input_of s"
  by (simp_all add: add_to_free_list_def remove_from_free_list_def absorb_def link_frame_def Let_def input_simps)

lemma input_alloc_frame_from: "input_of (snd (alloc_frame_from i s)) = input_of s"
proof (induction i s rule: alloc_frame_from.induct)
  case (1 i s)
  then show ?case
    by (subst alloc_frame_from.simps) (auto simp: set_bit_bm_def Let_def)
qed

lemma input_expand_loop: "input_of (snd (expand_loop n b s)) = input_of s"
proof (induction n arbitrary: b s)
  case (Suc n)
  obtain f s1 where "alloc_frame s = (f, s1)" by fastforce
  moreover from this have "input_of s1 = input_of s"
    using input_alloc_frame_from [of 0 s] by (simp add: alloc_frame_def)
  ultimately show ?case using Suc by (simp add: input_simps)
qed simp

lemma input_expand_heap: "input_of (snd (expand_heap k s)) = input_of s"
proof -
  obtain r s1 where e: "expand_loop (unat (pages_needed k)) 0
      (kprintf ''KHeap: Expanding heap by %zu pages\<newline>'' [VWord (pages_needed k)] s) = (r, s1)" by fastforce
  then have "input_of s1 = input_of s"
    using input_expand_loop [of "unat (pages_needed k)" 0
        "kprintf ''KHeap: Expanding heap by %zu pages\<newline>'' [VWord (pages_needed k)] s"] by simp
  then show ?thesis unfolding expand_heap_def Let_def e by (simp add: input_simps split: option.split)
qed

lemma input_take_block: "take_block b k s = (p, t) \<Longrightarrow> input_of t = input_of s"
  by (auto simp: take_block_def split_block_def Let_def input_simps)

lemma input_kmalloc:
  assumes "kmalloc k s = Some (p, t)"
  shows "input_of t = input_of s"
  using assms input_expand_heap [of "align8 k + 48" s]
  by (auto simp: kmalloc_def Let_def split: if_splits bind_splits prod.splits bool.splits dest: input_take_block)

lemma input_coalesce:
  assumes "coalesce b s = (c, t)"
  shows "input_of t = input_of s"
proof -
  have "input_of (coalesce_next b s) = input_of s" for b and s :: "'a kheap_scheme"
    by (simp add: coalesce_next_def clear_header_def Let_def input_simps)
  moreover have "input_of (snd (coalesce_prev b s)) = input_of s" for b and s :: "'a kheap_scheme"
    by (simp add: coalesce_prev_def clear_header_def Let_def input_simps)
  ultimately show ?thesis using assms by (auto simp: coalesce_def split: if_splits) (metis snd_conv)
qed

lemma input_kfree: "input_of (kfree p s) = input_of s"
  by (auto simp: kfree_def Let_def input_simps split: prod.split dest!: input_coalesce)

end
