(* ===== verification/Shell_Commands.thy ===== *)
theory Shell_Commands
  imports Shell_Run Kheap_Zone
begin

text \<open>
  The commands of the shell: the address check, what each command does to memory and to the
  heap, and that the commands return.
\<close>

section \<open>Parsing returns\<close>

definition ends :: "memory \<Rightarrow> addr \<Rightarrow> bool" where
  "ends m p \<longleftrightarrow> (\<exists>xs. cstr m p xs)"

lemma endsI [intro]: "cstr m p xs \<Longrightarrow> ends m p"
  by (auto simp: ends_def)

lemma ends_next: "ends m p \<Longrightarrow> m p \<noteq> 0 \<Longrightarrow> ends m (p + 1)"
proof -
  assume "ends m p" "m p \<noteq> 0"
  then obtain xs where "cstr m p xs" "m p \<noteq> 0" by (auto simp: ends_def)
  then show ?thesis by (cases xs) auto
qed

lemma digit_nonzero: "digit_of c = Some d \<Longrightarrow> c \<noteq> 0"
  by auto

lemma skip_space_total: "ends m p \<Longrightarrow> \<exists>q. skip_space m p = Some q \<and> ends m q"
proof -
  have "cstr m p xs \<Longrightarrow> \<exists>q. skip_space m p = Some q \<and> ends m q" for xs
  proof (induction xs arbitrary: p)
    case Nil
    then have "skip_space m p = Some p" by (subst skip_space.simps) (simp add: is_space_def)
    then show ?case using Nil endsI by blast
  next
    case (Cons x xs)
    show ?case
    proof (cases "is_space (m p)")
      case True
      then have "skip_space m p = skip_space m (p + 1)" by (subst skip_space.simps) simp
      then show ?thesis using Cons by simp
    next
      case False
      then have "skip_space m p = Some p" by (subst skip_space.simps) simp
      then show ?thesis using endsI [OF Cons.prems] by blast
    qed
  qed
  then show "ends m p \<Longrightarrow> ?thesis" by (auto simp: ends_def)
qed

lemma skip_digits_total: "ends m (p + 1) \<Longrightarrow> \<exists>e. skip_digits m p b = Some e"
proof -
  have "cstr m (p + 1) xs \<Longrightarrow> \<exists>e. skip_digits m p b = Some e" for xs
  proof (induction xs arbitrary: p)
    case (Cons x xs)
    then have "\<exists>e. skip_digits m (p + 1) b = Some e" by simp
    then show ?case by (subst skip_digits.simps) (simp split: option.split)
  qed (subst skip_digits.simps, simp)
  then show "ends m (p + 1) \<Longrightarrow> ?thesis" by (auto simp: ends_def)
qed

lemma strtoull_loop_total: "ends m p \<Longrightarrow> \<exists>v e. strtoull_loop m p b r = Some (v, e)"
proof -
  have "cstr m p xs \<Longrightarrow> \<exists>v e. strtoull_loop m p b r = Some (v, e)" for xs
  proof (induction xs arbitrary: p r)
    case (Cons x xs)
    then have IH: "\<exists>v e. strtoull_loop m (p + 1) b r' = Some (v, e)" for r' by simp
    obtain e where "skip_digits m p b = Some e" using skip_digits_total [of m p b] Cons.prems by auto
    then show ?case using IH by (subst strtoull_loop.simps) (auto split: option.split)
  qed (subst strtoull_loop.simps, simp)
  then show "ends m p \<Longrightarrow> ?thesis" by (auto simp: ends_def)
qed

lemma strtoull_total: "ends m p \<Longrightarrow> \<exists>v e. simple_strtoull m p base = Some (v, e)"
proof -
  assume "ends m p"
  then obtain q where q: "skip_space m p = Some q" "ends m q" using skip_space_total by blast
  have s: "ends m (skip_sign m q)" using q(2) ends_next [of m q] by (auto simp: skip_sign_def)
  have b: "ends m (snd (find_base m r base))" if "ends m r" for r
  proof -
    have "ends m (r + 2)" if "m r = 48" "m (r + 1) = 120 \<or> m (r + 1) = 88"
    proof -
      have "ends m (r + 1)" using ends_next [OF \<open>ends m r\<close>] that by simp
      from ends_next [OF this] that show ?thesis by (auto simp: add.assoc)
    qed
    then show ?thesis using that by (auto simp: find_base_def)
  qed
  show ?thesis
    using q(1) strtoull_loop_total [OF b [OF s]] by (auto simp: simple_strtoull_def split: prod.splits)
qed

lemma strlen_total: "ends m p \<Longrightarrow> \<exists>n. strlen m p = Some n"
  using strlen_cstr by (auto simp: ends_def)

lemma kprintf_s_total: "ends (mem s) p \<Longrightarrow> \<exists>g as. kprintf_s f p s = Some (kprintf g as s)"
  using kprintf_s_cstr by (fastforce simp: ends_def)

section \<open>The address check\<close>

lemma valid_no_wrap:
  assumes "0 < len" and "unat addr + unat len \<le> 2 ^ 64"
  shows "is_address_valid addr len s \<longleftrightarrow>
    (\<forall>y \<in> region addr (unat len). PMM_RAM_BASE \<le> y \<and> y < highest_usable_address s)"
proof -
  have l: "0 < unat len" using assms(1) by (simp add: unat_gt_0)
  have e: "unat (addr + len - 1) = unat addr + unat len - 1"
  proof -
    have "unat (len - 1) = unat len - 1" using l by (metis not_gr_zero unat_0 unat_minus_one)
    moreover from this have "unat (addr + (len - 1)) = unat addr + unat (len - 1)"
      using assms(2) l by (intro unat_add_no_wrap) simp
    moreover have e: "addr + len - 1 = addr + (len - 1)" by simp
    ultimately show ?thesis unfolding e using l by linarith
  qed
  have v: "is_address_valid addr len s \<longleftrightarrow> PMM_RAM_BASE \<le> addr \<and> addr + len - 1 < highest_usable_address s"
  proof -
    have "addr \<le> addr + len - 1" unfolding word_le_nat_alt e using l by simp
    then show ?thesis
      using assms(1) by (auto simp: is_address_valid_def pmm_get_highest_usable_address_def Let_def not_le not_less)
  qed
  have m: "addr \<in> region addr (unat len)" "addr + len - 1 \<in> region addr (unat len)"
    unfolding in_region_nat [OF assms(2)] e using l by auto
  have "addr \<le> y \<and> y \<le> addr + len - 1" if "y \<in> region addr (unat len)" for y
    using that unfolding in_region_nat [OF assms(2)] word_le_nat_alt e by auto
  then show ?thesis unfolding v using m by (meson order_trans order_le_less_trans)
qed

lemma valid_wrap:
  assumes "PMM_RAM_BASE \<le> addr" and "addr < highest_usable_address s" and "2 ^ 64 < unat addr + unat len"
  shows "is_address_valid addr len s \<and> highest_usable_address s \<in> region addr (unat len)"
proof -
  have l: "unat len < 2 ^ 64" by (rule unat_lt64)
  have "unat (addr + len) = unat addr + unat len - 2 ^ 64"
    using assms(3) l unat_lt64 [of addr] by (simp add: unat_word_ariths mod_if)
  moreover from this have "unat (addr + len - 1) = unat addr + unat len - 2 ^ 64 - 1"
    using assms(3) unat_minus_one [of "addr + len"] by (metis diff_is_0_eq not_less unat_0)
  ultimately have "addr + len - 1 < addr" unfolding word_less_nat_alt using l assms(3) by linarith
  then have "is_address_valid addr len s"
    using assms(1,2) by (auto simp: is_address_valid_def pmm_get_highest_usable_address_def Let_def not_le)
  moreover have "unat (highest_usable_address s - addr) < unat len"
    using assms(2,3) unat_lt64 [of "highest_usable_address s"] by (simp add: unat_diff_wrap word_less_nat_alt)
  ultimately show ?thesis by (simp add: region_def)
qed

text \<open>
  C27. The address check accepts a range exactly when it starts in RAM and either all of it
  lies between the start of RAM and the highest usable address or its end wraps around
  \<open>2 ^ 64\<close>: the overflow test is inside the branch that has already rejected. Then the range
  leaves RAM, and it is accepted all the same.
\<close>

theorem is_address_valid_correct:
  "(is_address_valid addr len s \<longleftrightarrow> PMM_RAM_BASE \<le> addr \<and> addr < highest_usable_address s
     \<and> ((\<forall>y \<in> region addr (unat len). PMM_RAM_BASE \<le> y \<and> y < highest_usable_address s)
        \<or> 2 ^ 64 < unat addr + unat len))
   \<and> (is_address_valid addr len s \<and> 2 ^ 64 < unat addr + unat len \<longrightarrow>
        highest_usable_address s \<in> region addr (unat len))"
proof -
  have start: "PMM_RAM_BASE \<le> addr \<and> addr < highest_usable_address s" if "is_address_valid addr len s"
    using that by (auto simp: is_address_valid_def pmm_get_highest_usable_address_def Let_def split: if_splits)
  consider "len = 0" | "0 < len" "unat addr + unat len \<le> 2 ^ 64" | "2 ^ 64 < unat addr + unat len"
    by (metis not_le word_neq_0_conv)
  then show ?thesis
  proof cases
    case 1
    have "\<not> 2 ^ 64 < unat addr + unat len" using unat_lt64 [of addr] 1 by simp
    then show ?thesis using 1 by (auto simp: is_address_valid_def pmm_get_highest_usable_address_def Let_def not_le)
  next
    case 2
    then show ?thesis using valid_no_wrap [OF 2] start by auto
  next
    case 3
    then show ?thesis using start valid_wrap [of addr s len] by blast
  qed
qed

theorem is_address_valid_correct_witness:
  "is_address_valid 0x40000000 0xffffffffffffffff (reset_pmm\<lparr>highest_usable_address := 0x80000000\<rparr>)
   \<and> \<not> is_address_valid 0x7ffffffc 8 (reset_pmm\<lparr>highest_usable_address := 0x80000000\<rparr>)"
proof -
  have "(0x80000000 :: addr) \<in> region 0x7ffffffc (unat (8 :: u64))" by (simp add: region_def)
  then show ?thesis
    using is_address_valid_correct [of "0x40000000" "0xffffffffffffffff" "reset_pmm\<lparr>highest_usable_address := 0x80000000\<rparr>"]
      is_address_valid_correct [of "0x7ffffffc" 8 "reset_pmm\<lparr>highest_usable_address := 0x80000000\<rparr>"] by auto
qed

section \<open>Commands that only print\<close>

definition quiet :: "'a machine_scheme \<Rightarrow> 'a machine_scheme \<Rightarrow> bool" where
  "quiet s t \<longleftrightarrow> (\<exists>u. t = s\<lparr>uart := u\<rparr>) \<and> rx_bytes (uart t) = rx_bytes (uart s)"

lemma quiet_refl [simp]: "quiet s s"
  unfolding quiet_def by (rule conjI, rule exI [of _ "uart s"]) simp_all

lemma quiet_kprintf [simp, intro]: "quiet s t \<Longrightarrow> quiet s (kprintf f as t)"
  unfolding quiet_def kprintf_rx by (elim conjE exE, rule conjI) (auto simp: kprintf_def)

lemma quiet_trans: "quiet s t \<Longrightarrow> quiet t u \<Longrightarrow> quiet s u"
  by (auto simp: quiet_def)

lemma quiet_input: "quiet s t \<Longrightarrow> rx_bytes (uart t) = rx_bytes (uart s)"
  by (simp add: quiet_def)

lemma quiet_mem: "quiet s t \<Longrightarrow> mem t = mem s"
  by (auto simp: quiet_def)

lemma quiet_kprintf_s: "ends (mem s) p \<Longrightarrow> \<exists>t. kprintf_s f p s = Some t \<and> quiet s t"
  using kprintf_s_total [of s p f] by auto

lemma quiet_warn [simp]: "quiet s (warn_unaligned a n s)"
  by (simp add: warn_unaligned_def)

lemma warn_mem [simp]: "mem (warn_unaligned a n s) = mem s"
  by (simp add: warn_unaligned_def)

lemma quiet_help: "quiet s (cmd_help s)"
  unfolding cmd_help_def by (simp only: fold.simps comp_apply id_apply quiet_kprintf quiet_refl)

lemma quiet_pmm_info: "quiet s (cmd_pmm_info s)"
  by (simp add: cmd_pmm_info_def Let_def)

lemma quiet_dump_hex: "quiet s (dump_hex js p i n s)"
proof (induction js arbitrary: s)
  case (Cons j js)
  show ?case unfolding dump_hex.simps Let_def by (rule quiet_trans [OF _ Cons.IH]) simp
qed simp

lemma quiet_dump_chars: "quiet s (dump_chars js p i n s)"
proof (induction js arbitrary: s)
  case (Cons j js)
  show ?case unfolding dump_chars.simps Let_def by (rule quiet_trans [OF _ Cons.IH]) simp
qed simp

lemma quiet_dump_row: "quiet s (dump_row a i n s)"
  unfolding dump_row_def Let_def
  by (intro quiet_kprintf quiet_trans [OF _ quiet_dump_chars] quiet_trans [OF _ quiet_dump_hex]) simp

lemma dump_loop_total:
  assumes "unat n + 16 \<le> 2 ^ 64"
  shows "\<exists>t. dump_loop a i n s = Some t \<and> quiet s t"
proof (induction "unat n - unat i" arbitrary: i s rule: less_induct)
  case less
  show ?case
  proof (cases "i < n")
    case True
    then have i: "unat i < unat n" by (simp add: word_less_nat_alt)
    then have "unat (i + 16) = unat i + 16" using assms by (simp add: unat_add_no_wrap)
    then obtain t where "dump_loop a (i + 16) n (dump_row a i n s) = Some t" "quiet (dump_row a i n s) t"
      using less [of "i + 16" "dump_row a i n s"] i by fastforce
    then show ?thesis
      using True quiet_trans [OF quiet_dump_row] by (subst dump_loop.simps) auto
  qed (subst dump_loop.simps, simp)
qed

definition args_ok :: "'a machine_scheme \<Rightarrow> addr list \<Rightarrow> bool" where
  "args_ok s argv \<longleftrightarrow> (\<forall>a \<in> set argv. ends (mem s) a)"

lemma args_okD: "args_ok s argv \<Longrightarrow> i < length argv \<Longrightarrow> ends (mem s) (argv ! i)"
  by (simp add: args_ok_def)

lemma size_char_total:
  assumes "args_ok s argv"
  shows "\<exists>c b. size_char_of (length argv) argv n s = Some (c, b) \<and> (\<not> b \<longrightarrow> n < length argv)"
  using strlen_total [OF args_okD [OF assms]] by (fastforce simp: size_char_of_def)

lemma peek_total:
  assumes "args_ok s argv"
  shows "\<exists>t. cmd_peek (length argv) argv s = Some t \<and> quiet s t"
proof (cases "length argv < 2")
  case False
  then have e: "ends (mem s) (argv ! 1)" using args_okD [OF assms, of 1] by simp
  obtain addr p where p: "simple_strtoull (mem s) (argv ! 1) 0 = Some (addr, p)" using strtoull_total [OF e] by blast
  obtain c b where c: "size_char_of (length argv) argv 2 s = Some (c, b)" "\<not> b \<longrightarrow> 2 < length argv"
    using size_char_total [OF assms] by blast
  have e2: "\<exists>t. kprintf_s f (argv ! 2) s = Some t \<and> quiet s t" if "\<not> b" for f
    using quiet_kprintf_s args_okD [OF assms, of 2] c(2) that by blast
  show ?thesis
    using False p c(1) quiet_kprintf_s [OF e] e2
    by (auto simp: cmd_peek_def Let_def split: option.split)
qed (simp add: cmd_peek_def)

lemma memdump_total:
  assumes "args_ok s argv"
    and "\<forall>v e. 2 < length argv \<longrightarrow> simple_strtoull (mem s) (argv ! 2) 0 = Some (v, e) \<longrightarrow> unat v + 16 \<le> 2 ^ 64"
  shows "\<exists>t. cmd_memdump (length argv) argv s = Some t \<and> quiet s t"
proof (cases "length argv < 2")
  case False
  then have e: "ends (mem s) (argv ! 1)" using args_okD [OF assms(1), of 1] by simp
  obtain addr p where p: "simple_strtoull (mem s) (argv ! 1) 0 = Some (addr, p)" using strtoull_total [OF e] by blast
  obtain n q where q: "(if length argv > 2 then simple_strtoull (mem s) (argv ! 2) 0 else Some (256, p)) = Some (n, q)"
      "unat n + 16 \<le> 2 ^ 64"
    using strtoull_total [of "mem s" "argv ! 2" 0] args_okD [OF assms(1), of 2] assms(2) by (cases "length argv > 2") auto
  have e2: "\<exists>t. kprintf_s f (argv ! 2) s = Some t \<and> quiet s t" if "length argv > 2" for f
    using quiet_kprintf_s args_okD [OF assms(1), of 2] that by blast
  have d: "\<exists>t. dump_loop addr 0 n (kprintf f as s) = Some t \<and> quiet s t" for f as
    using dump_loop_total [OF q(2), of addr 0 "kprintf f as s"] quiet_trans [OF quiet_kprintf [OF quiet_refl]] by blast
  show ?thesis
    using False p q(1) quiet_kprintf_s [OF e] e2 d by (auto simp: cmd_memdump_def)
qed (simp add: cmd_memdump_def)

section \<open>Poke\<close>

definition poked :: "addr \<Rightarrow> 'a pmm_scheme \<Rightarrow> 'a pmm_scheme \<Rightarrow> bool" where
  "poked addr s t \<longleftrightarrow> (\<exists>n v u. n \<in> {1, 2, 4, 8} \<and> is_address_valid addr (of_nat n) s
     \<and> t = s\<lparr>uart := u, mem := store (mem s) addr n v\<rparr> \<and> rx_bytes u = rx_bytes (uart s))"

lemma size_bytes_range: "size_bytes_of c = Some n \<Longrightarrow> n \<in> {1, 2, 4, 8}"
  by (auto simp: size_bytes_of_def split: if_splits)

lemma pokedI:
  assumes "quiet s s2" and "n \<in> {1, 2, 4, 8}" and "is_address_valid addr (of_nat n) s"
  shows "poked addr s (s2\<lparr>mem := store (mem s2) addr n v\<rparr>)"
proof -
  obtain u where u: "s2 = s\<lparr>uart := u\<rparr>" "rx_bytes u = rx_bytes (uart s)" using assms(1) by (auto simp: quiet_def)
  show ?thesis
    unfolding poked_def by (intro exI [of _ n] exI [of _ v] exI [of _ u]) (use assms(2,3) u in simp)
qed

lemma poke_total:
  fixes s :: "'a shell_scheme"
  assumes "args_ok s argv"
  shows "\<exists>t. cmd_poke (length argv) argv s = Some t
    \<and> (quiet s t \<or> (\<exists>addr e. 2 < length argv \<and> simple_strtoull (mem s) (argv ! 1) 0 = Some (addr, e) \<and> poked addr s t))"
proof (cases "length argv < 3")
  case False
  then have e: "ends (mem s) (argv ! 1)" "ends (mem s) (argv ! 2)"
    using args_okD [OF assms, of 1] args_okD [OF assms, of 2] by simp_all
  obtain addr p where p: "simple_strtoull (mem s) (argv ! 1) 0 = Some (addr, p)" using strtoull_total [OF e(1)] by blast
  obtain v q where q: "simple_strtoull (mem s) (argv ! 2) 0 = Some (v, q)" using strtoull_total [OF e(2)] by blast
  obtain c b where c: "size_char_of (length argv) argv 3 s = Some (c, b)" "\<not> b \<longrightarrow> 3 < length argv"
    using size_char_total [OF assms] by blast
  have k: "\<exists>t. kprintf_s f a s = Some t \<and> (quiet s t \<or> poked addr s t)" if "ends (mem s) a" for f a
    using quiet_kprintf_s [OF that] by blast
  have e3: "ends (mem s) (argv ! 3)" if "\<not> b" using args_okD [OF assms, of 3] c(2) that by blast
  have w: "poked addr s (kprintf f as (warn_unaligned addr n s)\<lparr>mem := store (mem (kprintf f as (warn_unaligned addr n s))) addr n v\<rparr>)"
    if "size_bytes_of c = Some n" "is_address_valid addr (of_nat n) s" for n f as
    using that size_bytes_range by (intro pokedI) auto
  have "\<exists>t. cmd_poke (length argv) argv s = Some t \<and> (quiet s t \<or> poked addr s t)"
    using False p q c(1) k [OF e(1)] k [OF e(2)] k [OF e3] w
    by (auto simp: cmd_poke_def Let_def split: option.split simp del: store.simps)
  then show ?thesis using False p by auto
qed (simp add: cmd_poke_def)

text \<open>
  C25. \<open>poke\<close> with any C strings as arguments returns. It either changes nothing but the
  console, or it writes one, two, four or eight bytes, all between the start of RAM and the
  highest usable address.
\<close>

theorem poke_within_ram:
  fixes s :: "'a shell_scheme"
  assumes "args_ok s argv" and "unat (highest_usable_address s) + 8 \<le> 2 ^ 64"
  shows "\<exists>t. cmd_poke (length argv) argv s = Some t
    \<and> (\<forall>y. mem t y \<noteq> mem s y \<longrightarrow> PMM_RAM_BASE \<le> y \<and> y < highest_usable_address s)
    \<and> highest_usable_address t = highest_usable_address s \<and> free_list_head t = free_list_head s
    \<and> strtok_last t = strtok_last s"
proof -
  obtain t where t: "cmd_poke (length argv) argv s = Some t" "quiet s t \<or> (\<exists>addr. poked addr s t)"
    using poke_total [OF assms(1)] by blast
  from t(2) show ?thesis
  proof
    assume "quiet s t"
    then show ?thesis using t(1) by (intro exI [of _ t]) (auto simp: quiet_def)
  next
    assume "\<exists>addr. poked addr s t"
    then obtain addr n v u where p: "n \<in> {1, 2, 4, 8}" "is_address_valid addr (of_nat n) s"
        "t = s\<lparr>uart := u, mem := store (mem s) addr n v\<rparr>" unfolding poked_def by (elim exE conjE) (rule that)
    have n: "unat (of_nat n :: u64) = n" "0 < (of_nat n :: u64)" "n \<le> 8" using p(1) by auto
    have hi: "addr < highest_usable_address s" "PMM_RAM_BASE \<le> addr"
      using p(2) by (auto simp: is_address_valid_def pmm_get_highest_usable_address_def Let_def split: if_splits)
    then have nw: "unat addr + n \<le> 2 ^ 64" using assms(2) n(3) by (simp add: word_less_nat_alt)
    have "addr + of_nat n - 1 < highest_usable_address s"
      using p(2) n(2) by (auto simp: is_address_valid_def pmm_get_highest_usable_address_def Let_def split: if_splits)
    moreover have "unat (addr + (of_nat n - 1)) = unat addr + (n - 1)"
      using p(1) nw by (subst unat_add_no_wrap) auto
    moreover have "addr + of_nat n - 1 = addr + (of_nat n - 1)" by simp
    ultimately have up: "unat addr + (n - 1) < unat (highest_usable_address s)"
      by (simp only: word_less_nat_alt)
    have "PMM_RAM_BASE \<le> y \<and> y < highest_usable_address s" if y: "mem t y \<noteq> mem s y" for y
    proof -
      have "y \<in> region addr n" using store_outside [of y addr n "mem s" v] y p(3) n(3) by auto
      then have "unat addr \<le> unat y" "unat y < unat addr + n" unfolding in_region_nat [OF nw] by auto
      then show ?thesis using hi up p(1) by (auto simp: word_le_nat_alt word_less_nat_alt)
    qed
    then show ?thesis using t(1) p(3) by (intro exI [of _ t]) auto
  qed
qed

text \<open>A poke and a peek with hexadecimal arguments.\<close>

lemma hex_argument:
  assumes "cstr m a (48 # 120 # string_bytes (hex_digits b v []))"
  shows "simple_strtoull m a 0 = Some (v, a + of_nat (2 + length (hex_digits b v [])))"
    and "m (a + of_nat (2 + length (hex_digits b v []))) = 0"
  using printed_hex [OF assms, of 0] cstr_end [OF assms] by (simp_all add: string_bytes_def)

lemma size_argument:
  assumes "cstr (mem s) (argv ! n) [c]" and "n < argc"
  shows "size_char_of argc argv n s = Some (c, True)"
  using assms strlen_cstr [OF assms(1)] by (simp add: size_char_of_def)

text \<open>
  C26. Round trip of \<open>poke\<close> and \<open>peek\<close>: after a poke of a value at a valid address, given in
  hexadecimal and with a size letter, a peek with the same address and letter prints the
  value cut to that size, provided the write does not hit the argument strings; memory
  outside the bytes written is unchanged.
\<close>

theorem poke_peek_roundtrip:
  fixes s :: "'a shell_scheme" and addr v :: u64
  assumes "cstr (mem s) a1 (48 # 120 # string_bytes (hex_digits b addr []))"
    and "cstr (mem s) a2 (48 # 120 # string_bytes (hex_digits b v []))"
    and "cstr (mem s) a3 [c]" and "size_bytes_of c = Some n" and "is_address_valid addr (of_nat n) s"
    and "region a1 19 \<inter> region addr n = {}" and "region a3 2 \<inter> region addr n = {}"
  shows "\<exists>t fmt. cmd_poke 4 [a0, a1, a2, a3] s = Some t
    \<and> cmd_peek 3 [a0, a1, a3] t =
        Some (kprintf fmt [VWord (take_bit (8 * n) v)]
               (kprintf ''Peek at 0x%llx (size %zu): '' [VWord addr, VWord (of_nat n)] (warn_unaligned addr n t)))
    \<and> fmt \<in> {''0x%02llx\<newline>'', ''0x%04llx\<newline>'', ''0x%08llx\<newline>'', ''0x%016llx\<newline>''}
    \<and> (\<forall>y. y \<notin> region addr n \<longrightarrow> mem t y = mem s y)"
proof -
  let ?s2 = "kprintf ''Poke at 0x%llx (size %zu) with value 0x%llx\<newline>''
    [VWord addr, VWord (of_nat n), VWord v] (warn_unaligned addr n s)"
  define t where "t = ?s2\<lparr>mem := store (mem ?s2) addr n v\<rparr>"
  have n: "n \<le> 8" using size_bytes_range [OF assms(4)] by auto
  have q: "quiet s ?s2" by simp
  have poke: "cmd_poke 4 [a0, a1, a2, a3] s = Some t"
    using hex_argument [OF assms(1)] hex_argument [OF assms(2)] size_argument [of s "[a0, a1, a2, a3]" 3 c 4] assms(3-5)
    by (simp add: cmd_poke_def t_def Let_def del: store.simps cstr.simps)
  have mt: "mem t = store (mem s) addr n v" using quiet_mem [OF q] by (simp add: t_def)
  have out: "mem t y = mem s y" if "y \<notin> region addr n" for y
    using that n by (simp add: mt store_outside)
  have "length (48 # 120 # string_bytes (hex_digits b addr [])) \<le> 18"
    using length_hex_digits [of b addr] by (simp add: string_bytes_def)
  then have "region a1 (Suc (length (48 # 120 # string_bytes (hex_digits b addr [])))) \<subseteq> region a1 19"
    by (intro region_mono) simp
  then have "cstr (mem t) a1 (48 # 120 # string_bytes (hex_digits b addr []))
      = cstr (mem s) a1 (48 # 120 # string_bytes (hex_digits b addr []))"
    using assms(6) out length_hex_digits [of b addr] by (intro cstr_cong) (auto simp: string_bytes_def)
  with assms(1) have c1: "cstr (mem t) a1 (48 # 120 # string_bytes (hex_digits b addr []))" by blast
  have "Suc (length [c]) = 2" by simp
  then have "cstr (mem t) a3 [c] = cstr (mem s) a3 [c]"
    using assms(7) out by (intro cstr_cong) (simp only:, blast, simp)
  with assms(3) have c3: "cstr (mem t) a3 [c]" by blast
  have "highest_usable_address t = highest_usable_address s" by (simp add: t_def warn_unaligned_def)
  then have vt: "is_address_valid addr (of_nat n) t"
    using assms(5) by (simp add: is_address_valid_def pmm_get_highest_usable_address_def)
  have ld: "load (mem t) addr n = take_bit (8 * n) v" unfolding mt using n by (rule load_store_same)
  define fmt where "fmt = (if n = 1 then ''0x%02llx\<newline>'' else if n = 2 then ''0x%04llx\<newline>''
    else if n = 4 then ''0x%08llx\<newline>'' else ''0x%016llx\<newline>'')"
  have "cmd_peek 3 [a0, a1, a3] t =
        Some (kprintf fmt [VWord (load (mem t) addr n)]
               (kprintf ''Peek at 0x%llx (size %zu): '' [VWord addr, VWord (of_nat n)] (warn_unaligned addr n t)))"
    using hex_argument [OF c1] size_argument [of t "[a0, a1, a3]" 2 c 3] c3 assms(4) vt
    by (simp add: cmd_peek_def Let_def fmt_def del: load.simps cstr.simps)
  moreover have "fmt \<in> {''0x%02llx\<newline>'', ''0x%04llx\<newline>'', ''0x%08llx\<newline>'', ''0x%016llx\<newline>''}"
    by (simp add: fmt_def)
  ultimately show ?thesis using poke out unfolding ld by (intro exI [of _ t] exI [of _ fmt] conjI allI impI)
qed

definition demo_shell :: shell where
  "demo_shell = \<lparr>mem = mem_of 0x40090000 (string_bytes ''poke'' @ [0] @ string_bytes ''0x40000010'' @ [0]
       @ string_bytes ''0xabcd'' @ [0] @ string_bytes ''h''), uart = idle_uart, frame_bitmap = 0x40097000,
     total_memory = 0, free_memory = 0, highest_usable_address = 0x80000000,
     free_list_head = 0, heap_start = 0, heap_end = 0, strtok_last = 0\<rparr>"

lemma demo_args:
  "cstr (mem demo_shell) 0x40090000 (string_bytes ''poke'')"
  "cstr (mem demo_shell) 0x40090005 (48 # 120 # string_bytes (hex_digits False 0x40000010 []))"
  "cstr (mem demo_shell) 0x40090010 (48 # 120 # string_bytes (hex_digits False 0xabcd []))"
  "cstr (mem demo_shell) 0x40090017 [104]"
proof -
  have h: "hex_digits False 0x40000010 [] = ''40000010''" "hex_digits False 0xabcd [] = ''abcd''" by code_simp+
  show "cstr (mem demo_shell) 0x40090000 (string_bytes ''poke'')"
    "cstr (mem demo_shell) 0x40090005 (48 # 120 # string_bytes (hex_digits False 0x40000010 []))"
    "cstr (mem demo_shell) 0x40090010 (48 # 120 # string_bytes (hex_digits False 0xabcd []))"
    "cstr (mem demo_shell) 0x40090017 [104]"
    unfolding h by (simp_all add: demo_shell_def string_bytes_def mem_of_def)
qed

theorem poke_within_ram_witness:
  "\<exists>t. cmd_poke 4 [0x40090000, 0x40090005, 0x40090010, 0x40090017] demo_shell = Some t
     \<and> highest_usable_address t = 0x80000000"
proof -
  let ?a = "[0x40090000, 0x40090005, 0x40090010, 0x40090017] :: addr list"
  have a: "args_ok demo_shell ?a" using demo_args [THEN endsI] by (simp add: args_ok_def)
  have h: "unat (highest_usable_address demo_shell) + 8 \<le> 2 ^ 64" by (simp add: demo_shell_def)
  have l: "length ?a = 4" by simp
  from poke_within_ram [OF a h, unfolded l] show ?thesis
    by (elim exE conjE) (intro exI conjI, assumption, simp add: demo_shell_def)
qed

theorem poke_peek_roundtrip_witness:
  "\<exists>t fmt. cmd_poke 4 [0x40090000, 0x40090005, 0x40090010, 0x40090017] demo_shell = Some t
     \<and> cmd_peek 3 [0x40090000, 0x40090005, 0x40090017] t =
        Some (kprintf fmt [VWord 0xabcd]
               (kprintf ''Peek at 0x%llx (size %zu): '' [VWord 0x40000010, VWord 2] (warn_unaligned 0x40000010 2 t)))"
proof -
  have n: "size_bytes_of 104 = Some 2" by (simp add: size_bytes_of_def)
  have v: "is_address_valid 0x40000010 (of_nat 2) demo_shell"
    by (simp add: is_address_valid_def pmm_get_highest_usable_address_def demo_shell_def)
  have r: "region 0x40090005 19 \<inter> region 0x40000010 2 = {}" "region 0x40090017 2 \<inter> region 0x40000010 2 = {}"
    by (rule disjoint_regions_inter; simp add: disjoint_regions_def)+
  have "take_bit (8 * 2) (0xabcd :: u64) = 0xabcd" by simp
  then show ?thesis using poke_peek_roundtrip [OF demo_args(2-4) n v r, of "0x40090000"] by auto
qed

section \<open>Alloc and free\<close>

lemma decimal_argument:
  assumes "cstr m a x" and "x \<noteq> []" and "valid_digits 10 x"
  shows "\<exists>e. simple_strtoull m a 0 = Some (saturate (digits_value 10 (digit_vals x)), e) \<and> m e = 0"
  using decimal_value [of m a "[]" "[]" x "[]" 0] assms cstr_end [OF assms(1)] by (auto simp: stops_def)

lemma free_live:
  fixes s :: "'a shell_scheme"
  assumes "kheap_inv s" and "live s p = Some m" and "cstr (mem s) a (48 # 120 # string_bytes (hex_digits b p []))"
  shows "\<exists>t. cmd_free 2 [a0, a] s = Some t \<and> kheap_inv t \<and> live t = (live s)(p := None)
    \<and> (\<forall>q n. live t q = Some n \<longrightarrow> (\<forall>y \<in> region q n. mem t y = mem s y))"
proof -
  let ?s = "kprintf ''Freeing memory at 0x%p\<newline>'' [VWord p] s"
  have c: "cmd_free 2 [a0, a] s = Some (kfree p ?s)"
    using hex_argument [OF assms(3)] by (simp add: cmd_free_def)
  have "kheap_inv ?s" "live ?s p = Some m" using assms(1,2) live_kprintf [OF assms(1)] by simp_all
  note F = kfree_contract [OF this]
  show ?thesis
    unfolding c using F(1-3) live_kprintf [OF assms(1)] by (intro exI [of _ "kfree p ?s"]) auto
qed

text \<open>
  C22. \<open>alloc\<close> of a decimal number of up to 4048 bytes adds exactly one block, of at least
  that size, to the allocated ones; \<open>free\<close> of its address, typed in hexadecimal at any later
  place in memory, removes exactly this block again, and no other allocated block changes
  in size or contents.
\<close>

theorem alloc_free_commands:
  fixes s :: "'a shell_scheme"
  assumes "kheap_inv s" and "cstr (mem s) a1 x" and "x \<noteq> []" and "valid_digits 10 x"
    and "k = saturate (digits_value 10 (digit_vals x))" and "k \<noteq> 0" and "k \<le> 4048" and "room (kmalloc_pages k) s"
  shows "\<exists>p t m. cmd_alloc 2 [a0, a1] s = Some t \<and> kheap_inv t \<and> unat k \<le> m
    \<and> live s p = None \<and> live t = (live s)(p \<mapsto> m)
    \<and> (\<forall>a2 b. cstr (mem t) a2 (48 # 120 # string_bytes (hex_digits b p [])) \<longrightarrow>
         (\<exists>u. cmd_free 2 [a0, a2] t = Some u \<and> kheap_inv u \<and> live u = live s
            \<and> (\<forall>q n. live s q = Some n \<longrightarrow> (\<forall>y \<in> region q n. mem u y = mem s y))))"
proof -
  obtain e where e: "simple_strtoull (mem s) a1 0 = Some (k, e)" "mem s e = 0"
    using decimal_argument [OF assms(2-4)] assms(5) by auto
  have al: "align8 k \<le> 4048" "unat k \<le> unat (align8 k)"
    using align8_bounds(1,3) [of k] assms(7) by (auto simp: word_le_nat_alt)
  have r: "room (kmalloc_pages k + 0) s" using assms(8) by simp
  obtain p t where t: "kmalloc k s = Some (p, t)" "kheap_inv t" "align8 k \<le> 4048 \<longrightarrow> p \<noteq> 0"
      "p \<noteq> 0 \<longrightarrow> live s p = None \<and> (\<exists>m. unat (align8 k) \<le> m \<and> live t = (live s)(p \<mapsto> m))"
      "\<forall>q m. live s q = Some m \<longrightarrow> (\<forall>y \<in> region q m. mem t y = mem s y)"
    using kmalloc_zone [OF assms(1,6) r] by (elim exE conjE) (rule that)
  then obtain m where p: "p \<noteq> 0" "live s p = None" and m: "unat (align8 k) \<le> m" "live t = (live s)(p \<mapsto> m)"
    using al(1) by blast
  let ?t = "kprintf ''Allocated %zu bytes at 0x%p\<newline>'' [VWord k, VWord p] t"
  have lt: "kheap_inv ?t" "live ?t = (live s)(p \<mapsto> m)" using t(2) m(2) live_kprintf [OF t(2)] by simp_all
  have "\<exists>u. cmd_free 2 [a0, a2] ?t = Some u \<and> kheap_inv u \<and> live u = live s
      \<and> (\<forall>q n. live s q = Some n \<longrightarrow> (\<forall>y \<in> region q n. mem u y = mem s y))"
    if c: "cstr (mem ?t) a2 (48 # 120 # string_bytes (hex_digits b p []))" for a2 b
  proof -
    have "live ?t p = Some m" using lt(2) by simp
    from free_live [OF lt(1) this c, of a0] obtain u where u: "cmd_free 2 [a0, a2] ?t = Some u" "kheap_inv u"
        "live u = (live ?t)(p := None)" "\<forall>q n. live u q = Some n \<longrightarrow> (\<forall>y \<in> region q n. mem u y = mem ?t y)"
      by blast
    have l: "live u = live s" unfolding u(3) lt(2) using p(2) by (auto simp: fun_upd_idem)
    then show ?thesis using u(1,2,4) t(5) by (intro exI [of _ u]) simp
  qed
  moreover have "cmd_alloc 2 [a0, a1] s = Some ?t" using e assms(6) t(1) p(1) by (simp add: cmd_alloc_def)
  ultimately show ?thesis using lt p(2) m(1) al(2) by (intro exI [of _ p] exI [of _ ?t] exI [of _ m]) auto
qed

end
