(* ===== verification/Shell_Ready.thy ===== *)
theory Shell_Ready
  imports Shell_Commands
begin

text \<open>
  The state of the system between two lines of the shell, and an iteration of the loop up to
  the command: the system call, the line editor and the splitting of the line.
\<close>

section \<open>The system call at the top of the loop\<close>

lemma svc_effect:
  fixes s :: "'a machine_scheme"
  assumes "\<forall>c. cpu_sp (body c) = cpu_sp c"
  shows "\<exists>c1 t. svc body c s = Some (c1, t) \<and> cpu_elr_el1 c1 = cpu_elr_el1 c + 4 \<and> (\<forall>i < 31. cpu_x c1 i = cpu_x c i)
    \<and> only_mem (region (cpu_sp c - 288) 288) s t \<and> rx_bytes (uart t) = rx_bytes (uart s)"
proof -
  let ?c = "c\<lparr>cpu_esr_el1 := 0x56000000\<rparr>"
  have "resumes Sync (cpu_esr_el1 ?c)" by (simp add: resumes_def esr_ec_def)
  from exception_returns [OF _ this assms, of Current_SPx s] obtain c' t where
      x: "exception_entry body Current_SPx Sync ?c s = Returned (c', t)" "\<forall>i < 31. cpu_x c' i = cpu_x c i"
      "cpu_elr_el1 c' = cpu_elr_el1 c + 4" "\<forall>x. x \<notin> region (cpu_sp c - 288) 288 \<longrightarrow> mem t x = mem s x"
    by (auto simp: elr_step_def)
  obtain c1 m1 where sv: "save_context ?c (mem s) = (c1, m1)" by fastforce
  have ec: "esr_ec (cpu_esr_el1 c1) = 0x15" unfolding save_context_words(5) [OF sv] by (simp add: esr_ec_def)
  obtain f g as bs v where "call_handler Sync c1 (s\<lparr>mem := m1\<rparr>)
      = Returned (set_ctx_elr (cpu_x c1 0) v (kprintf f as (kprintf g bs (s\<lparr>mem := m1\<rparr>))))"
    using ec by (simp add: handle_sync_exception_def Let_def handle_syscall_def split: prod.split)
  then have t: "t = set_ctx_elr (cpu_x c1 0) v (kprintf f as (kprintf g bs (s\<lparr>mem := m1\<rparr>)))"
    using x(1) sv by (simp add: exception_entry_eq take_exception_def)
  have "only_mem (region (cpu_sp c - 288) 288) s t"
    using x(4) by (intro only_memI [where m = "mem t" and u = "uart t"]) (simp_all add: t set_ctx_elr_def kprintf_def)
  moreover have "rx_bytes (uart t) = rx_bytes (uart s)" by (simp add: t set_ctx_elr_def)
  ultimately show ?thesis using x by (intro exI [of _ c'] exI [of _ t]) (simp add: svc_def)
qed

text \<open>A string without \<open>%\<close> is printed.\<close>

lemma plain_conversions: "CHR ''%'' \<notin> set f \<Longrightarrow> conversions f = []"
  by (induction f) auto

lemma kprintf_at_plain:
  assumes "cstr (mem s) a xs" and "37 \<notin> set xs"
  shows "kprintf_at a s = Some (kprintf (text_of xs) [] s)"
proof -
  have "char_of (unat x) \<noteq> CHR ''%''" if "x \<noteq> 37" for x :: byte
  proof
    assume "char_of (unat x) = CHR ''%''"
    then have "of_char (char_of (unat x) :: char) = (of_char (CHR ''%'') :: nat)" by simp
    moreover have "unat x < 256" using unsigned_less [of x] by simp
    ultimately have "unat x = unat (37 :: byte)" by simp
    then show False using that by (simp only: word_unat_eq_iff [symmetric])
  qed
  then have "CHR ''%'' \<notin> set (text_of xs)" using assms(2) by (force simp: text_of_def)
  then have "conversions (text_of xs) = []" by (rule plain_conversions)
  then obtain buf where "kprintf_buf (text_of xs) [] = Inr buf"
    using kprintf_loop_safe [of "text_of xs" "[]" "[]"] by (auto simp: kprintf_buf_def PRINTF_BUFFER_SIZE_def)
  then show ?thesis by (simp add: kprintf_at_def cstring_cstr [OF assms(1)])
qed

text \<open>
  The processor at the \<open>svc\<close>: the stack pointer, and what becomes of its registers in the call
  of \<open>kprintf\<close>, whose first instruction the return skips, is one of the known strings.
\<close>

definition at_svc :: "shell_env \<Rightarrow> addr \<Rightarrow> cpu \<Rightarrow> bool" where
  "at_svc env sp c \<longleftrightarrow> cpu_sp c = sp \<and> env_partial env (map (cpu_x c) [0..<31]) \<in> fst ` set (env_formats env)"

section \<open>The state between two lines\<close>

text \<open>The stack below the loop: the frame of the exception and the line buffer.\<close>

definition stack_bytes :: "shell_env \<Rightarrow> addr \<Rightarrow> addr set" where
  "stack_bytes env sp = region (sp - 288) 288 \<union> region (env_cmd_buffer env) 128"

definition ready :: "shell_env \<Rightarrow> addr \<Rightarrow> nat \<Rightarrow> 'a kheap_scheme \<Rightarrow> bool" where
  "ready env sp r s \<longleftrightarrow> kheap_inv s \<and> room r s \<and> shell_ok env (mem s)
     \<and> (stack_bytes env sp \<union> literal_bytes env) \<inter> heap_zone s = {}
     \<and> region (sp - 288) 288 \<inter> literal_bytes env = {}"

text \<open>The same blocks, with the same contents.\<close>

definition same_blocks :: "'a kheap_scheme \<Rightarrow> 'a kheap_scheme \<Rightarrow> bool" where
  "same_blocks s t \<longleftrightarrow> live t = live s \<and> (\<forall>q m. live s q = Some m \<longrightarrow> (\<forall>y \<in> region q m. mem t y = mem s y))"

lemma same_blocks_refl [simp]: "same_blocks s s"
  by (simp add: same_blocks_def)

lemma same_blocks_trans: "same_blocks s t \<Longrightarrow> same_blocks t u \<Longrightarrow> same_blocks s u"
  unfolding same_blocks_def by metis

lemma ready_frame:
  assumes "ready env sp r s" and "touches (stack_bytes env sp) s t" and "same_heads s t"
  shows "ready env sp r t \<and> same_blocks s t"
proof -
  have s: "kheap_inv s" "room r s" "shell_ok env (mem s)" "(stack_bytes env sp \<union> literal_bytes env) \<inter> heap_zone s = {}"
      "region (sp - 288) 288 \<inter> literal_bytes env = {}" using assms(1) by (auto simp: ready_def)
  have "stack_bytes env sp \<inter> heap_zone s = {}" using s(4) by blast
  note F = kheap_frame [OF s(1) assms(2,3) this]
  have "y \<notin> stack_bytes env sp" if "y \<in> literal_bytes env" for y
    using that s(5) literal_not_buffer [OF s(3) that] by (auto simp: stack_bytes_def)
  then have "shell_ok env (mem t)" using assms(2) by (intro shell_ok_cong [OF s(3)]) (simp add: touches_def)
  moreover have "room r t" using s(2) F(3,4) by (simp add: room_def)
  moreover have "same_blocks s t"
    using F(2) live_zone [OF s(1)] F(6) by (auto simp: same_blocks_def)
  ultimately show ?thesis using F(1,5) s(4,5) by (simp add: ready_def)
qed

lemma only_mem_touches:
  fixes s t :: "'a kheap_scheme"
  assumes "only_mem R s t"
  shows "touches R s t" and "same_heads s t"
  using assms by (auto simp: touches_def same_heads_def elim: only_memE)

lemma splits_touches:
  assumes "splits env s t"
  shows "touches (region (env_cmd_buffer env) 128) s t" and "same_heads s t" and "uart t = uart s"
  using assms unfolding splits_def by (auto simp: touches_def same_heads_def)

text \<open>The system call and the \<open>kprintf\<close> behind it.\<close>

lemma system_call:
  fixes s :: "'a shell_scheme"
  assumes R: "ready env sp r s" and sp: "at_svc env sp c" and B: "\<forall>c. cpu_sp (body c) = cpu_sp c"
  shows "\<exists>t. do { (c1, s1) \<leftarrow> svc body c s; fmt \<leftarrow> format_arg env c c1; kprintf_at fmt s1 } = Some t
    \<and> only_mem (region (sp - 288) 288) s t \<and> rx_bytes (uart t) = rx_bytes (uart s)"
proof -
  let ?F = "region (sp - 288) 288"
  obtain c1 s1 where c1: "svc body c s = Some (c1, s1)" "cpu_elr_el1 c1 = cpu_elr_el1 c + 4"
      "\<forall>i < 31. cpu_x c1 i = cpu_x c i" "only_mem ?F s s1" "rx_bytes (uart s1) = rx_bytes (uart s)"
    using svc_effect [OF B, of c s] sp by (auto simp: at_svc_def)
  have "map (cpu_x c1) [0..<31] = map (cpu_x c) [0..<31]" using c1(3) by (intro map_cong) auto
  then obtain a xs where a: "format_arg env c c1 = Some a" "(a, xs) \<in> set (env_formats env)"
    using c1(2) sp by (force simp: format_arg_def at_svc_def)
  have "ready env sp r s1"
    using ready_frame [OF R touches_mono [OF only_mem_touches(1) [OF c1(4)]] only_mem_touches(2) [OF c1(4)]]
    by (auto simp: stack_bytes_def)
  then have "cstr (mem s1) a xs" "37 \<notin> set xs" using a(2) by (auto simp: ready_def shell_ok_def literals_def)
  then have "kprintf_at a s1 = Some (kprintf (text_of xs) [] s1)" by (rule kprintf_at_plain)
  then show ?thesis
    using c1(1,4,5) a(1) by (intro exI [of _ "kprintf (text_of xs) [] s1"]) (simp add: only_mem_kprintf)
qed

text \<open>One line: up to its execution.\<close>

lemma shell_step_line:
  fixes s :: "'a shell_scheme"
  assumes R: "ready env sp r s" and sp: "at_svc env sp (regs_at s)" and B: "\<forall>c. cpu_sp (body c) = cpu_sp c"
    and e: "edit [] (rx_bytes (uart s)) = Some (l, rest)"
  shows "\<exists>argv t. shell_step body regs_at env s = dispatch (tokens {32} l) argv t
    \<and> length argv = min MAX_ARGS (length (tokens {32} l)) \<and> (\<forall>i < length argv. cstr (mem t) (argv ! i) (tokens {32} l ! i))
    \<and> rx_bytes (uart t) = rest \<and> ready env sp r t \<and> same_blocks s t"
proof -
  let ?b = "env_cmd_buffer env" and ?S = "stack_bytes env sp"
  obtain s1 where s1: "do { (c1, s1) \<leftarrow> svc body (regs_at s) s; fmt \<leftarrow> format_arg env (regs_at s) c1; kprintf_at fmt s1 } = Some s1"
      "only_mem (region (sp - 288) 288) s s1" "rx_bytes (uart s1) = rx_bytes (uart s)"
    using system_call [OF R sp B] by blast
  let ?s2 = "kprintf ''\<newline>> '' [] s1"
  let ?s3 = "?s2\<lparr>mem := memset (mem ?s2) ?b 0 (of_nat MAX_CMD_LEN)\<rparr>"
  have b: "region ?b 127 \<subseteq> ?S" "region ?b 128 \<subseteq> ?S" "region (sp - 288) 288 \<subseteq> ?S"
    using region_mono [of 127 128 ?b] by (auto simp: stack_bytes_def)
  have o2: "only_mem ?S s ?s2"
    by (intro only_mem_kprintf) (rule only_mem_seq [OF s1(2) _ b(3) b(3)], rule only_memI [where u = "uart s1"], auto)
  have "only_mem (region ?b 128) ?s2 ?s3" by (rule only_mem_mem) (simp add: memset_apply)
  then have o3: "only_mem ?S s ?s3" by (rule only_mem_seq [OF o2]) (auto simp: b)
  obtain s4 where s4: "read_line ?b 0 ?s3 = Some (length l, s4)" "rx_bytes (uart s4) = rest" "only_mem (region ?b 127) ?s3 s4"
      "cstr ((mem s4)(?b + of_nat (length l) := 0)) ?b l" "length l \<le> 127"
    by (rule read_line_line [of ?s3 l rest ?b]) (use e s1(3) in simp)
  let ?s5 = "s4\<lparr>mem := (mem s4)(?b + of_nat (length l) := 0)\<rparr>"
  have o4: "only_mem ?S s s4" by (rule only_mem_seq [OF o3 s4(3)]) (auto simp: b)
  have "?b + of_nat (length l) \<in> region ?b 128" using s4(5) by (simp add: region_def)
  then have "only_mem (region ?b 128) s4 ?s5" by (intro only_mem_mem) auto
  then have o5: "only_mem ?S s ?s5" by (rule only_mem_seq [OF o4]) (auto simp: b)
  have R5: "ready env sp r ?s5 \<and> same_blocks s ?s5" by (rule ready_frame [OF R only_mem_touches [OF o5]])
  have "shell_step body regs_at env s
      = do { s1 \<leftarrow> do { (c1, s1) \<leftarrow> svc body (regs_at s) s; fmt \<leftarrow> format_arg env (regs_at s) c1; kprintf_at fmt s1 };
             let s2 = kprintf ''\<newline>> '' [] s1;
             let s3 = s2\<lparr>mem := memset (mem s2) ?b 0 (of_nat MAX_CMD_LEN)\<rparr>;
             (i, s4) \<leftarrow> read_line ?b 0 s3;
             let s5 = s4\<lparr>mem := (mem s4)(?b + of_nat i := 0)\<rparr>;
             if i = 0 then Some (True, s5) else run_line env s5 }"
    by (simp add: shell_step_def Let_def split_def)
  then have step: "shell_step body regs_at env s = (if length l = 0 then Some (True, ?s5) else run_line env ?s5)"
    unfolding s1(1) using s4(1) by (simp add: Let_def)
  show ?thesis
  proof (cases "l = []")
    case True
    have "tokens {32} [] = []" by (simp add: tokens.simps)
    then show ?thesis
      using step True R5 s4(2) by (intro exI [of _ "[]"] exI [of _ ?s5]) (simp add: dispatch_def)
  next
    case False
    have ok: "shell_ok env (mem ?s5)" "cstr (mem ?s5) ?b l" using R5 s4(4) by (simp_all add: ready_def)
    obtain argv t where t: "run_line env ?s5 = dispatch (tokens {32} l) argv t"
        "length argv = min MAX_ARGS (length (tokens {32} l))"
        "\<forall>i < length argv. cstr (mem t) (argv ! i) (tokens {32} l ! i)" "splits env ?s5 t"
      by (rule run_line_dispatch [OF ok s4(5)])
    note T = splits_touches [OF t(4)]
    have "ready env sp r t \<and> same_blocks ?s5 t"
      by (rule ready_frame [OF _ touches_mono [OF T(1) b(2)] T(2)]) (use R5 in blast)
    moreover have "rx_bytes (uart t) = rest" using T(3) s4(2) by simp
    ultimately show ?thesis
      using step False t(1-3) R5 same_blocks_trans [of s ?s5 t] by (intro exI [of _ argv] exI [of _ t]) simp
  qed
qed

section \<open>Steps that keep the system ready\<close>

lemma quiet_touches:
  fixes s t :: "'a kheap_scheme"
  assumes "quiet s t"
  shows "touches R s t" and "same_heads s t"
  using assms by (auto simp: quiet_def touches_def same_heads_def)

lemma ready_quiet:
  fixes s t :: "'a kheap_scheme"
  assumes "ready env sp r s" and "quiet s t"
  shows "ready env sp r t \<and> same_blocks s t"
  using ready_frame [OF assms(1) quiet_touches [OF assms(2)]] .

lemma ready_room: "ready env sp (n + r) s \<Longrightarrow> ready env sp r s"
  by (auto simp: ready_def room_def)

text \<open>Steps inside the memory of the allocators.\<close>

lemma ready_zone:
  assumes "ready env sp n s" and "kheap_inv t" and "room r t" and "heap_zone t \<subseteq> heap_zone s"
    and "\<And>y. y \<notin> heap_zone s \<Longrightarrow> mem t y = mem s y"
  shows "ready env sp r t"
proof -
  have s: "(stack_bytes env sp \<union> literal_bytes env) \<inter> heap_zone s = {}" "shell_ok env (mem s)"
      "region (sp - 288) 288 \<inter> literal_bytes env = {}" using assms(1) by (simp_all add: ready_def)
  have "shell_ok env (mem t)" by (rule shell_ok_cong [OF s(2)]) (use s(1) assms(5) in blast)
  moreover have "(stack_bytes env sp \<union> literal_bytes env) \<inter> heap_zone t = {}" using s(1) assms(4) by blast
  ultimately show ?thesis unfolding ready_def using assms(2,3) s(3) by blast
qed

lemma kmalloc_ready:
  fixes s :: "'a kheap_scheme"
  assumes "ready env sp (kmalloc_pages k + r) s" and "k \<noteq> 0"
  shows "\<exists>p t. kmalloc k s = Some (p, t) \<and> ready env sp r t \<and> (align8 k \<le> 4048 \<longrightarrow> p \<noteq> 0) \<and> (p = 0 \<longrightarrow> live t = live s)
    \<and> (p \<noteq> 0 \<longrightarrow> live s p = None \<and> (\<exists>m. unat (align8 k) \<le> m \<and> live t = (live s)(p \<mapsto> m)))
    \<and> (\<forall>q m. live s q = Some m \<longrightarrow> (\<forall>y \<in> region q m. mem t y = mem s y))"
proof -
  have s: "kheap_inv s" "room (kmalloc_pages k + r) s" using assms(1) by (auto simp: ready_def)
  obtain p t where t: "kmalloc k s = Some (p, t)" "kheap_inv t" "room r t" "align8 k \<le> 4048 \<longrightarrow> p \<noteq> 0"
      "p = 0 \<longrightarrow> live t = live s" "p \<noteq> 0 \<longrightarrow> live s p = None \<and> (\<exists>m. unat (align8 k) \<le> m \<and> live t = (live s)(p \<mapsto> m))"
      "\<forall>q m. live s q = Some m \<longrightarrow> (\<forall>y \<in> region q m. mem t y = mem s y)"
      "heap_zone t \<subseteq> heap_zone s" "\<forall>y. y \<notin> heap_zone s \<longrightarrow> mem t y = mem s y"
    using kmalloc_zone [OF s(1) assms(2) s(2)] by (elim exE conjE) (rule that)
  have "ready env sp r t" by (rule ready_zone [OF assms(1) t(2,3,8)]) (use t(9) in blast)
  then show ?thesis using t(1,4-7) by blast
qed

lemma kfree_ready:
  fixes s :: "'a kheap_scheme"
  assumes "ready env sp r s" and "live s p = Some n"
  shows "ready env sp r (kfree p s)" and "live (kfree p s) = (live s)(p := None)"
    and "live (kfree p s) q = Some m \<Longrightarrow> y \<in> region q m \<Longrightarrow> mem (kfree p s) y = mem s y"
proof -
  have s: "kheap_inv s" "room r s" using assms(1) by (auto simp: ready_def)
  note F = kfree_contract [OF s(1) assms(2)] and Z = kfree_zone [OF s(1) assms(2)]
  have "room r (kfree p s)" using s(2) F(5,6) by (simp add: room_def)
  then show "ready env sp r (kfree p s)" using Z by (intro ready_zone [OF assms(1) F(1)]) auto
  show "live (kfree p s) = (live s)(p := None)" by (rule F(2))
  show "live (kfree p s) q = Some m \<Longrightarrow> y \<in> region q m \<Longrightarrow> mem (kfree p s) y = mem s y" by (rule F(3))
qed

lemma contents_ready:
  fixes s :: "'a kheap_scheme"
  assumes "ready env sp r s" and "live s p = Some n" and t: "touches (region p n) s t" "same_heads s t"
  shows "ready env sp r t" and "live t = live s"
proof -
  have s: "kheap_inv s" "room r s" using assms(1) by (auto simp: ready_def)
  note C = kheap_contents_frame [OF s(1) assms(2) t]
  have "room r t" using s(2) C(3,4) by (simp add: room_def)
  moreover have "mem t y = mem s y" if "y \<notin> heap_zone s" for y
    using that live_zone [OF s(1) assms(2)] t(1) by (auto simp: touches_def)
  ultimately show "ready env sp r t" using C(1,5) by (intro ready_zone [OF assms(1)]) auto
  show "live t = live s" by (rule C(2))
qed

end
