(* ===== verification/Shell_Session.thy ===== *)
theory Shell_Session
  imports Shell_Ready
begin

text \<open>
  What the shell does for its user: an abstract specification of the commands on the set of
  allocated blocks, the refinement of an iteration of the loop to it, and whole sessions up
  to the \<open>exit\<close> command.
\<close>

section \<open>Requests\<close>

text \<open>The value of a plain number: decimal digits, or hexadecimal ones behind \<open>0x\<close>.\<close>

definition number_of :: "byte list \<Rightarrow> u64 option" where
  "number_of xs =
     (if xs \<noteq> [] \<and> valid_digits 10 xs then Some (saturate (digits_value 10 (digit_vals xs)))
      else case xs of
             c # x # ys \<Rightarrow> if c = 48 \<and> (x = 120 \<or> x = 88) \<and> valid_digits 16 ys
                            then Some (saturate (digits_value 16 (digit_vals ys))) else None
           | _ \<Rightarrow> None)"

lemma number_argument:
  assumes "cstr m a xs" and "number_of xs = Some v"
  shows "\<exists>e. simple_strtoull m a 0 = Some (v, e) \<and> m e = 0"
proof (cases "xs \<noteq> [] \<and> valid_digits 10 xs")
  case True
  then show ?thesis using decimal_argument [OF assms(1)] assms(2) by (auto simp: number_of_def)
next
  case False
  then obtain x ys where xs: "xs = 48 # x # ys" "x = 120 \<or> x = 88" "valid_digits 16 ys"
      "v = saturate (digits_value 16 (digit_vals ys))"
    using assms(2) by (auto simp: number_of_def split: list.splits if_splits)
  have "cstr m a ([] @ [] @ 48 # x # ys @ [])" using assms(1) xs(1) by simp
  from hex_value [OF this _ _ xs(2,3), of 0] show ?thesis
    using cstr_end [OF assms(1)] xs by (auto simp: stops_def)
qed

text \<open>
  What a line asks for. \<open>Nothing\<close>: it only prints, errors and usage messages included.
  \<open>Outside\<close>: lines that the specification leaves out, a number in another notation and a dump
  whose length comes within 16 of \<open>2 ^ 64\<close>.
\<close>

datatype request = Nothing | Exit | Allocate u64 | Release addr | Write_At addr | Outside

fun request_of :: "byte list list \<Rightarrow> request" where
  "request_of [] = Nothing"
| "request_of (t # ts) =
     (if t = string_bytes ''exit'' then Exit
      else case command_of t of
             Some Cmd_Memdump \<Rightarrow>
               (case ts of
                  x # n # _ \<Rightarrow> (case number_of n of
                                 Some v \<Rightarrow> if unat v + 16 \<le> 2 ^ 64 then Nothing else Outside
                               | None \<Rightarrow> Outside)
                | _ \<Rightarrow> Nothing)
           | Some Cmd_Alloc \<Rightarrow>
               (case ts of
                  x # _ \<Rightarrow> (case number_of x of
                             Some k \<Rightarrow> if k = 0 then Nothing else Allocate k
                           | None \<Rightarrow> Outside)
                | [] \<Rightarrow> Nothing)
           | Some Cmd_Free \<Rightarrow>
               (case ts of
                  x # _ \<Rightarrow> (case number_of x of Some p \<Rightarrow> Release p | None \<Rightarrow> Outside)
                | [] \<Rightarrow> Nothing)
           | Some Cmd_Poke \<Rightarrow>
               (case ts of
                  x # _ # _ \<Rightarrow> (case number_of x of Some a \<Rightarrow> Write_At a | None \<Rightarrow> Outside)
                | _ \<Rightarrow> Nothing)
           | _ \<Rightarrow> Nothing)"

text \<open>
  The pages that serving a request may take, given the allocated blocks; \<open>None\<close> if the
  request is not legal: a release of an address that is not allocated, a write to memory
  that does not lie in one block, a size that wraps around when it is rounded up.
\<close>

definition cost :: "(addr \<rightharpoonup> nat) \<Rightarrow> request \<Rightarrow> nat option" where
  "cost L r =
     (case r of
        Nothing \<Rightarrow> Some 0
      | Exit \<Rightarrow> None
      | Allocate k \<Rightarrow> if unat k + 8 \<le> 2 ^ 64 then Some (kmalloc_pages k) else None
      | Release p \<Rightarrow> if p \<in> dom L then Some 0 else None
      | Write_At a \<Rightarrow> if \<exists>q m. L q = Some m \<and> region a 8 \<subseteq> region q m then Some 0 else None
      | Outside \<Rightarrow> None)"

text \<open>The specification: what a request does to the allocated blocks.\<close>

inductive user_step :: "request \<Rightarrow> (addr \<rightharpoonup> nat) \<Rightarrow> (addr \<rightharpoonup> nat) \<Rightarrow> bool" where
  idle: "user_step Nothing L L"
| allocated: "L p = None \<Longrightarrow> unat k \<le> m \<Longrightarrow> user_step (Allocate k) L (L(p \<mapsto> m))"
| refused: "4048 < align8 k \<Longrightarrow> user_step (Allocate k) L L"
| released: "p \<in> dom L \<Longrightarrow> user_step (Release p) L (L(p := None))"
| written: "user_step (Write_At a) L L"

inductive_simps user_step_simps [simp]:
  "user_step Nothing L L'" "user_step (Allocate k) L L'" "user_step (Release p) L L'" "user_step (Write_At a) L L'"
  "user_step Exit L L'" "user_step Outside L L'"

fun written_bytes :: "request \<Rightarrow> addr set" where
  "written_bytes (Write_At a) = region a 8"
| "written_bytes _ = {}"

text \<open>The specification on states: blocks, and the contents of those that remain.\<close>

definition served :: "request \<Rightarrow> 'a kheap_scheme \<Rightarrow> 'a kheap_scheme \<Rightarrow> bool" where
  "served r s t \<longleftrightarrow> user_step r (live s) (live t)
     \<and> (\<forall>q m y. live s q = Some m \<longrightarrow> live t q = Some m \<longrightarrow> y \<in> region q m \<longrightarrow> y \<notin> written_bytes r \<longrightarrow> mem t y = mem s y)"

lemma served_same:
  assumes "same_blocks s t" and "served r t u" and "same_blocks u v"
  shows "served r s v"
  using assms by (auto simp: served_def same_blocks_def)

lemma served_quiet:
  assumes "ready env sp n s" and "quiet s t"
  shows "served Nothing s t" and "ready env sp n t"
  using ready_quiet [OF assms] by (auto simp: served_def same_blocks_def)

section \<open>The commands serve the requests\<close>

text \<open>
  The state in which a command runs: the tokens of the line at the argument pointers.
\<close>

definition args_at :: "byte list list \<Rightarrow> addr list \<Rightarrow> 'a machine_scheme \<Rightarrow> bool" where
  "args_at ts argv s \<longleftrightarrow> length argv = min MAX_ARGS (length ts) \<and> (\<forall>i < length argv. cstr (mem s) (argv ! i) (ts ! i))"

lemma args_at_ok: "args_at ts argv s \<Longrightarrow> args_ok s argv"
  by (fastforce simp: args_at_def args_ok_def in_set_conv_nth ends_def)

lemma args_at_arg:
  assumes "args_at ts argv s" and "i < length ts" and "i < MAX_ARGS"
  shows "i < length argv" and "cstr (mem s) (argv ! i) (ts ! i)"
  using assms by (auto simp: args_at_def)

lemma args_at_short: "args_at ts argv s \<Longrightarrow> length ts \<le> i \<Longrightarrow> \<not> i < length argv"
  by (simp add: args_at_def)

text \<open>
  A command serves a request: it returns, keeps the system ready, consumes no input.
\<close>

definition serves ::
    "shell_env \<Rightarrow> addr \<Rightarrow> nat \<Rightarrow> request \<Rightarrow> 'a shell_scheme \<Rightarrow> 'a shell_scheme option \<Rightarrow> bool" where
  "serves env sp n r s c \<longleftrightarrow> (\<exists>t. c = Some t \<and> rx_bytes (uart t) = rx_bytes (uart s) \<and> ready env sp n t \<and> served r s t)"

lemma serves_quiet:
  fixes s t :: "'a shell_scheme"
  assumes "ready env sp n s" and "quiet s t"
  shows "serves env sp n Nothing s (Some t)"
  using served_quiet [OF assms] quiet_input [OF assms(2)] by (auto simp: serves_def)

lemma serves_kprintf:
  assumes "serves env sp n r s (Some t)"
  shows "serves env sp n r s (Some (kprintf f as t))"
proof -
  have t: "rx_bytes (uart t) = rx_bytes (uart s)" "ready env sp n t" "served r s t" using assms by (auto simp: serves_def)
  have "ready env sp n (kprintf f as t) \<and> same_blocks t (kprintf f as t)" by (rule ready_quiet [OF t(2)]) simp
  then show ?thesis using t served_same [OF same_blocks_refl t(3)] by (auto simp: serves_def)
qed

lemma alloc_serves:
  fixes s :: "'a shell_scheme"
  assumes R: "ready env sp (kmalloc_pages k + n) s" and a: "cstr (mem s) (argv ! 1) x" "number_of x = Some k"
    and k: "k \<noteq> 0" "unat k + 8 \<le> 2 ^ 64" and argc: "1 < argc"
  shows "serves env sp n (Allocate k) s (cmd_alloc argc argv s)"
proof -
  obtain e where e: "simple_strtoull (mem s) (argv ! 1) 0 = Some (k, e)" "mem s e = 0"
    using number_argument [OF a] by blast
  obtain p t where t: "kmalloc k s = Some (p, t)" "ready env sp n t" "align8 k \<le> 4048 \<longrightarrow> p \<noteq> 0"
      "p = 0 \<longrightarrow> live t = live s" "p \<noteq> 0 \<longrightarrow> live s p = None \<and> (\<exists>m. unat (align8 k) \<le> m \<and> live t = (live s)(p \<mapsto> m))"
      "\<forall>q m. live s q = Some m \<longrightarrow> (\<forall>y \<in> region q m. mem t y = mem s y)"
    using kmalloc_ready [OF R k(1)] by blast
  have al: "unat k \<le> unat (align8 k)" using align8_bounds(1) [of k] k(2) by (simp add: word_le_nat_alt)
  have "user_step (Allocate k) (live s) (live t)"
  proof (cases "p = 0")
    case True
    then show ?thesis using t(3,4) by (auto simp: not_le)
  next
    case False
    then obtain m where m: "live s p = None" "unat (align8 k) \<le> m" "live t = (live s)(p \<mapsto> m)" using t(5) by blast
    show ?thesis unfolding m(3) by (rule user_step.allocated) (use m al in auto)
  qed
  then have "serves env sp n (Allocate k) s (Some t)"
    using t(2,6) input_kmalloc [OF t(1)] by (auto simp: serves_def served_def)
  then have "serves env sp n (Allocate k) s (Some (kprintf f as t))" for f as by (rule serves_kprintf)
  then show ?thesis using e k(1) argc t(1) by (cases "p = 0") (simp_all add: cmd_alloc_def)
qed

lemma free_serves:
  fixes s :: "'a shell_scheme"
  assumes R: "ready env sp n s" and a: "cstr (mem s) (argv ! 1) x" "number_of x = Some p"
    and p: "p \<in> dom (live s)" and argc: "1 < argc"
  shows "serves env sp n (Release p) s (cmd_free argc argv s)"
proof -
  let ?s = "kprintf ''Freeing memory at 0x%p\<newline>'' [VWord p] s"
  obtain e where e: "simple_strtoull (mem s) (argv ! 1) 0 = Some (p, e)" "mem s e = 0"
    using number_argument [OF a] by blast
  then have c: "cmd_free argc argv s = Some (kfree p ?s)" using argc by (simp add: cmd_free_def)
  have q: "ready env sp n ?s" "same_blocks s ?s" using ready_quiet [OF R, of ?s] by simp_all
  then obtain m where m: "live ?s p = Some m" using p by (auto simp: same_blocks_def)
  note F = kfree_ready [OF q(1) m]
  have "served (Release p) ?s (kfree p ?s)" using F(2,3) m by (auto simp: served_def)
  then have "served (Release p) s (kfree p ?s)" using served_same [OF q(2) _ same_blocks_refl] by blast
  then show ?thesis using F(1) input_kfree [of p ?s] unfolding c by (simp add: serves_def)
qed

lemma poke_serves:
  fixes s :: "'a shell_scheme"
  assumes R: "ready env sp n s" and args: "args_ok s argv" and a: "cstr (mem s) (argv ! 1) x" "number_of x = Some b"
    and q: "live s q = Some m" "region b 8 \<subseteq> region q m"
  shows "serves env sp n (Write_At b) s (cmd_poke (length argv) argv s)"
proof -
  obtain e where e: "simple_strtoull (mem s) (argv ! 1) 0 = Some (b, e)" using number_argument [OF a] by blast
  obtain t where t: "cmd_poke (length argv) argv s = Some t" "quiet s t \<or> poked b s t"
    using poke_total [OF args] e by auto
  from t(2) show ?thesis
  proof
    assume w: "quiet s t"
    show ?thesis
      using ready_quiet [OF R w] quiet_input [OF w] t(1) by (auto simp: serves_def served_def same_blocks_def)
  next
    assume "poked b s t"
    then obtain k v u where p: "k \<in> {1, 2, 4, 8}" "t = s\<lparr>uart := u, mem := store (mem s) b k v\<rparr>"
        "rx_bytes u = rx_bytes (uart s)" unfolding poked_def by blast
    have out: "mem t y = mem s y" if "y \<notin> region b 8" for y
    proof -
      have "y \<notin> region b k" using that region_mono [of k 8 b] p(1) by auto
      then show ?thesis using p(1) by (auto simp: p(2) intro!: store_outside)
    qed
    then have "touches (region q m) s t" "same_heads s t" using q(2) by (auto simp: touches_def same_heads_def p(2))
    note C = contents_ready [OF R q(1) this]
    show ?thesis using C out p(3) t(1) by (auto simp: serves_def served_def p(2))
  qed
qed

text \<open>The lines that only print.\<close>

lemma dump_length:
  assumes A: "args_at (t # ts) argv s" and r: "request_of (t # ts) = Nothing" and c: "command_of t = Some Cmd_Memdump"
    and v: "2 < length argv" "simple_strtoull (mem s) (argv ! 2) 0 = Some (v, e)"
  shows "unat v + 16 \<le> 2 ^ 64"
proof -
  have "2 \<le> length ts" using v(1) A by (simp add: args_at_def)
  then obtain x y zs where ts: "ts = x # y # zs" by (cases ts; cases "tl ts") auto
  have "cstr (mem s) (argv ! 2) y" using args_at_arg(2) [OF A, of 2] ts by simp
  moreover obtain w where w: "number_of y = Some w" "unat w + 16 \<le> 2 ^ 64"
    using r c ts by (auto split: option.splits if_splits)
  ultimately show ?thesis using number_argument [of "mem s" "argv ! 2" y w] v(2) by auto
qed

lemma alloc_nothing:
  fixes s :: "'a shell_scheme"
  assumes R: "ready env sp n s" and A: "args_at (t # ts) argv s" and r: "request_of (t # ts) = Nothing"
    and c: "command_of t = Some Cmd_Alloc"
  shows "serves env sp n Nothing s (cmd_alloc (length argv) argv s)"
proof (cases ts)
  case Nil
  then have "length argv < 2" using A by (simp add: args_at_def)
  then show ?thesis using serves_quiet [OF R] by (simp add: cmd_alloc_def)
next
  case (Cons x xs)
  have x: "number_of x = Some 0" using r c Cons by (auto split: option.splits if_splits)
  have a: "1 < length argv" "cstr (mem s) (argv ! 1) x" using args_at_arg [OF A, of 1] Cons by simp_all
  obtain e where e: "simple_strtoull (mem s) (argv ! 1) 0 = Some (0, e)" using number_argument [OF a(2) x] by blast
  obtain u where "cmd_alloc (length argv) argv s = Some u" "quiet s u"
    using a(1) e quiet_kprintf_s [OF endsI [OF a(2)]] by (auto simp: cmd_alloc_def)
  then show ?thesis using serves_quiet [OF R] by simp
qed

lemma nothing_serves:
  fixes s :: "'a shell_scheme"
  assumes R: "ready env sp n s" and A: "args_at (t # ts) argv s" and r: "request_of (t # ts) = Nothing"
    and c: "command_of t = Some cmd"
  shows "serves env sp n Nothing s (run_command cmd (length argv) argv s)"
proof -
  note ok = args_at_ok [OF A]
  have ne: "t \<noteq> string_bytes ''exit''" using r by (auto split: if_splits)
  have qu: "serves env sp n Nothing s c" if "\<exists>u. c = Some u \<and> quiet s u" for c
    using that serves_quiet [OF R] by blast
  show ?thesis
  proof (cases cmd)
    case Cmd_Help
    then show ?thesis using serves_quiet [OF R quiet_help] by simp
  next
    case Cmd_Memdump
    then have "\<exists>u. cmd_memdump (length argv) argv s = Some u \<and> quiet s u"
      using c by (intro memdump_total [OF ok]) (auto dest: dump_length [OF A r])
    then show ?thesis using Cmd_Memdump qu by simp
  next
    case Cmd_Peek
    then show ?thesis using qu peek_total [OF ok] by simp
  next
    case Cmd_Poke
    have "length ts < 2"
      using r c ne Cmd_Poke by (cases ts; cases "tl ts") (auto split: option.splits)
    then have "length argv < 3" using A by (simp add: args_at_def)
    then show ?thesis using Cmd_Poke serves_quiet [OF R] by (simp add: cmd_poke_def)
  next
    case Cmd_Alloc
    then show ?thesis using alloc_nothing [OF R A r] c by simp
  next
    case Cmd_Free
    have "ts = []" using r c ne Cmd_Free by (cases ts) (auto split: option.splits)
    then have "length argv < 2" using A by (simp add: args_at_def)
    then show ?thesis using Cmd_Free serves_quiet [OF R] by (simp add: cmd_free_def)
  next
    case Cmd_Pmm_Info
    then show ?thesis using serves_quiet [OF R quiet_pmm_info] by simp
  qed
qed

text \<open>What a request other than to print or to leave says about the line.\<close>

lemma request_command:
  assumes "request_of ts = r" and "r \<noteq> Nothing" and "r \<noteq> Exit" and "r \<noteq> Outside"
  obtains t x xs where "ts = t # x # xs" and "t \<noteq> string_bytes ''exit''"
    and "\<And>k. r = Allocate k \<Longrightarrow> command_of t = Some Cmd_Alloc \<and> number_of x = Some k \<and> k \<noteq> 0"
    and "\<And>p. r = Release p \<Longrightarrow> command_of t = Some Cmd_Free \<and> number_of x = Some p"
    and "\<And>a. r = Write_At a \<Longrightarrow> command_of t = Some Cmd_Poke \<and> number_of x = Some a"
proof -
  obtain t ts' where t: "ts = t # ts'" using assms(1,2) by (cases ts) auto
  have ne: "t \<noteq> string_bytes ''exit''" using assms(1,3) t by auto
  obtain x xs where x: "ts' = x # xs"
    using assms t ne by (cases ts') (auto split: option.splits command.splits)
  show thesis
    by (rule that [of t x xs])
      (use assms t ne x in \<open>auto split: option.splits command.splits list.splits if_splits\<close>)
qed

lemma dispatch_command:
  assumes "t \<noteq> string_bytes ''exit''" and "command_of t = Some cmd"
  shows "dispatch (t # ts) argv s = map_option (Pair True) (run_command cmd (length argv) argv s)"
  using assms by (simp add: dispatch_def)

lemma dispatched:
  assumes "serves env sp n r s (run_command cmd (length argv) argv s)" and "request_of ts = r" and "ts = t # ts'"
    and "t \<noteq> string_bytes ''exit''" and "command_of t = Some cmd"
  shows "\<exists>t. dispatch ts argv s = Some (True, t) \<and> rx_bytes (uart t) = rx_bytes (uart s)
    \<and> ready env sp n t \<and> served (request_of ts) s t"
proof -
  have "dispatch ts argv s = map_option (Pair True) (run_command cmd (length argv) argv s)"
    unfolding assms(3) by (rule dispatch_command [OF assms(4,5)])
  then show ?thesis using assms(1) unfolding assms(2) by (auto simp: serves_def)
qed

lemma dispatch_nothing:
  fixes s :: "'a shell_scheme"
  assumes R: "ready env sp n s" and A: "args_at ts argv s" and r: "request_of ts = Nothing"
  shows "\<exists>t. dispatch ts argv s = Some (True, t) \<and> rx_bytes (uart t) = rx_bytes (uart s)
    \<and> ready env sp n t \<and> served (request_of ts) s t"
proof (cases ts)
  case Nil
  then show ?thesis using R by (simp add: dispatch_def served_def)
next
  case (Cons t ts')
  have ne: "t \<noteq> string_bytes ''exit''" using r Cons by (auto split: if_splits)
  show ?thesis
  proof (cases "command_of t")
    case None
    have "serves env sp n Nothing s (Some (kprintf ''Unknown command: %s\<newline>'' [VStr (Some (text_of t))] s))"
      by (rule serves_quiet [OF R]) simp
    then show ?thesis using Cons ne None r by (simp add: dispatch_def serves_def)
  next
    case (Some cmd)
    have "args_at (t # ts') argv s" "request_of (t # ts') = Nothing" using A r unfolding Cons by blast+
    from nothing_serves [OF R this Some] show ?thesis by (rule dispatched [OF _ r Cons ne Some])
  qed
qed

lemma dispatch_serves:
  fixes s :: "'a shell_scheme"
  assumes R: "ready env sp (k + n) s" and A: "args_at ts argv s" and c: "cost (live s) (request_of ts) = Some k"
  shows "\<exists>t. dispatch ts argv s = Some (True, t) \<and> rx_bytes (uart t) = rx_bytes (uart s)
    \<and> ready env sp n t \<and> served (request_of ts) s t"
proof -
  have R0: "ready env sp n s" by (rule ready_room [OF R])
  show ?thesis
  proof (cases "request_of ts")
    case Nothing
    then show ?thesis by (rule dispatch_nothing [OF R0 A])
  next
    case (Allocate k')
    obtain t x xs where t: "ts = t # x # xs" "t \<noteq> string_bytes ''exit''"
        "command_of t = Some Cmd_Alloc" "number_of x = Some k'" "k' \<noteq> 0"
      by (rule request_command [OF Allocate]) auto
    have a: "1 < length argv" "cstr (mem s) (argv ! 1) x" using args_at_arg [OF A, of 1] t(1) by simp_all
    have k: "k = kmalloc_pages k'" "unat k' + 8 \<le> 2 ^ 64" using c Allocate by (auto simp: cost_def split: if_splits)
    have "serves env sp n (Allocate k') s (cmd_alloc (length argv) argv s)"
      by (rule alloc_serves [OF R [unfolded k(1)] a(2) t(4,5) k(2) a(1)])
    then show ?thesis by (intro dispatched [OF _ Allocate t(1-3)]) simp
  next
    case (Release p)
    obtain t x xs where t: "ts = t # x # xs" "t \<noteq> string_bytes ''exit''"
        "command_of t = Some Cmd_Free" "number_of x = Some p"
      by (rule request_command [OF Release]) auto
    have a: "1 < length argv" "cstr (mem s) (argv ! 1) x" using args_at_arg [OF A, of 1] t(1) by simp_all
    have "p \<in> dom (live s)" using c Release by (auto simp: cost_def split: if_splits)
    from free_serves [OF R0 a(2) t(4) this a(1)] show ?thesis by (intro dispatched [OF _ Release t(1-3)]) simp
  next
    case (Write_At b)
    obtain t x xs where t: "ts = t # x # xs" "t \<noteq> string_bytes ''exit''"
        "command_of t = Some Cmd_Poke" "number_of x = Some b"
      by (rule request_command [OF Write_At]) auto
    have a: "cstr (mem s) (argv ! 1) x" using args_at_arg [OF A, of 1] t(1) by simp
    obtain q m where q: "live s q = Some m" "region b 8 \<subseteq> region q m"
      using c Write_At by (auto simp: cost_def split: if_splits)
    from poke_serves [OF R0 args_at_ok [OF A] a t(4) q] show ?thesis by (intro dispatched [OF _ Write_At t(1-3)]) simp
  qed (use c in \<open>simp_all add: cost_def\<close>)
qed

section \<open>Sessions\<close>

text \<open>One iteration of the loop serves the line it reads.\<close>

lemma shell_step_serves:
  fixes s :: "'a shell_scheme"
  assumes R: "ready env sp (k + n) s" and sp: "at_svc env sp (regs_at s)" and B: "\<forall>c. cpu_sp (body c) = cpu_sp c"
    and e: "edit [] (rx_bytes (uart s)) = Some (l, rest)"
    and c: "cost (live s) (request_of (tokens {32} l)) = Some k"
  shows "\<exists>t. shell_step body regs_at env s = Some (True, t) \<and> rx_bytes (uart t) = rest
    \<and> ready env sp n t \<and> served (request_of (tokens {32} l)) s t"
proof -
  obtain argv t where t: "shell_step body regs_at env s = dispatch (tokens {32} l) argv t"
      "args_at (tokens {32} l) argv t" "rx_bytes (uart t) = rest" "ready env sp (k + n) t" "same_blocks s t"
    using shell_step_line [where regs_at = regs_at and body = body, OF R sp B e] by (auto simp: args_at_def)
  have c': "cost (live t) (request_of (tokens {32} l)) = Some k" using t(5) c by (simp add: same_blocks_def)
  obtain u where "dispatch (tokens {32} l) argv t = Some (True, u)" "rx_bytes (uart u) = rx_bytes (uart t)"
      "ready env sp n u" "served (request_of (tokens {32} l)) t u"
    using dispatch_serves [OF t(4,2) c'] by blast
  then show ?thesis using t(1,3) served_same [OF t(5) _ same_blocks_refl] by auto
qed

lemma request_exit: "request_of ts = Exit \<longleftrightarrow> ts \<noteq> [] \<and> hd ts = string_bytes ''exit''"
  by (cases ts) (auto split: option.splits command.splits list.splits if_splits)

lemma shell_step_exit:
  fixes s :: "'a shell_scheme"
  assumes R: "ready env sp n s" and sp: "at_svc env sp (regs_at s)" and B: "\<forall>c. cpu_sp (body c) = cpu_sp c"
    and e: "edit [] (rx_bytes (uart s)) = Some (l, rest)"
    and x: "request_of (tokens {32} l) = Exit"
  shows "\<exists>t. shell_step body regs_at env s = Some (False, t) \<and> rx_bytes (uart t) = rest
    \<and> ready env sp n t \<and> same_blocks s t"
proof -
  obtain argv t where t: "shell_step body regs_at env s = dispatch (tokens {32} l) argv t"
      "rx_bytes (uart t) = rest" "ready env sp n t" "same_blocks s t"
    using shell_step_line [where regs_at = regs_at and body = body, OF R sp B e] by blast
  let ?t = "kprintf ''Exiting shell.\<newline>'' [] t"
  have "ready env sp n ?t \<and> same_blocks t ?t" by (rule ready_quiet [OF t(3)]) simp
  then show ?thesis using t x same_blocks_trans [OF t(4)] by (intro exI [of _ ?t]) (simp add: dispatch_def request_exit)
qed

text \<open>
  The input that waits in a state is a session that takes at most \<open>n\<close> pages: every line is
  legal in the state in which the loop reads it, whatever the earlier lines led to, and the
  last one is \<open>exit\<close>. \<open>rest\<close> is the input behind it.
\<close>

inductive session ::
    "(cpu \<Rightarrow> cpu) \<Rightarrow> ('a shell_scheme \<Rightarrow> cpu) \<Rightarrow> shell_env \<Rightarrow> byte list \<Rightarrow> nat \<Rightarrow> 'a shell_scheme \<Rightarrow> bool"
  for body regs_at env rest where
  leave: "edit [] (rx_bytes (uart s)) = Some (l, rest) \<Longrightarrow> request_of (tokens {32} l) = Exit \<Longrightarrow>
    session body regs_at env rest n s"
| line: "edit [] (rx_bytes (uart s)) = Some (l, r) \<Longrightarrow> cost (live s) (request_of (tokens {32} l)) = Some k \<Longrightarrow>
    (\<And>t. shell_step body regs_at env s = Some (True, t) \<Longrightarrow> session body regs_at env rest n t) \<Longrightarrow>
    session body regs_at env rest (k + n) s"

lemma shell_session:
  fixes s :: "'a shell_scheme"
  assumes "session body regs_at env rest n s" and "ready env sp n s"
    and sp: "\<forall>u. at_svc env sp (regs_at u)" and B: "\<forall>c. cpu_sp (body c) = cpu_sp c"
  shows "\<exists>t. shell_iterate body regs_at env s = Some t \<and> rx_bytes (uart t) = rest \<and> kheap_inv t"
  using assms(1,2)
proof (induction rule: session.induct)
  case (leave s l n)
  obtain t where "shell_step body regs_at env s = Some (False, t)" "rx_bytes (uart t) = rest" "ready env sp n t"
    using shell_step_exit [where regs_at = regs_at and body = body, OF leave.prems spec [OF sp] B leave.hyps] by blast
  then show ?case by (subst shell_iterate.simps) (auto simp: ready_def)
next
  case (line s l r k n)
  obtain t where t: "shell_step body regs_at env s = Some (True, t)" "ready env sp n t"
    using shell_step_serves [where regs_at = regs_at and body = body, OF line.prems spec [OF sp] B line.hyps(1,2)] by blast
  obtain u where "shell_iterate body regs_at env t = Some u" "rx_bytes (uart u) = rest" "kheap_inv u"
    using line.IH [OF t] by blast
  then show ?case using t(1) by (subst shell_iterate.simps) auto
qed

section \<open>Sessions that are typed ahead\<close>

text \<open>Lines that are legal whatever is allocated.\<close>

definition typed :: "byte list list \<Rightarrow> byte list \<Rightarrow> byte list" where
  "typed ls rest = concat (map (\<lambda>l. l @ [13]) ls) @ string_bytes ''exit'' @ 13 # rest"

definition line_pages :: "byte list \<Rightarrow> nat option" where
  "line_pages l = cost Map.empty (request_of (tokens {32} l))"

definition session_pages :: "byte list list \<Rightarrow> nat" where
  "session_pages ls = sum_list (map (\<lambda>l. the (line_pages l)) ls)"

definition session_line :: "byte list \<Rightarrow> bool" where
  "session_line l \<longleftrightarrow> printable l \<and> length l < 127 \<and> line_pages l \<noteq> None"

lemma cost_anywhere: "cost Map.empty r = Some k \<Longrightarrow> cost L r = Some k"
  by (auto simp: cost_def split: request.splits)

lemma exit_tokens: "tokens {32} (string_bytes ''exit'') = [string_bytes ''exit'']"
  by (subst tokens.simps) (simp add: string_bytes_def tokens.simps)

lemma typed_session:
  fixes s :: "'a shell_scheme"
  assumes "ready env sp (session_pages ls) s" and "rx_bytes (uart s) = typed ls rest" and "\<forall>l \<in> set ls. session_line l"
    and sp: "\<forall>u. at_svc env sp (regs_at u)" and B: "\<forall>c. cpu_sp (body c) = cpu_sp c"
  shows "session body regs_at env rest (session_pages ls) s"
  using assms(1-3)
proof (induction ls arbitrary: s)
  case Nil
  show ?case
  proof (rule session.leave)
    show "edit [] (rx_bytes (uart s)) = Some (string_bytes ''exit'', rest)"
      using edit_line [of "string_bytes ''exit''" "[]" rest] Nil.prems(2)
      by (simp add: typed_def printable_def string_bytes_def)
  qed (simp add: exit_tokens)
next
  case (Cons l ls)
  have l: "printable l" "length l < 127" "line_pages l \<noteq> None" using Cons.prems(3) by (auto simp: session_line_def)
  then obtain k where k: "line_pages l = Some k" by blast
  have c: "cost (live s) (request_of (tokens {32} l)) = Some k"
    by (rule cost_anywhere [OF k [unfolded line_pages_def]])
  have e: "edit [] (rx_bytes (uart s)) = Some (l, typed ls rest)"
    using edit_line [of l "[]" "typed ls rest"] l Cons.prems(2) by (simp add: typed_def)
  have n: "session_pages (l # ls) = k + session_pages ls" using k by (simp add: session_pages_def)
  have R: "ready env sp (k + session_pages ls) s" using Cons.prems(1) n by simp
  show ?case
    unfolding n
  proof (rule session.line [OF e c])
    fix t assume t: "shell_step body regs_at env s = Some (True, t)"
    obtain u where "shell_step body regs_at env s = Some (True, u)" "rx_bytes (uart u) = typed ls rest"
        "ready env sp (session_pages ls) u"
      using shell_step_serves [where regs_at = regs_at and body = body, OF R spec [OF sp] B e c] by blast
    then have "rx_bytes (uart t) = typed ls rest" "ready env sp (session_pages ls) t" using t by simp_all
    then show "session body regs_at env rest (session_pages ls) t" using Cons.IH Cons.prems(3) by simp
  qed
qed

section \<open>Theorems\<close>

text \<open>
  C2. The shell refines its specification. In a state that is ready, with the room that the line
  asks for, one iteration of the loop on a legal line returns: it reads exactly this line,
  leaves the system ready, changes the set of allocated blocks as \<open>user_step\<close> says (\<open>alloc\<close> adds
  one new block of at least the size asked for, or fails for more than 4048 bytes; \<open>free\<close>
  removes the one named; nothing else changes it), and leaves the contents of the blocks that
  remain as they are, but for the bytes a \<open>poke\<close> names. The system call at the top of the loop
  and the \<open>kprintf\<close> behind it, which it enters one instruction late, are part of the iteration.
\<close>

theorem shell_refines:
  fixes s :: "'a shell_scheme"
  assumes "ready env sp (k + n) s" and "at_svc env sp (regs_at s)" and "\<forall>c. cpu_sp (body c) = cpu_sp c"
    and "edit [] (rx_bytes (uart s)) = Some (l, rest)"
    and "cost (live s) (request_of (tokens {32} l)) = Some k"
  shows "\<exists>t. shell_step body regs_at env s = Some (True, t) \<and> rx_bytes (uart t) = rest
    \<and> ready env sp n t \<and> served (request_of (tokens {32} l)) s t"
  using assms by (rule shell_step_serves)

text \<open>
  C11. Every session ends: if each line is legal when the loop reads it, whatever the lines
  before it led to, the pages they take are there and the last line is \<open>exit\<close>, the shell
  returns with the heap intact and without reading further.
\<close>

theorem session_returns:
  fixes s :: "'a shell_scheme"
  assumes "session body regs_at env rest n s" and "ready env sp n s"
    and "\<forall>u. at_svc env sp (regs_at u)" and "\<forall>c. cpu_sp (body c) = cpu_sp c"
  shows "\<exists>t. shell_iterate body regs_at env s = Some t \<and> rx_bytes (uart t) = rest \<and> kheap_inv t"
  using assms by (rule shell_session)

end
