(* ===== verification/Kernel_Boot.thy ===== *)
theory Kernel_Boot
  imports Kernel Shell_Session Frame_Alloc_Writes
begin

text \<open>
  From reset to the shell: what the initialisation of the memory managers leaves of the
  kernel image, and the state in which the shell starts.
\<close>

section \<open>The state in which the shell starts\<close>

text \<open>The kernel image without the bitmap: code, literals and the stack.\<close>

definition image_bytes :: "linker_syms \<Rightarrow> addr \<times> addr \<Rightarrow> addr set" where
  "image_bytes ls kb = {y. fst kb \<le> y \<and> y < snd kb} - region (sym_pmm_bitmap_start ls) 0x20000"

text \<open>Memory that the initialisation of the memory managers leaves alone; flash lies below the RAM.\<close>

definition kept_bytes :: "linker_syms \<Rightarrow> addr \<times> addr \<Rightarrow> addr set" where
  "kept_bytes ls kb = {y. y < PMM_RAM_BASE} \<union> image_bytes ls kb"

lemma below_ram:
  assumes "y < PMM_RAM_BASE" and "unat a + n \<le> 2 ^ 64" and "PMM_RAM_BASE \<le> a"
  shows "y \<notin> region a n"
  using assms by (auto simp: in_region_nat word_less_nat_alt word_le_nat_alt)

lemma image_frame:
  assumes "PMM_RAM_BASE \<le> ks" and "ks \<le> y" and "y < ke" and "y \<in> region (frame_addr i) 4096" and "i < PMM_TOTAL_FRAMES"
  shows "i \<in> frames_of ks ke"
proof -
  have i: "unat (frame_addr i) = 0x40000000 + i * 4096" by (rule unat_frame_addr [OF assms(5)])
  then have "unat (frame_addr i) + 4096 \<le> 2 ^ 64" using assms(5) by simp
  from assms(4) [unfolded in_region_nat [OF this]] i
  have y: "0x40000000 + i * 4096 \<le> unat y" "unat y < 0x40000000 + i * 4096 + 4096" by auto
  have k: "0x40000000 \<le> unat ks" "unat ks \<le> unat y" "unat y \<le> unat ke - 1"
    using assms(1-3) by (auto simp: word_le_nat_alt word_less_nat_alt)
  have "(unat ks - 0x40000000) div 4096 \<le> i" using k y by linarith
  moreover have "i \<le> (unat ke - 1 - 0x40000000) div 4096" using k y by linarith
  ultimately show ?thesis by (simp add: frames_of_def)
qed

lemma boot_ready:
  fixes s :: "'a shell_scheme" and f :: string and as :: "va_arg list"
  assumes lay: "layout_ok ls (ks, ke)" and kb: "kernel_bounds ls params = (ks, ke)"
    and bm: "frame_bitmap s = sym_pmm_bitmap_start ls" and low: "0x40000000 + 4096 * (5 + r) \<le> unat ks"
    and ok: "shell_ok env (mem s)" and img: "stack_bytes env sp \<union> literal_bytes env \<subseteq> kept_bytes ls (ks, ke)"
    and sep: "region (sp - 288) 288 \<inter> literal_bytes env = {}"
  defines "t \<equiv> kheap_init (kprintf f as (frame_alloc_init ls params s))"
  shows "ready env sp r t" and "live t = Map.empty" and "rx_bytes (uart t) = rx_bytes (uart s)"
    and "y \<in> kept_bytes ls (ks, ke) \<Longrightarrow> mem t y = mem s y"
proof -
  let ?i = "frame_alloc_init ls params s" and ?p = "kprintf f as (frame_alloc_init ls params s)"
  have l: "PMM_RAM_BASE \<le> ks" "unat (sym_pmm_bitmap_start ls) + 0x20000 = unat (sym_pmm_bitmap_end ls)"
    using lay by (simp_all add: layout_ok_def)
  have n: "unat (sym_pmm_bitmap_end ls - sym_pmm_bitmap_start ls) = 0x20000"
    using l(2) by (simp add: unat_diff_wrap)
  have ob: "only_bitmap 0x20000 s ?i" by (rule frame_alloc_init_frame [OF bm n])
  note A = frame_alloc_init_acct [OF lay kb bm]
  have ff: "free_frames ?p = {..<PMM_TOTAL_FRAMES} - frames_of ks ke" using A by simp
  have bp: "frame_bitmap ?p = sym_pmm_bitmap_start ls" using A bm by simp
  have pmm: "pmm_inv ?p"
    using A init_used_disjoint [OF lay, of ?i] bm by (auto simp: pmm_inv_def init_acct_def)
  have jf: "{0..<5 + r} \<subseteq> free_frames ?p"
  proof -
    have "(5 + r) * 4096 \<le> unat ks - 0x40000000" using low by linarith
    then have "5 + r \<le> (unat ks - 0x40000000) div 4096" by (simp add: less_eq_div_iff_mult_less_eq)
    moreover have "(unat ks - 0x40000000) div 4096 < PMM_TOTAL_FRAMES"
      using lay by (auto simp: layout_ok_def word_le_nat_alt)
    ultimately show ?thesis unfolding ff by (auto simp: frames_of_def)
  qed
  have j5: "{0..<0 + 5} \<subseteq> free_frames ?p" "\<forall>i \<in> free_frames ?p. 0 \<le> i" using jf by auto
  note K = kheap_init_kinv [OF pmm j5, folded t_def]
  have inv: "kheap_inv t" using K(1) by (auto simp: kheap_inv_def)
  show "live t = Map.empty" by (rule ext) (simp add: kinv_abs(5) [OF K(1)])
  show rx: "rx_bytes (uart t) = rx_bytes (uart s)"
    using ob input_expand_heap [of "PAGE_SIZE * 4" "?p\<lparr>free_list_head := 0, heap_start := 0, heap_end := 0\<rparr>"]
    by (simp add: t_def kheap_init_def Let_def only_bitmap_def)
  have fr: "frontier t = 5" using kinv_abs(2) [OF K(1)] by simp
  have room: "room r t" unfolding room_def fr K(6) using jf by auto
  have "bitmap_bytes ?p = region (sym_pmm_bitmap_start ls) (PMM_TOTAL_FRAMES div 8)"
    unfolding bitmap_bytes_def bp by (rule refl)
  then have bt: "bitmap_bytes t \<subseteq> region (sym_pmm_bitmap_start ls) 0x20000"
    using K(7) region_mono [of "0x8000" "0x20000" "sym_pmm_bitmap_start ls"] by simp
  have bmr: "y \<notin> region (sym_pmm_bitmap_start ls) 0x20000" if "y \<in> kept_bytes ls (ks, ke)" for y
  proof -
    have "unat (sym_pmm_bitmap_start ls) + 0x20000 \<le> 2 ^ 64" "PMM_RAM_BASE \<le> sym_pmm_bitmap_start ls"
      using l unat_lt64 [of "sym_pmm_bitmap_end ls"] lay by (auto simp: layout_ok_def)
    then show ?thesis using that below_ram by (auto simp: kept_bytes_def image_bytes_def)
  qed
  have notin: "y \<notin> heap_zone t" if y: "y \<in> kept_bytes ls (ks, ke)" for y
  proof -
    consider "y < PMM_RAM_BASE" | "ks \<le> y" "y < ke" using y by (auto simp: kept_bytes_def image_bytes_def)
    then have "y \<notin> region (frame_addr i) 4096" if "i \<in> free_frames t" for i
    proof cases
      case 1
      have i: "i < PMM_TOTAL_FRAMES" using that K(6) ff by auto
      then show ?thesis
        using unat_frame_addr [OF i] by (intro below_ram [OF 1]) (simp_all add: word_le_nat_alt)
    next
      case 2
      then show ?thesis using image_frame [OF l(1) 2, of i] that K(6) ff by auto
    qed
    moreover have "y \<notin> heap_range t"
      using low y unfolding kinv_abs(4) [OF K(1)]
      by (auto simp: span_def word_le_nat_alt word_less_nat_alt kept_bytes_def image_bytes_def)
    ultimately show ?thesis using bmr [OF y] bt by (auto simp: heap_zone_def)
  qed
  show same: "mem t y = mem s y" if y: "y \<in> kept_bytes ls (ks, ke)" for y
  proof -
    have "y \<notin> region (sym_pmm_bitmap_start ls) 0x20000" "y \<notin> bitmap_bytes ?p"
      using bmr [OF y] bt unfolding K(7) by auto
    moreover have "y \<notin> span (frame_top 0) (frame_top (0 + 5))"
      using notin [OF y] kinv_abs(4) [OF K(1)] by (auto simp: heap_zone_def)
    ultimately have "mem t y = mem ?i y" using K(8) [of y] by simp
    then show ?thesis using ob bmr [OF y] bm by (auto simp: only_bitmap_def)
  qed
  have "shell_ok env (mem t)" using img same by (intro shell_ok_cong [OF ok]) blast
  then show "ready env sp r t" using inv room notin img sep by (auto simp: ready_def)
qed

text \<open>The whole program on a session that ends.\<close>

lemma kernel_session:
  fixes s :: "'a shell_scheme"
  assumes "layout_ok ls (ks, ke)" and "kernel_bounds ls params = (ks, ke)" and "frame_bitmap s = sym_pmm_bitmap_start ls"
    and "0x40000000 + 4096 * (5 + session_pages ls') \<le> unat ks" and "shell_ok env (mem s)"
    and "stack_bytes env sp \<union> literal_bytes env \<subseteq> kept_bytes ls (ks, ke)"
    and "region (sp - 288) 288 \<inter> literal_bytes env = {}"
    and "\<forall>u. at_svc env sp (regs_at u)" and "\<forall>c. cpu_sp (body c) = cpu_sp c"
    and "rx_bytes (uart s) = typed ls' rest" and "\<forall>l \<in> set ls'. session_line l"
    and "\<forall>u. psci 0x84000008 u = None"
  shows "\<exists>t. kernel_main ls body regs_at env psci params s = Some (Powered_Off t)
    \<and> rx_bytes (uart t) = rest \<and> kheap_inv t"
proof -
  define s2 where "s2 = kprintf ''Initializing Physical Memory Manager...\<newline>'' [] (kprintf ''SolaceOS starting...\<newline>'' [] s)"
  have e: "frame_bitmap s2 = sym_pmm_bitmap_start ls" "mem s2 = mem s" "rx_bytes (uart s2) = rx_bytes (uart s)"
    using assms(3) by (simp_all add: s2_def)
  define s5 where "s5 = kheap_init (kprintf ''Initializing Kernel Heap Allocator...\<newline>'' [] (frame_alloc_init ls params s2))"
  have ok: "shell_ok env (mem s2)" using assms(5) e(2) by simp
  note B = boot_ready [OF assms(1,2) e(1) assms(4) ok assms(6,7),
      where f = "''Initializing Kernel Heap Allocator...\<newline>''" and as = "[]", folded s5_def]
  define s9 where "s9 = kprintf ''Starting shell...\<newline>'' []
    (kprintf ''TUI: Using fallback console mode (no framebuffer)\<newline>'' [] (kprintf ''TUI: Initializing...\<newline>'' []
      (kprintf ''Initializing TUI subsystem...\<newline>'' [] s5)))"
  have q: "quiet s5 s9" by (simp add: s9_def)
  have R: "ready env sp (session_pages ls') s9" using ready_quiet [OF B(1) q] by blast
  let ?a = "kprintf ''Type 'help' for available commands.\<newline>'' [] (kprintf ''\<newline>SolaceOS Shell\<newline>'' [] s9)"
  have Ra: "ready env sp (session_pages ls') ?a" using ready_quiet [OF R, of ?a] by simp
  have rx: "rx_bytes (uart ?a) = typed ls' rest" using quiet_input [OF q] B(3) e(3) assms(10) by simp
  obtain t where t: "shell_iterate body regs_at env ?a = Some t" "rx_bytes (uart t) = rest" "kheap_inv t"
    using shell_session [OF typed_session [OF Ra rx assms(11,8,9)] Ra assms(8,9)] by blast
  have "kernel_main ls body regs_at env psci params s = Some (Powered_Off (kprintf ''Kernel halting.\<newline>'' [] t))"
    using t(1) assms(12)
    by (simp add: kernel_main_def Let_def tui_init_def shell_loop_def shutdown_def s9_def s5_def s2_def)
  then show ?thesis using t(2,3) by simp
qed

section \<open>A machine with the image of the repository\<close>

text \<open>
  The strings of the shell where the built image has them: literals in read-only data, the
  command names in initialised data. The instruction behind the \<open>svc\<close> is \<open>adrp x0\<close>; without
  it, \<open>kprintf\<close> gets \<open>x0 + 0x680\<close> as its format. At the first \<open>svc\<close>, \<open>x0\<close> still holds the
  address of the command table, and the format lies in the unwind tables behind BSS, where
  the image happens to have five bytes that are no conversion; when \<open>x0\<close> is 0, the format
  lies in the flash at address 0, which is empty. The line buffer holds a line that was
  split.
\<close>

definition image_pieces :: "(addr \<times> byte list) list" where
  "image_pieces =
     [(0x40086130, string_bytes '' '' @ [0]), (0x400866a0, string_bytes ''exit'' @ [0]),
      (0x40086720, string_bytes ''help'' @ [0]), (0x40086728, string_bytes ''memdump'' @ [0]),
      (0x40086730, string_bytes ''peek'' @ [0]), (0x40086738, string_bytes ''poke'' @ [0]),
      (0x40086740, string_bytes ''alloc'' @ [0]), (0x40086748, string_bytes ''free'' @ [0]),
      (0x40086750, string_bytes ''pmm_info'' @ [0]), (0x40086e60, [0x02, 0xb8, 0xde, 0xdd, 0x0e, 0]),
      (0x40096e80, string_bytes ''alloc'' @ [0] @ string_bytes ''100'' @ [0])]"

fun mem_pieces :: "(addr \<times> byte list) list \<Rightarrow> memory" where
  "mem_pieces [] x = 0"
| "mem_pieces ((a, xs) # ps) x = (if unat (x - a) < length xs then xs ! unat (x - a) else mem_pieces ps x)"

definition demo_env :: shell_env where
  "demo_env = \<lparr>env_cmd_buffer = 0x40096e80, env_space = 0x40086130, env_exit = 0x400866a0,
     env_names = [0x40086720, 0x40086728, 0x40086730, 0x40086738, 0x40086740, 0x40086748, 0x40086750],
     env_empty = 0x40086680, env_partial = (\<lambda>x. x ! 0 + 0x680),
     env_formats = [(0x680, []), (0x40086e60, [0x02, 0xb8, 0xde, 0xdd, 0x0e])]\<rparr>"

definition demo_lines :: "byte list list" where
  "demo_lines = [string_bytes ''help'', [], string_bytes ''alloc 100'', string_bytes ''hello'']"

text \<open>The registers at the \<open>svc\<close>: \<open>x0\<close> is the command table.\<close>

definition demo_regs :: cpu where
  "demo_regs = \<lparr>cpu_x = (\<lambda>_. 0)(0 := 0x400867e0), cpu_sp = 0x40096e20, cpu_spsr_el1 = 0x3c5, cpu_elr_el1 = 0x40083f94,
     cpu_sp_el0 = 0, cpu_esr_el1 = 0, cpu_far_el1 = 0\<rparr>"

definition demo_machine :: shell where
  "demo_machine = \<lparr>mem = mem_pieces image_pieces,
     uart = idle_uart\<lparr>rx_line := map (\<lambda>c. (2, ucast c)) (typed demo_lines [104])\<rparr>,
     frame_bitmap = sym_pmm_bitmap_start image_syms,
     total_memory = 0, free_memory = 0, highest_usable_address = 0,
     free_list_head = 0, heap_start = 0, heap_end = 0, strtok_last = 0\<rparr>"

lemmas demo_strings = literals_def demo_env_def cmd_names_def string_bytes_def

lemma demo_literals:
  "(a, xs) \<in> set (literals demo_env) \<Longrightarrow>
   cstr (mem demo_machine) a xs \<and> unat a + Suc (length xs) \<le> 0x40086f00 \<and> (a = 0x680 \<and> xs = [] \<or> 0x40086130 \<le> unat a)"
  by (auto simp: demo_strings demo_machine_def image_pieces_def)

lemma demo_shell_ok: "shell_ok demo_env (mem demo_machine)"
proof -
  have "region a (Suc (length xs)) \<inter> region (env_cmd_buffer demo_env) 128 = {}"
    if "(a, xs) \<in> set (literals demo_env)" for a xs
    using demo_literals [OF that]
    by (intro disjoint_regions_inter) (auto simp: disjoint_regions_def demo_env_def)
  then show ?thesis
    using demo_literals by (auto simp: shell_ok_def demo_env_def)
qed

lemma demo_image: "region a n \<subseteq> kept_bytes image_syms (0x40080000, 0x400b7000)"
  if a: "0x40080000 \<le> unat a" "unat a + n \<le> 0x40097000"
proof
  fix y assume "y \<in> region a n"
  moreover have "unat a + n \<le> 2 ^ 64" using a by simp
  ultimately have y: "unat a \<le> unat y" "unat y < unat a + n" by (auto simp: in_region_nat)
  then have "y \<notin> region 0x40097000 0x20000" using a by (subst in_region_nat) auto
  then show "y \<in> kept_bytes image_syms (0x40080000, 0x400b7000)"
    using y a by (auto simp: kept_bytes_def image_bytes_def image_syms_def word_le_nat_alt word_less_nat_alt)
qed

lemma demo_literal_bytes:
  assumes "y \<in> literal_bytes demo_env"
  shows "y = 0x680 \<or> y \<in> region 0x40086130 0xdd0"
proof -
  obtain a xs where a: "(a, xs) \<in> set (literals demo_env)" "y \<in> region a (Suc (length xs))"
    using assms by (auto simp: literal_bytes_def)
  have u: "unat a + Suc (length xs) \<le> 2 ^ 64" using demo_literals [OF a(1)] by simp
  note y = a(2) [unfolded in_region_nat [OF u]]
  consider "a = 0x680" "xs = []" | "0x40086130 \<le> unat a" using demo_literals [OF a(1)] by blast
  then show ?thesis
  proof cases
    case 1
    then show ?thesis using a(2) by (simp add: region_def unat_eq_0)
  next
    case 2
    then have "y \<in> region 0x40086130 0xdd0" using y demo_literals [OF a(1)] by (subst in_region_nat) auto
    then show ?thesis by blast
  qed
qed

lemma demo_layout:
  "stack_bytes demo_env 0x40096e20 \<union> literal_bytes demo_env \<subseteq> kept_bytes image_syms (0x40080000, 0x400b7000)"
  "region (0x40096e20 - 288) 288 \<inter> literal_bytes demo_env = {}"
proof -
  note l = demo_literal_bytes
  have "region (0x40096e20 - 288) 288 \<subseteq> kept_bytes image_syms (0x40080000, 0x400b7000)"
    "region 0x40096e80 128 \<subseteq> kept_bytes image_syms (0x40080000, 0x400b7000)"
    "region 0x40086130 0xdd0 \<subseteq> kept_bytes image_syms (0x40080000, 0x400b7000)"
    by (rule demo_image; simp)+
  moreover have "(0x680 :: addr) \<in> kept_bytes image_syms (0x40080000, 0x400b7000)"
    by (simp add: kept_bytes_def)
  ultimately show "stack_bytes demo_env 0x40096e20 \<union> literal_bytes demo_env \<subseteq> kept_bytes image_syms (0x40080000, 0x400b7000)"
    using l by (auto simp: stack_bytes_def demo_env_def)
  have "region (0x40096e20 - 288) 288 \<inter> region 0x40086130 0xdd0 = {}"
    by (rule disjoint_regions_inter) (simp_all add: disjoint_regions_def)
  moreover have "0x680 \<notin> region ((0x40096e20 :: addr) - 288) 288" by (subst in_region_nat) simp_all
  ultimately show "region (0x40096e20 - 288) 288 \<inter> literal_bytes demo_env = {}" using l by blast
qed

lemma demo_session:
  "session_pages demo_lines = 1" "\<forall>l \<in> set demo_lines. session_line l"
  "rx_bytes (uart demo_machine) = typed demo_lines [104]"
proof -
  note L = line_pages_def command_of_def cmd_names_def commands_def string_bytes_def cost_def
  have p: "line_pages (string_bytes ''help'') = Some 0" "line_pages [] = Some 0" "line_pages (string_bytes ''hello'') = Some 0"
    by (simp_all add: L tokens.simps)
  have t: "tokens {32} (string_bytes ''alloc 100'') = [string_bytes ''alloc'', [49, 48, 48]]"
    by (simp add: tokens.simps string_bytes_def)
  have v: "number_of [49, 48, 48] = Some 100"
    by (simp add: number_of_def digit_of_def digit_vals_def digits_value_def saturate_def)
  have a: "line_pages (string_bytes ''alloc 100'') = Some 1"
    unfolding line_pages_def t using v pages_100 by (simp add: L)
  show "session_pages demo_lines = 1" using p a by (simp add: session_pages_def demo_lines_def)
  show "\<forall>l \<in> set demo_lines. session_line l"
    using p a by (auto simp: session_line_def demo_lines_def printable_def string_bytes_def)
  have "(ucast (ucast c :: u32) :: byte) = c" for c by (rule bit_word_eqI) (simp add: bit_simps)
  then show "rx_bytes (uart demo_machine) = typed demo_lines [104]"
    by (simp add: demo_machine_def rx_bytes_def comp_def)
qed

definition demo_boot :: shell where
  "demo_boot = kheap_init (kprintf [] [] (frame_alloc_init image_syms None demo_machine))"

lemma demo_boot_facts:
  "ready demo_env 0x40096e20 (session_pages demo_lines) demo_boot" "rx_bytes (uart demo_boot) = typed demo_lines [104]"
  "cstr (mem demo_boot) 0x40096e86 [49, 48, 48]"
proof -
  have b: "frame_bitmap demo_machine = sym_pmm_bitmap_start image_syms" by (simp add: demo_machine_def)
  have low: "0x40000000 + 4096 * (5 + session_pages demo_lines) \<le> unat (0x40080000 :: addr)"
    by (simp add: demo_session(1))
  note B = boot_ready [OF image_layout(1,2) b low demo_shell_ok demo_layout, where f = "[]" and as = "[]", folded demo_boot_def]
  show "ready demo_env 0x40096e20 (session_pages demo_lines) demo_boot" by (rule B(1))
  show "rx_bytes (uart demo_boot) = typed demo_lines [104]" using B(3) demo_session(3) by simp
  have "cstr (mem demo_machine) 0x40096e86 [49, 48, 48]"
    by (simp add: demo_machine_def image_pieces_def string_bytes_def)
  moreover have "cstr (mem demo_boot) 0x40096e86 [49, 48, 48] = cstr (mem demo_machine) 0x40096e86 [49, 48, 48]"
  proof (rule cstr_cong)
    fix x assume "x \<in> region (0x40096e86 :: addr) (Suc (length [49, 48, 48 :: byte]))"
    then have "x \<in> kept_bytes image_syms (0x40080000, 0x400b7000)"
      by (rule subsetD [OF demo_image, rotated 2]) simp_all
    then show "mem demo_boot x = mem demo_machine x" by (rule B(4))
  qed simp
  ultimately show "cstr (mem demo_boot) 0x40096e86 [49, 48, 48]" by blast
qed

theorem alloc_free_commands_witness:
  "\<exists>p t m. cmd_alloc 2 [0x40096e80, 0x40096e86] demo_boot = Some t \<and> kheap_inv t \<and> 100 \<le> m \<and> live t p = Some m"
proof -
  have v: "valid_digits 10 [49, 48, 48]" "100 = saturate (digits_value 10 (digit_vals [49, 48, 48]))"
    by (simp_all add: digit_of_def digit_vals_def digits_value_def saturate_def)
  have r: "kheap_inv demo_boot" "room (kmalloc_pages 100) demo_boot"
    using demo_boot_facts(1) by (simp_all add: ready_def demo_session(1) pages_100)
  have k: "[49, 48, 48 :: byte] \<noteq> []" "(100 :: u64) \<noteq> 0" "(100 :: u64) \<le> 4048" by simp_all
  from alloc_free_commands [OF r(1) demo_boot_facts(3) k(1) v k(2,3) r(2), of "0x40096e80"] show ?thesis by fastforce
qed

lemma demo_regs_svc: "at_svc demo_env 0x40096e20 demo_regs"
proof -
  have "map (cpu_x demo_regs) [0..<31] ! 0 = cpu_x demo_regs 0" by (simp del: upt_rec_numeral)
  then show ?thesis unfolding at_svc_def by (simp add: demo_env_def demo_regs_def del: upt_rec_numeral)
qed

lemma demo_svc: "\<forall>u :: shell. at_svc demo_env 0x40096e20 demo_regs" "\<forall>c. cpu_sp (id c) = cpu_sp c"
  by (simp_all add: demo_regs_svc)

theorem session_returns_witness:
  "\<exists>t. shell_iterate id (\<lambda>_. demo_regs) demo_env demo_boot = Some t \<and> rx_bytes (uart t) = [104] \<and> kheap_inv t"
  by (rule session_returns [OF typed_session [OF demo_boot_facts(1,2) demo_session(2) demo_svc] demo_boot_facts(1) demo_svc])

text \<open>The machine with a single line to read, an allocation.\<close>

theorem shell_refines_witness:
  "\<exists>t. shell_step id (\<lambda>_. demo_regs) demo_env (demo_boot\<lparr>uart := (uart demo_boot)\<lparr>rx_line := map (\<lambda>c. (2, ucast c))
       (string_bytes ''alloc 100'' @ [13])\<rparr>\<rparr>) = Some (True, t) \<and> kheap_inv t \<and> (\<exists>p m. live t p = Some m \<and> 100 \<le> m)"
proof -
  let ?s = "demo_boot\<lparr>uart := (uart demo_boot)\<lparr>rx_line := map (\<lambda>c. (2, ucast c)) (string_bytes ''alloc 100'' @ [13])\<rparr>\<rparr>"
  let ?l = "string_bytes ''alloc 100''"
  have n: "request_of (tokens {32} ?l) = Allocate 100" "cost (live ?s) (Allocate 100) = Some 1"
  proof -
    have t: "tokens {32} ?l = [string_bytes ''alloc'', [49, 48, 48]]" by (simp add: tokens.simps string_bytes_def)
    have "number_of [49, 48, 48] = Some 100"
      by (simp add: number_of_def digit_of_def digit_vals_def digits_value_def saturate_def)
    then show "request_of (tokens {32} ?l) = Allocate 100"
      unfolding t by (simp add: command_of_def cmd_names_def commands_def string_bytes_def)
    show "cost (live ?s) (Allocate 100) = Some 1" using pages_100 by (simp add: cost_def)
  qed
  have "ready demo_env 0x40096e20 1 demo_boot" using demo_boot_facts(1) by (simp add: demo_session(1))
  moreover have "touches {} demo_boot ?s" "same_heads demo_boot ?s" by (simp_all add: touches_def same_heads_def)
  ultimately have r: "ready demo_env 0x40096e20 (1 + 0) ?s"
    using ready_frame [OF _ touches_mono [OF \<open>touches {} demo_boot ?s\<close> empty_subsetI]] by simp
  have "(ucast (ucast c :: u32) :: byte) = c" for c by (rule bit_word_eqI) (simp add: bit_simps)
  then have "rx_bytes (uart ?s) = ?l @ 13 # []" by (simp add: rx_bytes_def comp_def)
  moreover have "edit [] (?l @ 13 # []) = Some (?l, [])"
    using edit_line [of ?l "[]" "[]"] by (simp add: printable_def string_bytes_def)
  ultimately have e: "edit [] (rx_bytes (uart ?s)) = Some (?l, [])" by simp
  obtain t where t: "shell_step id (\<lambda>_. demo_regs) demo_env ?s = Some (True, t)" "ready demo_env 0x40096e20 0 t"
      "user_step (Allocate 100) (live ?s) (live t)"
    using shell_refines [where regs_at = "\<lambda>_. demo_regs" and body = id, OF r demo_regs_svc demo_svc(2) e, unfolded n(1), OF n(2)]
    by (auto simp: served_def)
  have "\<not> 4048 < align8 100" by (simp add: align8_def)
  then have "\<exists>p m. live t p = Some m \<and> 100 \<le> m" using t(3) by auto
  then show ?thesis using t(1,2) by (auto simp: ready_def)
qed

theorem run_line_correct_witness:
  "\<exists>argv s1. run_line demo_env demo_machine = dispatch [string_bytes ''alloc''] argv s1 \<and> length argv = 1"
proof -
  let ?l = "string_bytes ''alloc''"
  have c: "cstr (mem demo_machine) (env_cmd_buffer demo_env) ?l"
    by (simp add: demo_machine_def image_pieces_def demo_env_def string_bytes_def)
  have t: "tokens {32} ?l = [?l]" by (simp add: tokens.simps string_bytes_def)
  have l: "length ?l \<le> 127" by (simp add: string_bytes_def)
  from run_line_correct [OF demo_shell_ok c l, unfolded t] show ?thesis
    by (elim exE conjE) (intro exI conjI, assumption, simp)
qed

end
