(* ===== verification/Linker.thy ===== *)
theory Linker
  imports Frame_Alloc
begin

text \<open>
  The linker script \<^verbatim>\<open>src/src/linker.ld\<close>: where it puts the sections of an image, its
  symbols, and what the boot code and the memory manager rely on.
\<close>

section \<open>The script\<close>

text \<open>
  The input of the linker: size and alignment of what the script collects for each output
  section. Sections that the script does not name follow \<^verbatim>\<open>.data\<close> (the built image has
  two, \<^verbatim>\<open>.got\<close> and \<^verbatim>\<open>.got.plt\<close>).
\<close>

record input_section =
  sec_size :: nat
  sec_align :: nat

record input_sections =
  in_text :: input_section
  in_rodata :: input_section
  in_data :: input_section
  in_orphans :: "input_section list"
  in_bss :: input_section
  in_eh_frame :: input_section

definition align_up :: "nat \<Rightarrow> nat \<Rightarrow> nat" where
  "align_up dot n = (dot + n - 1) div n * n"

text \<open>The start of an output section; \<open>least\<close> is the alignment that the script asks for.\<close>

definition place :: "nat \<Rightarrow> nat \<Rightarrow> input_section \<Rightarrow> nat" where
  "place least dot sec = align_up dot (max least (sec_align sec))"

definition skip_orphan :: "input_section \<Rightarrow> nat \<Rightarrow> nat" where
  "skip_orphan sec dot = place 1 dot sec + sec_size sec"

text \<open>The location counter at the symbols, in the order of the script.\<close>

definition kernel_start :: nat where "kernel_start = 0x40080000"

definition text_end :: "input_sections \<Rightarrow> nat" where
  "text_end secs = place 8 kernel_start (in_text secs) + sec_size (in_text secs)"

definition rodata_start :: "input_sections \<Rightarrow> nat" where
  "rodata_start secs = place 8 (text_end secs) (in_rodata secs)"

definition rodata_end :: "input_sections \<Rightarrow> nat" where
  "rodata_end secs = rodata_start secs + sec_size (in_rodata secs)"

definition data_start :: "input_sections \<Rightarrow> nat" where
  "data_start secs = place 8 (rodata_end secs) (in_data secs)"

definition data_end :: "input_sections \<Rightarrow> nat" where
  "data_end secs = data_start secs + sec_size (in_data secs)"

definition bss_start :: "input_sections \<Rightarrow> nat" where
  "bss_start secs = place 8 (fold skip_orphan (in_orphans secs) (data_end secs)) (in_bss secs)"

definition bss_end :: "input_sections \<Rightarrow> nat" where
  "bss_end secs = align_up (bss_start secs + sec_size (in_bss secs)) 8"

definition stack_bottom :: "input_sections \<Rightarrow> nat" where
  "stack_bottom secs = align_up (align_up (place 1 (bss_end secs) (in_eh_frame secs) + sec_size (in_eh_frame secs)) 8) 16"

definition stack_top :: "input_sections \<Rightarrow> nat" where
  "stack_top secs = align_up (stack_bottom secs + 0x10000) 16"

definition pmm_bitmap_start :: "input_sections \<Rightarrow> nat" where
  "pmm_bitmap_start secs = align_up (stack_top secs) 4096"

definition pmm_bitmap_end :: "input_sections \<Rightarrow> nat" where
  "pmm_bitmap_end secs = pmm_bitmap_start secs + 0x20000"

text \<open>The load address of a section is its address: the script names no other.\<close>

definition linker_script :: "input_sections \<Rightarrow> linker_syms" where
  "linker_script secs =
     \<lparr>sym_kernel_start = of_nat kernel_start, sym_text_end = of_nat (text_end secs),
      sym_rodata_start = of_nat (rodata_start secs), sym_rodata_end = of_nat (rodata_end secs),
      sym_rodata_load = of_nat (rodata_start secs), sym_data_start = of_nat (data_start secs),
      sym_data_end = of_nat (data_end secs), sym_data_load = of_nat (data_start secs),
      sym_bss_start = of_nat (bss_start secs), sym_bss_end = of_nat (bss_end secs),
      sym_stack_top = of_nat (stack_top secs), sym_stack_bottom = of_nat (stack_bottom secs),
      sym_pmm_bitmap_start = of_nat (pmm_bitmap_start secs), sym_pmm_bitmap_end = of_nat (pmm_bitmap_end secs),
      sym_kernel_end = of_nat (pmm_bitmap_end secs)\<rparr>"

text \<open>
  A bound on the end of the image: the sizes, and what alignment can add to each.
\<close>

definition section_room :: "input_section \<Rightarrow> nat" where
  "section_room sec = sec_size sec + max 8 (sec_align sec)"

definition image_room :: "input_sections \<Rightarrow> nat" where
  "image_room secs = section_room (in_text secs) + section_room (in_rodata secs) + section_room (in_data secs)
     + sum_list (map section_room (in_orphans secs)) + section_room (in_bss secs) + section_room (in_eh_frame secs)"

text \<open>Alignments are powers of two, so that one above eight is a multiple of it.\<close>

definition bss_aligned :: "input_sections \<Rightarrow> bool" where
  "bss_aligned secs \<longleftrightarrow> 8 dvd max 8 (sec_align (in_bss secs))"

section \<open>Alignment\<close>

lemma align_up_bounds: "0 < n \<Longrightarrow> dot \<le> align_up dot n" "0 < n \<Longrightarrow> align_up dot n < dot + n"
proof -
  assume n: "0 < n"
  have m: "align_up dot n + (dot + n - 1) mod n = dot + n - 1" by (simp add: align_up_def)
  have "(dot + n - 1) mod n < n" using n by simp
  then show "dot \<le> align_up dot n" using m by linarith
  show "align_up dot n < dot + n" using m n by linarith
qed

lemma align_up_dvd [simp]: "n dvd align_up dot n"
  by (simp add: align_up_def)

lemma align_up_self: "n dvd dot \<Longrightarrow> 0 < n \<Longrightarrow> align_up dot n = dot"
proof -
  assume "n dvd dot" "0 < n"
  then obtain k where "dot = n * k" by blast
  moreover have "(n * k + n - 1) div n = k"
    using \<open>0 < n\<close> by (simp add: div_nat_eqI)
  ultimately show ?thesis by (simp add: align_up_def)
qed

lemma place_bounds:
  assumes "0 < l" and "l \<le> 8"
  shows "dot \<le> place l dot sec" and "place l dot sec + sec_size sec \<le> dot + section_room sec"
proof -
  let ?n = "max l (sec_align sec)"
  have n: "0 < ?n" "?n \<le> max 8 (sec_align sec)" using assms by auto
  show "dot \<le> place l dot sec" "place l dot sec + sec_size sec \<le> dot + section_room sec"
    using align_up_bounds [OF n(1), of dot] n(2) unfolding place_def section_room_def by linarith+
qed

lemma skip_orphans_bounds:
  "dot \<le> fold skip_orphan secs dot \<and> fold skip_orphan secs dot \<le> dot + sum_list (map section_room secs)"
proof (induction secs arbitrary: dot)
  case (Cons sec secs)
  have "dot \<le> skip_orphan sec dot" "skip_orphan sec dot \<le> dot + section_room sec"
    using place_bounds [of 1 dot sec] by (simp_all add: skip_orphan_def)
  then show ?case using Cons [of "skip_orphan sec dot"] by simp
qed simp

text \<open>The symbols one after the other.\<close>

lemma sections_order:
  "kernel_start \<le> text_end secs" "text_end secs \<le> rodata_start secs" "rodata_start secs \<le> rodata_end secs"
  "rodata_end secs \<le> data_start secs" "data_start secs \<le> data_end secs" "data_end secs \<le> bss_start secs"
  "bss_start secs \<le> bss_end secs" "bss_end secs \<le> stack_bottom secs"
  "stack_top secs = stack_bottom secs + 0x10000" "stack_top secs \<le> pmm_bitmap_start secs"
proof -
  note P = place_bounds(1) [of 8] and A = align_up_bounds(1)
  let ?o = "fold skip_orphan (in_orphans secs) (data_end secs)"
  let ?e = "place 1 (bss_end secs) (in_eh_frame secs) + sec_size (in_eh_frame secs)"
  show "kernel_start \<le> text_end secs" "text_end secs \<le> rodata_start secs" "rodata_end secs \<le> data_start secs"
    using P by (simp_all add: text_end_def rodata_start_def data_start_def trans_le_add1)
  show "rodata_start secs \<le> rodata_end secs" "data_start secs \<le> data_end secs"
    by (simp_all add: rodata_end_def data_end_def)
  show "data_end secs \<le> bss_start secs"
    using P [of ?o "in_bss secs"] skip_orphans_bounds [of "data_end secs" "in_orphans secs"] by (simp add: bss_start_def)
  show "bss_start secs \<le> bss_end secs"
    using A [of 8 "bss_start secs + sec_size (in_bss secs)"] by (simp add: bss_end_def)
  show "bss_end secs \<le> stack_bottom secs"
    using place_bounds(1) [of 1 "bss_end secs" "in_eh_frame secs"] A [of 8 ?e] A [of 16 "align_up ?e 8"]
    by (simp add: stack_bottom_def)
  show "stack_top secs = stack_bottom secs + 0x10000"
    unfolding stack_top_def by (rule align_up_self) (simp_all add: stack_bottom_def dvd_add)
  show "stack_top secs \<le> pmm_bitmap_start secs" using A [of 4096 "stack_top secs"] by (simp add: pmm_bitmap_start_def)
qed

text \<open>The end of the image.\<close>

lemma image_end: "pmm_bitmap_end secs \<le> 0x40080000 + image_room secs + 0x32000"
proof -
  note P = place_bounds(2) [of 8]
  let ?o = "fold skip_orphan (in_orphans secs) (data_end secs)"
  let ?e = "place 1 (bss_end secs) (in_eh_frame secs) + sec_size (in_eh_frame secs)"
  have "text_end secs \<le> 0x40080000 + section_room (in_text secs)"
    using P [of kernel_start "in_text secs"] by (simp add: text_end_def kernel_start_def)
  moreover have "rodata_end secs \<le> text_end secs + section_room (in_rodata secs)"
    using P [of "text_end secs" "in_rodata secs"] by (simp add: rodata_end_def rodata_start_def)
  moreover have "data_end secs \<le> rodata_end secs + section_room (in_data secs)"
    using P [of "rodata_end secs" "in_data secs"] by (simp add: data_end_def data_start_def)
  moreover have "?o \<le> data_end secs + sum_list (map section_room (in_orphans secs))"
    using skip_orphans_bounds [of "data_end secs" "in_orphans secs"] by simp
  moreover have "bss_end secs \<le> ?o + section_room (in_bss secs) + 8"
    using P [of ?o "in_bss secs"] align_up_bounds(2) [of 8 "bss_start secs + sec_size (in_bss secs)"]
    by (simp add: bss_end_def bss_start_def)
  moreover have "stack_bottom secs \<le> bss_end secs + section_room (in_eh_frame secs) + 24"
    using place_bounds(2) [of 1 "bss_end secs" "in_eh_frame secs"] align_up_bounds(2) [of 8 ?e]
      align_up_bounds(2) [of 16 "align_up ?e 8"] by (simp add: stack_bottom_def)
  moreover have "pmm_bitmap_end secs \<le> stack_bottom secs + 0x10000 + 0x1000 + 0x20000"
    using align_up_bounds(2) [of 4096 "stack_top secs"] sections_order(9) [of secs]
    by (simp add: pmm_bitmap_end_def pmm_bitmap_start_def)
  ultimately show ?thesis unfolding image_room_def by linarith
qed

section \<open>The image\<close>

text \<open>
  The parts of an image that the boot code and the kernel rely on, in the order of their
  addresses: no two of them overlap.
\<close>

definition ordered_image :: "linker_syms \<Rightarrow> bool" where
  "ordered_image ls \<longleftrightarrow> sym_kernel_start ls \<le> sym_text_end ls \<and> sym_text_end ls \<le> sym_rodata_start ls
     \<and> sym_rodata_start ls \<le> sym_rodata_end ls \<and> sym_rodata_end ls \<le> sym_data_start ls
     \<and> sym_data_start ls \<le> sym_data_end ls \<and> sym_data_end ls \<le> sym_bss_start ls
     \<and> sym_bss_start ls \<le> sym_bss_end ls \<and> sym_bss_end ls \<le> sym_stack_bottom ls
     \<and> unat (sym_stack_top ls) = unat (sym_stack_bottom ls) + 0x10000 \<and> sym_stack_top ls \<le> sym_pmm_bitmap_start ls"

lemma linked_image:
  assumes "bss_aligned secs" and "image_room secs \<le> 0x3ff00000"
  defines "ls \<equiv> linker_script secs"
  shows "layout_ok ls (sym_kernel_start ls, sym_kernel_end ls) \<and> ordered_image ls
    \<and> sym_kernel_start ls = 0x40080000
    \<and> sym_rodata_load ls = sym_rodata_start ls \<and> sym_data_load ls = sym_data_start ls
    \<and> 8 dvd unat (sym_bss_start ls) \<and> 8 dvd unat (sym_bss_end ls)
    \<and> 16 dvd unat (sym_stack_top ls) \<and> 4096 dvd unat (sym_pmm_bitmap_start ls)"
proof -
  note O = sections_order [of secs]
  have ub: "pmm_bitmap_end secs \<le> 0x80000000" using image_end [of secs] assms(2) by linarith
  have e: "pmm_bitmap_end secs = pmm_bitmap_start secs + 0x20000" by (simp add: pmm_bitmap_end_def)
  have u: "unat (of_nat n :: addr) = n" if "n \<le> pmm_bitmap_end secs" for n
    using that ub by (intro unat_of_nat64) simp
  have us: "unat (sym_text_end ls) = text_end secs" "unat (sym_rodata_start ls) = rodata_start secs"
      "unat (sym_rodata_end ls) = rodata_end secs" "unat (sym_data_start ls) = data_start secs"
      "unat (sym_data_end ls) = data_end secs" "unat (sym_bss_start ls) = bss_start secs"
      "unat (sym_bss_end ls) = bss_end secs" "unat (sym_stack_bottom ls) = stack_bottom secs"
      "unat (sym_stack_top ls) = stack_top secs" "unat (sym_pmm_bitmap_start ls) = pmm_bitmap_start secs"
      "unat (sym_pmm_bitmap_end ls) = pmm_bitmap_end secs" "unat (sym_kernel_end ls) = pmm_bitmap_end secs"
    unfolding ls_def linker_script_def linker_syms.simps by (rule u; use O e in linarith)+
  have ks: "sym_kernel_start ls = 0x40080000" by (simp add: ls_def linker_script_def kernel_start_def)
  have ku: "unat (sym_kernel_start ls) = kernel_start" by (simp add: ks kernel_start_def)
  have "ordered_image ls" unfolding ordered_image_def word_le_nat_alt us ku using O by blast
  moreover have "layout_ok ls (sym_kernel_start ls, sym_kernel_end ls)"
    using O e ub by (simp add: layout_ok_def word_le_nat_alt us ku kernel_start_def)
  moreover have "8 dvd bss_start secs"
    using assms(1) unfolding bss_start_def place_def bss_aligned_def by (rule dvd_trans) simp
  moreover have "8 dvd bss_end secs" "4096 dvd pmm_bitmap_start secs" "16 dvd stack_top secs"
    by (simp_all add: bss_end_def pmm_bitmap_start_def stack_top_def)
  moreover have "sym_rodata_load ls = sym_rodata_start ls \<and> sym_data_load ls = sym_data_start ls"
    by (simp add: ls_def linker_script_def)
  ultimately show ?thesis unfolding us using ks by blast
qed

text \<open>
  C12. An image of at most a gigabyte gets the layout that the rest of the kernel relies on:
  it starts at \<open>0x40080000\<close> and lies in the memory that the physical memory manager manages,
  with the frame bitmap of 128 KB inside; text, read-only data, data, BSS, the stack of 64 KB
  and the bitmap follow each other without overlap; BSS starts and ends at multiples of eight
  as the loop that clears it needs, the stack ends at a multiple of sixteen and the bitmap
  starts at a page. Data are linked where they are loaded, so that the boot code copies
  nothing.
\<close>

theorem linker_layout:
  assumes "bss_aligned secs" and "image_room secs \<le> 0x3ff00000"
  defines "ls \<equiv> linker_script secs"
  shows "layout_ok ls (sym_kernel_start ls, sym_kernel_end ls) \<and> ordered_image ls
    \<and> sym_kernel_start ls = 0x40080000
    \<and> sym_rodata_load ls = sym_rodata_start ls \<and> sym_data_load ls = sym_data_start ls
    \<and> 8 dvd unat (sym_bss_start ls) \<and> 8 dvd unat (sym_bss_end ls)
    \<and> 16 dvd unat (sym_stack_top ls) \<and> 4096 dvd unat (sym_pmm_bitmap_start ls)"
  unfolding ls_def using assms(1,2) by (rule linked_image)

text \<open>The built image: from the sizes of its sections the script gives its symbols.\<close>

definition image_sections :: input_sections where
  "image_sections = \<lparr>in_text = \<lparr>sec_size = 0x528c, sec_align = 2048\<rparr>, in_rodata = \<lparr>sec_size = 0x148c, sec_align = 8\<rparr>,
     in_data = \<lparr>sec_size = 0x48, sec_align = 8\<rparr>,
     in_orphans = [\<lparr>sec_size = 0x28, sec_align = 8\<rparr>, \<lparr>sec_size = 0x18, sec_align = 8\<rparr>],
     in_bss = \<lparr>sec_size = 0xb8, sec_align = 8\<rparr>, in_eh_frame = \<lparr>sec_size = 0x6e0, sec_align = 8\<rparr>\<rparr>"

lemma image_linked: "linker_script image_sections = image_syms"
proof -
  have t: "text_end image_sections = 0x4008528c"
    by (simp add: text_end_def kernel_start_def image_sections_def place_def align_up_def)
  have r: "rodata_start image_sections = 0x40085290"
    by (simp add: rodata_start_def t) (simp add: image_sections_def place_def align_up_def)
  have re: "rodata_end image_sections = 0x4008671c" by (simp add: rodata_end_def r) (simp add: image_sections_def)
  have d: "data_start image_sections = 0x40086720"
    by (simp add: data_start_def re) (simp add: image_sections_def place_def align_up_def)
  have de: "data_end image_sections = 0x40086768" by (simp add: data_end_def d) (simp add: image_sections_def)
  have b: "bss_start image_sections = 0x400867a8"
    by (simp add: bss_start_def de) (simp add: image_sections_def skip_orphan_def place_def align_up_def)
  have be: "bss_end image_sections = 0x40086860" by (simp add: bss_end_def b) (simp add: image_sections_def align_up_def)
  have sb: "stack_bottom image_sections = 0x40086f40"
    by (simp add: stack_bottom_def be) (simp add: image_sections_def place_def align_up_def)
  have st: "stack_top image_sections = 0x40096f40" by (simp add: stack_top_def sb align_up_def)
  have p: "pmm_bitmap_start image_sections = 0x40097000" by (simp add: pmm_bitmap_start_def st align_up_def)
  show ?thesis
    by (simp add: linker_script_def t r re d de b be sb st p pmm_bitmap_end_def kernel_start_def image_syms_def)
qed

lemma image_sections_ok: "bss_aligned image_sections" "image_room image_sections \<le> 0x3ff00000"
  by (simp_all add: bss_aligned_def image_room_def section_room_def image_sections_def)

theorem linker_layout_witness:
  "layout_ok image_syms (0x40080000, 0x400b7000) \<and> sym_data_load image_syms = sym_data_start image_syms
   \<and> 8 dvd unat (sym_bss_end image_syms)"
  using linker_layout [OF image_sections_ok] unfolding image_linked by (simp add: image_syms_def)

end
