(* ===== verification/Boot.thy ===== *)
theory Boot
  imports Kernel_Boot Linker
begin

text \<open>
  The boot code \<^verbatim>\<open>src/src/boot/boot.S\<close>, from reset to the call of \<open>kernel_main\<close>: one
  definition per label. The registers it sets are fields of a record; the stack pointer is
  that of the current exception level (\<open>SPSel\<close> is 1 from reset on). Addresses of labels are
  parameters, and so are the contents of the uninitialised array that \<open>boot_debug_copy\<close>
  keeps on the stack.
\<close>

section \<open>Registers\<close>

record boot_cpu =
  b_mpidr_el1 :: u64
  b_current_el :: u64
  b_daif :: u64
  b_sp_el1 :: addr
  b_sp_el2 :: addr
  b_vbar_el1 :: u64
  b_cpacr_el1 :: u64
  b_cnthctl_el2 :: u64
  b_cntvoff_el2 :: u64
  b_hcr_el2 :: u64
  b_spsr_el2 :: u64
  b_elr_el2 :: u64

record boot_labels =
  lab_exception_vector_table :: addr
  lab_already_in_el1 :: addr
  lab_after_rodata :: addr
  lab_after_data :: addr

definition cur_sp :: "boot_cpu \<Rightarrow> addr" where
  "cur_sp c = (if b_current_el c = 4 then b_sp_el1 c else b_sp_el2 c)"

definition set_cur_sp :: "addr \<Rightarrow> boot_cpu \<Rightarrow> boot_cpu" where
  "set_cur_sp a c = (if b_current_el c = 4 then c\<lparr>b_sp_el1 := a\<rparr> else c\<lparr>b_sp_el2 := a\<rparr>)"

section \<open>Copying sections\<close>

text \<open>The loop tests behind its body; a size of 0 would go around once through all sizes.\<close>

function copy_byte_loop :: "memory \<Rightarrow> addr \<Rightarrow> addr \<Rightarrow> u64 \<Rightarrow> memory" where
  "copy_byte_loop m x0 x1 x2 =
     (let m1 = m(x0 := m x1);
          x2' = x2 - 1
      in if x2' \<noteq> 0 then copy_byte_loop m1 (x0 + 1) (x1 + 1) x2' else m1)"
  by pat_completeness auto
termination
proof (relation "measure (\<lambda>(m, x0, x1, x2). unat (x2 - 1))", goal_cases)
  case (2 m x0 x1 x2 m1 x2')
  then show ?case using measure_unat [of "x2 - 1"] by simp
qed simp

declare copy_byte_loop.simps [simp del]

text \<open>The result is the address that \<open>ret\<close> continues at and the machine.\<close>

definition copy_data_section ::
    "addr \<Rightarrow> u64 \<Rightarrow> byte list \<Rightarrow> addr \<Rightarrow> addr \<Rightarrow> u64 \<Rightarrow> 'a machine_scheme \<Rightarrow> (addr \<times> 'a machine_scheme) option" where
  "copy_data_section sp x30 size_str x0 x1 x2 s =
     (if x0 = x1 then Some (x30, s)
      else if x2 = 0 then Some (x30, s)
      else do {
        let m1 = stp x0 x1 (sp - 16) (mem s);
        let m2 = stp x2 x30 (sp - 16 - 16) m1;
        u \<leftarrow> boot_debug_copy x0 x1 x2 size_str (uart s);
        let x2 = load64 m2 (sp - 32);
        let x30 = load64 m2 (sp - 32 + 8);
        let x0 = load64 m2 (sp - 32 + 16);
        let x1 = load64 m2 (sp - 32 + 16 + 8);
        Some (x30, s\<lparr>mem := copy_byte_loop m2 x0 x1 x2, uart := u\<rparr>)
      })"

section \<open>Clearing BSS\<close>

partial_function (option) clear_bss_loop :: "memory \<Rightarrow> addr \<Rightarrow> u64 \<Rightarrow> memory option" where
  "clear_bss_loop m x0 x1 =
     (let m1 = store64 m x0 0;
          x1' = x1 - 8
      in if x1' \<noteq> 0 then clear_bss_loop m1 (x0 + 8) x1' else Some m1)"

text \<open>The static variables without an initial value lie in BSS; in the model they are fields.\<close>

definition zero_globals :: "'a shell_scheme \<Rightarrow> 'a shell_scheme" where
  "zero_globals s = s\<lparr>total_memory := 0, free_memory := 0, highest_usable_address := 0,
     free_list_head := 0, heap_start := 0, heap_end := 0, strtok_last := 0\<rparr>"

definition clear_bss :: "linker_syms \<Rightarrow> 'a shell_scheme \<Rightarrow> 'a shell_scheme option" where
  "clear_bss ls s =
     (let x0 = sym_bss_start ls;
          x1 = sym_bss_end ls - x0
      in if x1 = 0 then Some s
         else do { m \<leftarrow> clear_bss_loop (mem s) x0 x1; Some (zero_globals (s\<lparr>mem := m\<rparr>)) })"

section \<open>From EL2 to EL1\<close>

text \<open>
  \<open>eret\<close> at EL2 takes the exception level and the interrupt masks from \<open>SPSR_EL2\<close>, whose bits
  lie as in \<open>CurrentEL\<close> and \<open>DAIF\<close>, and continues at \<open>ELR_EL2\<close>.
\<close>

definition eret_el2 :: "boot_cpu \<Rightarrow> addr \<times> boot_cpu" where
  "eret_el2 c = (b_elr_el2 c, c\<lparr>b_current_el := b_spsr_el2 c AND 0xC, b_daif := b_spsr_el2 c AND 0x3C0\<rparr>)"

definition drop_to_el1 :: "boot_labels \<Rightarrow> boot_cpu \<Rightarrow> addr \<times> boot_cpu" where
  "drop_to_el1 lab c =
     (let c1 = c\<lparr>b_cnthctl_el2 := 0x3, b_cntvoff_el2 := 0\<rparr>;
          c2 = c1\<lparr>b_hcr_el2 := push_bit 31 1 OR push_bit 1 1\<rparr>;
          c3 = c2\<lparr>b_spsr_el2 := 0x3c5\<rparr>;
          c4 = c3\<lparr>b_elr_el2 := lab_already_in_el1 lab\<rparr>
      in eret_el2 c4)"

section \<open>Entry\<close>

definition already_in_el1 :: "boot_cpu \<Rightarrow> boot_cpu" where
  "already_in_el1 c = c\<lparr>b_cpacr_el1 := 0x00300000\<rparr>"

text \<open>\<open>None\<close>: the code does not get as far as \<open>kernel_main\<close>.\<close>

definition primary_core ::
    "linker_syms \<Rightarrow> boot_labels \<Rightarrow> byte list \<Rightarrow> boot_cpu \<Rightarrow> 'a shell_scheme \<Rightarrow> (boot_cpu \<times> 'a shell_scheme) option" where
  "primary_core ls lab size_str c s =
     do {
       let c1 = set_cur_sp (sym_stack_top ls) c;
       let sp = cur_sp c1;
       (_, s1) \<leftarrow> copy_data_section sp (lab_after_rodata lab) size_str (sym_rodata_start ls) (sym_rodata_load ls)
                    (sym_rodata_end ls - sym_rodata_start ls) s;
       (_, s2) \<leftarrow> copy_data_section sp (lab_after_data lab) size_str (sym_data_start ls) (sym_data_load ls)
                    (sym_data_end ls - sym_data_start ls) s1;
       s3 \<leftarrow> clear_bss ls s2;
       let c2 = c1\<lparr>b_vbar_el1 := lab_exception_vector_table lab\<rparr>;
       if drop_bit 2 (b_current_el c2) = 1 then Some (already_in_el1 c2, s3)
       else (case drop_to_el1 lab c2 of
               (pc, c3) \<Rightarrow> if pc = lab_already_in_el1 lab then Some (already_in_el1 c3, s3) else None)
     }"

datatype 's entry = Parked 's | Kernel_Main boot_cpu 's

definition start ::
    "linker_syms \<Rightarrow> boot_labels \<Rightarrow> byte list \<Rightarrow> boot_cpu \<Rightarrow> 'a shell_scheme \<Rightarrow> 'a shell_scheme entry option" where
  "start ls lab size_str c s =
     (if b_mpidr_el1 c AND 0xFF = 0
      then do { (c1, s1) \<leftarrow> primary_core ls lab size_str c s; Some (Kernel_Main c1 s1) }
      else Some (Parked s))"

text \<open>
  The whole run of a core. Where the compiler puts the line buffer and the stack pointer of
  the shell depends on the stack that \<open>kernel_main\<close> is entered with: \<open>regs_at\<close> and \<open>env\<close> take
  its pointer. \<open>None\<close>: the core waits for ever.
\<close>

definition boot ::
    "linker_syms \<Rightarrow> boot_labels \<Rightarrow> byte list \<Rightarrow> (cpu \<Rightarrow> cpu) \<Rightarrow> (addr \<Rightarrow> 'a shell_scheme \<Rightarrow> cpu) \<Rightarrow> (addr \<Rightarrow> shell_env)
     \<Rightarrow> (u64 \<Rightarrow> 'a shell_scheme \<Rightarrow> 'a shell_scheme option) \<Rightarrow> boot_cpu \<Rightarrow> 'a shell_scheme
     \<Rightarrow> 'a shell_scheme final option" where
  "boot ls lab size_str body regs_at env psci c s =
     do {
       e \<leftarrow> start ls lab size_str c s;
       case e of
         Parked _ \<Rightarrow> None
       | Kernel_Main c1 s1 \<Rightarrow> kernel_main ls body (regs_at (cur_sp c1)) (env (cur_sp c1)) psci None s1
     }"

section \<open>What the copy does\<close>

lemma copy_byte_loop_memcpy: "0 < n \<Longrightarrow> n < 2 ^ 64 \<Longrightarrow> copy_byte_loop m d s (of_nat n) = memcpy_loop m d s n"
proof (induction n arbitrary: m d s)
  case (Suc n)
  show ?case
  proof (cases "n = 0")
    case True
    then show ?thesis by (subst copy_byte_loop.simps) simp
  next
    case False
    then have "(of_nat n :: u64) \<noteq> 0" using Suc.prems(2) of_nat64_inject [of n 0] by simp
    then show ?thesis using Suc False by (subst copy_byte_loop.simps) simp
  qed
qed simp

text \<open>The registers come back from the stack.\<close>

lemma pushed_words:
  fixes sp x0 x1 :: addr and x2 x30 :: u64 and m :: memory
  defines "m2 \<equiv> stp x2 x30 (sp - 16 - 16) (stp x0 x1 (sp - 16) m)"
  shows "load64 m2 (sp - 32) = x2" and "load64 m2 (sp - 32 + 8) = x30" and "load64 m2 (sp - 32 + 16) = x0"
    and "load64 m2 (sp - 32 + 16 + 8) = x1" and "y \<notin> region (sp - 32) 32 \<Longrightarrow> m2 y = m y"
proof -
  let ?a = "sp - 32"
  have m2: "m2 = store64 (store64 (store64 (store64 m (?a + of_nat (8 * 2)) x0) (?a + of_nat (8 * 3)) x1)
      (?a + of_nat (8 * 0)) x2) (?a + of_nat (8 * 1)) x30"
    unfolding m2_def stp_def by (simp del: store.simps add: algebra_simps)
  note F = frame_load_store
  have "load64 m2 (?a + of_nat (8 * i)) = (if i = 1 then x30 else if i = 0 then x2 else if i = 3 then x1 else x0)"
    if "i < 4" for i
  proof -
    have lt: "i < 64" "(0 :: nat) < 64" "(1 :: nat) < 64" "(2 :: nat) < 64" "(3 :: nat) < 64" using that by auto
    show ?thesis
      using that unfolding m2 F [OF lt(1,3)] F [OF lt(1,2)] F [OF lt(1,5)] F [OF lt(1,4)] by auto
  qed
  from this [of 0] this [of 1] this [of 2] this [of 3]
  show "load64 m2 (sp - 32) = x2" "load64 m2 (sp - 32 + 8) = x30" "load64 m2 (sp - 32 + 16) = x0"
    "load64 m2 (sp - 32 + 16 + 8) = x1" by (simp_all del: load.simps add: add.assoc)
  show "m2 y = m y" if y: "y \<notin> region ?a 32"
  proof -
    have st: "store64 m' (?a + of_nat (8 * j)) v y = m' y" if "j < 4" for m' v j
    proof -
      have "region (?a + of_nat (8 * j)) 8 \<subseteq> region ?a 32"
        using that by (intro region_off_subset) (simp_all add: unat_word_offset del: of_nat_mult)
      then show ?thesis using y by (intro store_outside) auto
    qed
    have lt: "(0 :: nat) < 4" "(1 :: nat) < 4" "(2 :: nat) < 4" "(3 :: nat) < 4" by simp_all
    show ?thesis unfolding m2 st [OF lt(2)] st [OF lt(1)] st [OF lt(4)] st [OF lt(3)] by (rule refl)
  qed
qed

text \<open>The whole copy.\<close>

lemma copy_data_section_effect:
  fixes s :: "'a machine_scheme" and size' :: u64
  assumes "dest \<noteq> src" and "0 < unat size'" and "unat size' < 2 ^ 31" and "length size_str = 16"
    and "region dest (unat size') \<inter> region src (unat size') = {}" and "region (sp - 32) 32 \<inter> region src (unat size') = {}"
  shows "\<exists>t. copy_data_section sp lr size_str dest src size' s = Some (lr, t)
    \<and> (\<forall>i < unat size'. mem t (dest + of_nat i) = mem s (src + of_nat i))
    \<and> (\<forall>y. y \<notin> region dest (unat size') \<longrightarrow> y \<notin> region (sp - 32) 32 \<longrightarrow> mem t y = mem s y)
    \<and> (\<exists>m u. t = s\<lparr>mem := m, uart := u\<rparr>)
    \<and> tx_out (uart t) = tx_out (uart s) @ map ucast (string_bytes ''[BOOT] Copying section: ''
        @ dec_bytes (unat size') @ string_bytes '' bytes\<newline>'')"
proof -
  let ?n = "unat size'"
  obtain u where u: "boot_debug_copy dest src size' size_str (uart s) = Some u"
      "tx_out u = tx_out (uart s) @ map ucast (string_bytes ''[BOOT] Copying section: ''
        @ dec_bytes ?n @ string_bytes '' bytes\<newline>'')"
    using boot_debug_copy_out [OF assms(3,4)] by blast
  define m2 where "m2 = stp size' lr (sp - 16 - 16) (stp dest src (sp - 16) (mem s))"
  note P = pushed_words [where ?x2.0 = size' and ?x30.0 = lr and sp = sp and ?x0.0 = dest and ?x1.0 = src and m = "mem s", folded m2_def]
  define t where "t = s\<lparr>mem := memcpy_loop m2 dest src ?n, uart := u\<rparr>"
  have "size' \<noteq> 0" using assms(2) by auto
  moreover have "copy_byte_loop m2 dest src size' = memcpy_loop m2 dest src ?n"
    using copy_byte_loop_memcpy [OF assms(2), of m2 dest src] assms(3) by simp
  ultimately have c: "copy_data_section sp lr size_str dest src size' s = Some (lr, t)"
    unfolding copy_data_section_def Let_def m2_def [symmetric] P(1-4) t_def using assms(1) u(1) by simp
  have "mem t (dest + of_nat i) = mem s (src + of_nat i)" if i: "i < ?n" for i
  proof -
    have "mem t (dest + of_nat i) = m2 (src + of_nat i)"
      unfolding t_def using memcpy_loop_inside [OF assms(5) i, of m2] assms(3) by simp
    moreover have "src + of_nat i \<in> region src ?n" using i assms(3) by (intro in_region_offset) simp_all
    then have "src + of_nat i \<notin> region (sp - 32) 32" using assms(6) by blast
    ultimately show ?thesis using P(5) by simp
  qed
  moreover have "mem t y = mem s y" if "y \<notin> region dest ?n" "y \<notin> region (sp - 32) 32" for y
    using memcpy_loop_outside [OF that(1), of m2 src] assms(3) P(5) [OF that(2)] by (simp add: t_def)
  ultimately show ?thesis using c u(2) by (intro exI [of _ t]) (auto simp: t_def)
qed

section \<open>What clearing does\<close>

lemma region_zero_step:
  assumes "k < 2 ^ 61"
  shows "y \<in> region a (8 * Suc k) \<longleftrightarrow> y \<in> region a 8 \<or> y \<in> region (a + 8) (8 * k)"
proof -
  have "y \<in> region (a + 8) (8 * k) \<longleftrightarrow> 8 \<le> unat (y - a) \<and> unat (y - a) < 8 + 8 * k"
    using in_region_off [of 8 "8 * k" y a] assms by simp
  then show ?thesis by (auto simp: region_def)
qed

lemma store_zero: "n \<le> 8 \<Longrightarrow> store m a n 0 y = (if y \<in> region a n then 0 else m y)"
proof (induction n arbitrary: a m)
  case (Suc n)
  have "region a (Suc n) = insert a (region (a + 1) n)" using Suc.prems by (intro region_Suc) simp
  then show ?case using Suc by auto
qed simp

lemma clear_bss_loop_zero:
  "0 < k \<Longrightarrow> k < 2 ^ 61 \<Longrightarrow>
   clear_bss_loop m a (of_nat (8 * k)) = Some (\<lambda>y. if y \<in> region a (8 * k) then 0 else m y)"
proof (induction k arbitrary: m a)
  case (Suc k)
  let ?m = "store64 m a 0"
  have st: "?m y = (if y \<in> region a 8 then 0 else m y)" for y by (rule store_zero) simp
  have d: "of_nat (8 * Suc k) - 8 = (of_nat (8 * k) :: u64)" by (simp add: algebra_simps)
  show ?case
  proof (cases "k = 0")
    case True
    then show ?thesis using st by (subst clear_bss_loop.simps) (auto simp: fun_eq_iff simp del: store.simps)
  next
    case False
    then have "(of_nat (8 * k) :: u64) \<noteq> 0" using Suc.prems(2) of_nat64_inject [of "8 * k" 0] by simp
    then have "clear_bss_loop m a (of_nat (8 * Suc k)) = clear_bss_loop ?m (a + 8) (of_nat (8 * k))"
      unfolding clear_bss_loop.simps [of m a] Let_def d by (simp only: if_True not_False_eq_True)
    also have "\<dots> = Some (\<lambda>y. if y \<in> region (a + 8) (8 * k) then 0 else ?m y)"
      using Suc False by (intro Suc.IH) auto
    also have "(\<lambda>y. if y \<in> region (a + 8) (8 * k) then 0 else ?m y) = (\<lambda>y. if y \<in> region a (8 * Suc k) then 0 else m y)"
      using region_zero_step [of k _ a] Suc.prems(2) st by (auto simp: fun_eq_iff simp del: store.simps)
    finally show ?thesis .
  qed
qed simp

text \<open>A size that is no multiple of eight is never counted down to 0.\<close>

lemma clear_bss_loop_returns:
  assumes "clear_bss_loop m a n = Some m'"
  shows "8 dvd unat n"
proof (rule clear_bss_loop.raw_induct [OF _ assms])
  fix f :: "memory \<Rightarrow> addr \<Rightarrow> u64 \<Rightarrow> memory option" and m a n m'
  assume IH: "\<And>m a n m'. f m a n = Some m' \<Longrightarrow> 8 dvd unat n"
    and r: "(let m1 = store64 m a 0; x1' = n - 8 in if x1' \<noteq> 0 then f m1 (a + 8) x1' else Some m1) = Some m'"
  have "8 dvd unat (n - 8)"
  proof (cases "n - 8 = 0")
    case False
    then show ?thesis using r IH by (simp add: Let_def del: store.simps)
  qed simp
  moreover have "unat (n - 8 + 8) = (unat (n - 8) + 8) mod 2 ^ 64" by (simp only: unat_word_ariths) simp
  ultimately have "8 dvd unat (n - 8 + 8)" by (simp add: dvd_mod)
  then show "8 dvd unat n" by simp
qed

text \<open>The bytes from one symbol up to another.\<close>

definition between :: "addr \<Rightarrow> addr \<Rightarrow> addr set" where
  "between a b = {y. a \<le> y \<and> y < b}"

lemma between_region: "a \<le> b \<Longrightarrow> between a b = region a (unat (b - a))"
proof -
  assume ab: "a \<le> b"
  then have "unat (b - a) = unat b - unat a" by (rule unat_diff_le)
  moreover from this have "unat a + unat (b - a) \<le> 2 ^ 64" using ab unat_lt64 [of b] by (simp add: word_le_nat_alt)
  ultimately show ?thesis using ab by (auto simp: between_def in_region_nat word_le_nat_alt word_less_nat_alt)
qed

lemma clear_bss_effect:
  fixes s :: "'a shell_scheme"
  assumes "sym_bss_start ls \<le> sym_bss_end ls" and "8 dvd unat (sym_bss_start ls)" and "8 dvd unat (sym_bss_end ls)"
  shows "\<exists>t m. clear_bss ls s = Some t \<and> t = (if sym_bss_start ls = sym_bss_end ls then s else zero_globals (s\<lparr>mem := m\<rparr>))
    \<and> (\<forall>y. mem t y = (if y \<in> between (sym_bss_start ls) (sym_bss_end ls) then 0 else mem s y))"
proof (cases "sym_bss_start ls = sym_bss_end ls")
  case True
  then show ?thesis by (auto simp: clear_bss_def between_def)
next
  case False
  let ?n = "sym_bss_end ls - sym_bss_start ls"
  have u: "unat ?n = unat (sym_bss_end ls) - unat (sym_bss_start ls)" by (rule unat_diff_le [OF assms(1)])
  then have "8 dvd unat ?n" using assms(2,3) by simp
  then obtain k where k: "unat ?n = 8 * k" by blast
  have "?n \<noteq> 0" using False by simp
  then have k0: "0 < k" using k by (metis mult_0_right not_gr_zero unat_eq_zero)
  have "8 * k < 2 ^ 64" using unat_lt64 [of ?n] k by simp
  then have k1: "k < 2 ^ 61" by simp
  have n: "?n = of_nat (8 * k)" unfolding k [symmetric] by simp
  let ?m = "\<lambda>y. if y \<in> region (sym_bss_start ls) (8 * k) then 0 else mem s y"
  have "clear_bss_loop (mem s) (sym_bss_start ls) ?n = Some ?m" unfolding n by (rule clear_bss_loop_zero [OF k0 k1])
  then have "clear_bss ls s = Some (zero_globals (s\<lparr>mem := ?m\<rparr>))" using False by (simp add: clear_bss_def Let_def)
  then show ?thesis
    using False unfolding between_region [OF assms(1)] k by (intro exI [of _ "zero_globals (s\<lparr>mem := ?m\<rparr>)"] exI [of _ ?m])
      (simp add: zero_globals_def)
qed

section \<open>The way to the kernel\<close>

lemma el1_bit: "drop_bit 2 (4 :: u64) = 1" "drop_bit 2 (8 :: u64) \<noteq> 1"
  by simp_all

lemma primary_core_effect:
  fixes s :: "'a shell_scheme"
  assumes "bss_aligned secs" and "image_room secs \<le> 0x3ff00000" and el: "b_current_el c \<in> {4, 8}"
  defines "ls \<equiv> linker_script secs"
  shows "\<exists>c' t m. primary_core ls lab size_str c s = Some (c', t) \<and> b_current_el c' = 4
    \<and> b_vbar_el1 c' = lab_exception_vector_table lab \<and> b_cpacr_el1 c' = 0x300000
    \<and> cur_sp c' = (if b_current_el c = 4 then sym_stack_top ls else b_sp_el1 c)
    \<and> b_daif c' = (if b_current_el c = 4 then b_daif c else 0x3c0)
    \<and> t = (if sym_bss_start ls = sym_bss_end ls then s else zero_globals (s\<lparr>mem := m\<rparr>))
    \<and> (\<forall>y. mem t y = (if y \<in> between (sym_bss_start ls) (sym_bss_end ls) then 0 else mem s y))"
proof -
  note L = linked_image [OF assms(1,2), folded ls_def]
  have b: "sym_bss_start ls \<le> sym_bss_end ls" "8 dvd unat (sym_bss_start ls)" "8 dvd unat (sym_bss_end ls)"
    and ld: "sym_rodata_load ls = sym_rodata_start ls" "sym_data_load ls = sym_data_start ls"
    using L by (simp_all add: ordered_image_def)
  obtain t m where t: "clear_bss ls s = Some t" "t = (if sym_bss_start ls = sym_bss_end ls then s else zero_globals (s\<lparr>mem := m\<rparr>))"
      "\<forall>y. mem t y = (if y \<in> between (sym_bss_start ls) (sym_bss_end ls) then 0 else mem s y)"
    using clear_bss_effect [OF b, of s] by blast
  have cp: "copy_data_section sp lr size_str x x n s = Some (lr, s)" for sp lr x n by (simp add: copy_data_section_def)
  define c2 where "c2 = (set_cur_sp (sym_stack_top ls) c)\<lparr>b_vbar_el1 := lab_exception_vector_table lab\<rparr>"
  define c' where "c' = already_in_el1 (if b_current_el c = 4 then c2 else snd (drop_to_el1 lab c2))"
  have "primary_core ls lab size_str c s = Some (c', t)"
    using el t(1) unfolding primary_core_def ld cp Let_def c2_def [symmetric]
    by (auto simp: c'_def c2_def cp set_cur_sp_def drop_to_el1_def eret_el2_def Let_def)
  moreover have "b_current_el c' = 4 \<and> b_vbar_el1 c' = lab_exception_vector_table lab \<and> b_cpacr_el1 c' = 0x300000
      \<and> cur_sp c' = (if b_current_el c = 4 then sym_stack_top ls else b_sp_el1 c)
      \<and> b_daif c' = (if b_current_el c = 4 then b_daif c else 0x3c0)"
    using el by (auto simp: c'_def c2_def already_in_el1_def set_cur_sp_def drop_to_el1_def eret_el2_def cur_sp_def Let_def)
  ultimately show ?thesis using t(2,3) by (intro exI [of _ c'] exI [of _ t] exI [of _ m]) simp
qed

section \<open>From reset to power off\<close>

lemma between_image:
  assumes lay: "layout_ok ls (sym_kernel_start ls, sym_kernel_end ls)"
    and "sym_kernel_start ls \<le> a" and "b \<le> sym_pmm_bitmap_start ls"
  shows "between a b \<subseteq> kept_bytes ls (sym_kernel_start ls, sym_kernel_end ls)"
proof
  fix y assume y: "y \<in> between a b"
  have l: "unat (sym_pmm_bitmap_start ls) + 0x20000 = unat (sym_pmm_bitmap_end ls)" "sym_pmm_bitmap_end ls \<le> sym_kernel_end ls"
    using lay by (simp_all add: layout_ok_def)
  have lt: "unat y < unat (sym_pmm_bitmap_start ls)" "sym_kernel_start ls \<le> y"
    using y assms(2,3) by (auto simp: between_def word_le_nat_alt word_less_nat_alt)
  have "unat (sym_pmm_bitmap_start ls) + 0x20000 \<le> 2 ^ 64" using l(1) unat_lt64 [of "sym_pmm_bitmap_end ls"] by simp
  then have "y \<notin> region (sym_pmm_bitmap_start ls) 0x20000" using lt(1) by (simp add: in_region_nat)
  then show "y \<in> kept_bytes ls (sym_kernel_start ls, sym_kernel_end ls)"
    using lt l by (auto simp: kept_bytes_def image_bytes_def word_le_nat_alt word_less_nat_alt)
qed

text \<open>
  Where the strings of the shell are: the literals in read-only data, the command names in
  initialised data. The strings that \<open>kprintf\<close> may find behind the system call are below the
  RAM or in a part of the image that the kernel does not write.
\<close>

definition strings_placed :: "linker_syms \<Rightarrow> shell_env \<Rightarrow> bool" where
  "strings_placed ls env \<longleftrightarrow>
     region (env_space env) 2 \<union> region (env_exit env) 5 \<subseteq> between (sym_rodata_start ls) (sym_rodata_end ls)
     \<and> (\<forall>(a, xs) \<in> set (zip (env_names env) (map string_bytes cmd_names)).
          region a (Suc (length xs)) \<subseteq> between (sym_data_start ls) (sym_data_end ls))
     \<and> (\<forall>(a, xs) \<in> set (env_formats env). region a (Suc (length xs)) \<subseteq> {y. y < PMM_RAM_BASE}
          \<union> between (sym_kernel_start ls) (sym_bss_start ls) \<union> between (sym_bss_end ls) (sym_stack_bottom ls))"

lemma placed_bytes:
  assumes P: "strings_placed ls env" and ord: "ordered_image ls" and y: "y \<in> literal_bytes env"
  shows "y < PMM_RAM_BASE \<or> y \<in> between (sym_kernel_start ls) (sym_bss_start ls)
    \<or> y \<in> between (sym_bss_end ls) (sym_stack_bottom ls)"
proof -
  have o: "unat (sym_kernel_start ls) \<le> unat (sym_rodata_start ls)" "unat (sym_rodata_end ls) \<le> unat (sym_bss_start ls)"
      "unat (sym_kernel_start ls) \<le> unat (sym_data_start ls)" "unat (sym_data_end ls) \<le> unat (sym_bss_start ls)"
    using ord unfolding ordered_image_def word_le_nat_alt by linarith+
  have b: "z \<in> between (sym_kernel_start ls) (sym_bss_start ls)"
    if "z \<in> between (sym_rodata_start ls) (sym_rodata_end ls) \<or> z \<in> between (sym_data_start ls) (sym_data_end ls)" for z
    using that o by (auto simp: between_def word_le_nat_alt word_less_nat_alt)
  obtain a xs where a: "(a, xs) \<in> set (literals env)" "y \<in> region a (Suc (length xs))"
    using y by (auto simp: literal_bytes_def)
  consider "y \<in> region (env_space env) 2 \<union> region (env_exit env) 5"
    | "(a, xs) \<in> set (zip (env_names env) (map string_bytes cmd_names))" | "(a, xs) \<in> set (env_formats env)"
    using a by (auto simp: literals_def string_bytes_def eval_nat_numeral)
  then show ?thesis
  proof cases
    case 1
    then show ?thesis using P b by (auto simp: strings_placed_def)
  next
    case 2
    then have "y \<in> between (sym_data_start ls) (sym_data_end ls)" using P a(2) by (auto simp: strings_placed_def)
    then show ?thesis using b by blast
  next
    case 3
    then show ?thesis using P a(2) by (auto simp: strings_placed_def)
  qed
qed

text \<open>They survive the boot code and the initialisation, and lie outside the stack.\<close>

lemma placed_strings:
  assumes P: "strings_placed ls env" and ord: "ordered_image ls"
    and lay: "layout_ok ls (sym_kernel_start ls, sym_kernel_end ls)" and y: "y \<in> literal_bytes env"
  shows "y \<notin> between (sym_bss_start ls) (sym_bss_end ls)" and "y \<notin> between (sym_stack_bottom ls) (sym_stack_top ls)"
    and "y \<in> kept_bytes ls (sym_kernel_start ls, sym_kernel_end ls)"
proof -
  note b = placed_bytes [OF P ord y]
  have o: "unat (sym_kernel_start ls) \<le> unat (sym_bss_start ls)" "unat (sym_bss_start ls) \<le> unat (sym_bss_end ls)"
      "unat (sym_bss_end ls) \<le> unat (sym_stack_bottom ls)" "unat (sym_stack_bottom ls) \<le> unat (sym_pmm_bitmap_start ls)"
      "unat (sym_bss_start ls) \<le> unat (sym_pmm_bitmap_start ls)" "unat (sym_kernel_start ls) \<le> unat (sym_bss_end ls)"
    using ord unfolding ordered_image_def word_le_nat_alt by linarith+
  have r: "0x40000000 \<le> unat (sym_kernel_start ls)" using lay by (simp add: layout_ok_def word_le_nat_alt)
  show "y \<notin> between (sym_bss_start ls) (sym_bss_end ls)" "y \<notin> between (sym_stack_bottom ls) (sym_stack_top ls)"
    using b o r by (auto simp: between_def word_le_nat_alt word_less_nat_alt)
  have "between (sym_kernel_start ls) (sym_bss_start ls) \<union> between (sym_bss_end ls) (sym_stack_bottom ls)
      \<subseteq> kept_bytes ls (sym_kernel_start ls, sym_kernel_end ls)"
    using o by (intro Un_least between_image [OF lay]) (simp_all add: word_le_nat_alt)
  then show "y \<in> kept_bytes ls (sym_kernel_start ls, sym_kernel_end ls)" using b by (auto simp: kept_bytes_def)
qed

lemma boot_session:
  fixes s :: "'a shell_scheme" and env_at :: "addr \<Rightarrow> shell_env"
  assumes secs: "bss_aligned secs" "image_room secs \<le> 0x3ff00000" "ls = linker_script secs"
    and core: "b_mpidr_el1 c AND 0xFF = 0" "b_current_el c = 4"
    and image: "frame_bitmap s = sym_pmm_bitmap_start ls" "env = env_at (sym_stack_top ls)" "shell_ok env (mem s)"
      "strings_placed ls env"
      "stack_bytes env sp \<subseteq> between (sym_stack_bottom ls) (sym_stack_top ls)"
    and sp: "\<forall>u. at_svc env sp (regs_at (sym_stack_top ls) u)" "\<forall>c. cpu_sp (body c) = cpu_sp c"
    and input: "rx_bytes (uart s) = typed lines rest" "\<forall>l \<in> set lines. session_line l" "session_pages lines \<le> 123"
    and psci: "\<forall>u. psci 0x84000008 u = None"
  shows "\<exists>t. boot ls lab size_str body regs_at env_at psci c s = Some (Powered_Off t)
    \<and> rx_bytes (uart t) = rest \<and> kheap_inv t"
proof -
  note L = linked_image [OF secs(1,2), folded secs(3)]
  have lay: "layout_ok ls (sym_kernel_start ls, sym_kernel_end ls)" and ord: "ordered_image ls"
    and ks: "sym_kernel_start ls = 0x40080000" using L by blast+
  have el: "b_current_el c \<in> {4, 8}" using core(2) by simp
  obtain c' t0 m where st: "primary_core ls lab size_str c s = Some (c', t0)" "cur_sp c' = sym_stack_top ls"
      "t0 = (if sym_bss_start ls = sym_bss_end ls then s else zero_globals (s\<lparr>mem := m\<rparr>))"
      "\<forall>y. mem t0 y = (if y \<in> between (sym_bss_start ls) (sym_bss_end ls) then 0 else mem s y)"
    using primary_core_effect [OF secs(1,2) el, folded secs(3), of lab size_str s] core(2) by auto
  note S = placed_strings [OF image(4) ord lay]
  have ord': "sym_kernel_start ls \<le> sym_stack_bottom ls" "sym_stack_top ls \<le> sym_pmm_bitmap_start ls"
    using ord unfolding ordered_image_def word_le_nat_alt by linarith+
  have lit: "mem t0 y = mem s y" if "y \<in> literal_bytes env" for y using S(1) [OF that] st(4) by simp
  have ok: "shell_ok env (mem t0)" by (rule shell_ok_cong [OF image(3) lit])
  have fb: "frame_bitmap t0 = sym_pmm_bitmap_start ls" "rx_bytes (uart t0) = typed lines rest"
    using st(3) image(1) input(1) by (simp_all add: zero_globals_def)
  have kb: "kernel_bounds ls None = (sym_kernel_start ls, sym_kernel_end ls)" by (simp add: kernel_bounds_def)
  have low: "0x40000000 + 4096 * (5 + session_pages lines) \<le> unat (sym_kernel_start ls)" using input(3) by (simp add: ks)
  have img: "stack_bytes env sp \<union> literal_bytes env \<subseteq> kept_bytes ls (sym_kernel_start ls, sym_kernel_end ls)"
    using image(5) between_image [OF lay ord'] S(3) by blast
  have "stack_bytes env sp \<inter> literal_bytes env = {}" using image(5) S(2) by blast
  then have sep: "region (sp - 288) 288 \<inter> literal_bytes env = {}" by (auto simp: stack_bytes_def)
  show ?thesis
    using kernel_session [where regs_at = "regs_at (sym_stack_top ls)" and psci = psci and body = body, OF lay kb fb(1) low ok img sep sp fb(2) input(2) psci] st(1,2) core(1) image(2)
    by (simp add: boot_def start_def)
qed

section \<open>Theorems\<close>

text \<open>
  C13. From reset to \<open>kernel_main\<close>, on an image that the linker script lays out. A core with a
  number other than 0 is parked. Core 0 enters \<open>kernel_main\<close> at EL1, with the vector table
  and the floating-point unit set up, BSS zero and all other memory as it was loaded.
  Started at EL1 it has its stack at \<open>_stack_top\<close>; started at EL2, the stack pointer was set
  for EL2, and \<open>kernel_main\<close> runs with whatever \<open>SP_EL1\<close> held at reset.
\<close>

theorem boot_enters_kernel:
  fixes s :: "'a shell_scheme"
  assumes "bss_aligned secs" and "image_room secs \<le> 0x3ff00000" and "b_current_el c \<in> {4, 8}"
  defines "ls \<equiv> linker_script secs"
  shows "(b_mpidr_el1 c AND 0xFF \<noteq> 0 \<longrightarrow> start ls lab size_str c s = Some (Parked s))
    \<and> (b_mpidr_el1 c AND 0xFF = 0 \<longrightarrow>
        (\<exists>c' t m. start ls lab size_str c s = Some (Kernel_Main c' t) \<and> b_current_el c' = 4
          \<and> b_vbar_el1 c' = lab_exception_vector_table lab \<and> b_cpacr_el1 c' = 0x300000
          \<and> cur_sp c' = (if b_current_el c = 4 then sym_stack_top ls else b_sp_el1 c)
          \<and> b_daif c' = (if b_current_el c = 4 then b_daif c else 0x3c0)
          \<and> t = (if sym_bss_start ls = sym_bss_end ls then s else zero_globals (s\<lparr>mem := m\<rparr>))
          \<and> (\<forall>y. mem t y = (if y \<in> between (sym_bss_start ls) (sym_bss_end ls) then 0 else mem s y))))"
  using primary_core_effect [OF assms(1-3), folded ls_def, of lab size_str s] by (fastforce simp: start_def)

definition reset_cpu :: boot_cpu where
  "reset_cpu = \<lparr>b_mpidr_el1 = 0x80000000, b_current_el = 8, b_daif = 0x3c0, b_sp_el1 = 0, b_sp_el2 = 0,
     b_vbar_el1 = 0, b_cpacr_el1 = 0, b_cnthctl_el2 = 0, b_cntvoff_el2 = 0, b_hcr_el2 = 0, b_spsr_el2 = 0, b_elr_el2 = 0\<rparr>"

definition image_labels :: boot_labels where
  "image_labels = \<lparr>lab_exception_vector_table = 0x40084800, lab_already_in_el1 = 0x400800a8,
     lab_after_rodata = 0x40080034, lab_after_data = 0x40080048\<rparr>"

theorem boot_enters_kernel_witness:
  "\<exists>c' t. start image_syms image_labels (replicate 16 0) reset_cpu demo_machine = Some (Kernel_Main c' t)
     \<and> b_current_el c' = 4 \<and> b_vbar_el1 c' = 0x40084800 \<and> cur_sp c' = 0"
proof -
  have e: "b_current_el reset_cpu \<in> {4, 8}" by (simp add: reset_cpu_def)
  from boot_enters_kernel [OF image_sections_ok e, of image_labels "replicate 16 0" demo_machine, unfolded image_linked]
  show ?thesis by (auto simp: reset_cpu_def image_labels_def)
qed

text \<open>
  C23. The loop that clears BSS returns exactly when the size is a multiple of eight, which the
  linker script ensures; then it zeroes exactly that many bytes. For any other size it runs
  over all of memory for ever.
\<close>

theorem clear_bss_loop_correct:
  assumes "x1 \<noteq> 0"
  shows "clear_bss_loop m x0 x1 =
    (if 8 dvd unat x1 then Some (\<lambda>y. if y \<in> region x0 (unat x1) then 0 else m y) else None)"
proof (cases "8 dvd unat x1")
  case True
  then obtain k where k: "unat x1 = 8 * k" by blast
  have "0 < k" using assms k by (metis mult_0_right not_gr_zero unat_eq_zero)
  moreover have "k < 2 ^ 61" using unat_lt64 [of x1] k by simp
  ultimately have "clear_bss_loop m x0 (of_nat (8 * k)) = Some (\<lambda>y. if y \<in> region x0 (8 * k) then 0 else m y)"
    by (rule clear_bss_loop_zero)
  then show ?thesis using True k by (metis of_nat_unat ucast_id)
next
  case False
  then show ?thesis using clear_bss_loop_returns by (metis not_None_eq)
qed

theorem clear_bss_loop_correct_witness:
  "clear_bss_loop (mem demo_machine) 0x400867a8 0xb8 \<noteq> None \<and> clear_bss_loop (mem demo_machine) 0x400867a8 0xb9 = None"
  using clear_bss_loop_correct [of "0xb8" "mem demo_machine" "0x400867a8"]
    clear_bss_loop_correct [of "0xb9" "mem demo_machine" "0x400867a8"] by simp

text \<open>
  C24. Copying a section of less than 2 GB from its load address to a place that overlaps
  neither it nor the stack: the section arrives byte for byte, its size goes to the console
  in decimal, the call returns to its caller, and no other memory changes but the 32 bytes
  below the stack pointer (and the frame of the C function, which is not part of the model).
\<close>

theorem copy_data_section_correct:
  fixes s :: "'a machine_scheme" and size' :: u64
  assumes "dest \<noteq> src" and "0 < unat size'" and "unat size' < 2 ^ 31" and "length size_str = 16"
    and "region dest (unat size') \<inter> region src (unat size') = {}" and "region (sp - 32) 32 \<inter> region src (unat size') = {}"
  shows "\<exists>t. copy_data_section sp lr size_str dest src size' s = Some (lr, t)
    \<and> (\<forall>i < unat size'. mem t (dest + of_nat i) = mem s (src + of_nat i))
    \<and> (\<forall>y. y \<notin> region dest (unat size') \<longrightarrow> y \<notin> region (sp - 32) 32 \<longrightarrow> mem t y = mem s y)
    \<and> (\<exists>m u. t = s\<lparr>mem := m, uart := u\<rparr>)
    \<and> tx_out (uart t) = tx_out (uart s) @ map ucast (string_bytes ''[BOOT] Copying section: ''
        @ dec_bytes (unat size') @ string_bytes '' bytes\<newline>'')"
  using assms by (rule copy_data_section_effect)

theorem copy_data_section_correct_witness:
  "\<exists>t. copy_data_section 0x40096f40 0x40080034 (replicate 16 7) 0x40000000 0x40086720 8 demo_machine = Some (0x40080034, t)
     \<and> mem t 0x40000002 = 108"
proof -
  have r: "region 0x40000000 (unat (8 :: u64)) \<inter> region 0x40086720 (unat (8 :: u64)) = {}"
    "region (0x40096f40 - 32) 32 \<inter> region 0x40086720 (unat (8 :: u64)) = {}"
    by (rule disjoint_regions_inter; simp add: disjoint_regions_def)+
  have h: "(0x40000000 :: addr) \<noteq> 0x40086720" "0 < unat (8 :: u64)" "unat (8 :: u64) < 2 ^ 31"
    "length (replicate 16 (7 :: byte)) = 16" by simp_all
  from copy_data_section_correct [OF h r, of "0x40080034" demo_machine] obtain t where
    t: "copy_data_section 0x40096f40 0x40080034 (replicate 16 7) 0x40000000 0x40086720 8 demo_machine = Some (0x40080034, t)"
      "\<forall>i < unat (8 :: u64). mem t (0x40000000 + of_nat i) = mem demo_machine (0x40086720 + of_nat i)" by blast
  have "mem demo_machine 0x40086722 = 108" by (simp add: demo_machine_def image_pieces_def string_bytes_def)
  then show ?thesis using spec [OF t(2), of 2] t(1) by simp
qed

end
