(* ===== verification/Spec2Isabelle.thy ===== *)
theory Spec2Isabelle
  imports Kheap_Defects Boot
begin

text \<open>
  Verification of the SolaceOS kernel, an educational operating system for AArch64 on the
  QEMU virt machine (\<^verbatim>\<open>src/\<close>).

  \<^bold>\<open>The program.\<close> \<^verbatim>\<open>boot/boot.S\<close> parks all cores but one, moves sections to the addresses
  that \<^verbatim>\<open>linker.ld\<close> gives them, clears BSS, drops to EL1 and calls \<open>kernel_main\<close>;
  \<^verbatim>\<open>boot/kernel.c\<close> starts the physical memory manager
  (\<^verbatim>\<open>memory/frame_alloc.c\<close>, a bitmap of 4 KB frames), the kernel heap on top of it
  (\<^verbatim>\<open>memory/kheap.c\<close>, a first-fit free list with splitting and coalescing), a console
  fallback of a text user interface (\<^verbatim>\<open>ui/tui.c\<close>) and the shell
  (\<^verbatim>\<open>shell/shell.c\<close>). The shell reads lines through \<^verbatim>\<open>lib/stdio.c\<close> and
  \<^verbatim>\<open>lib/uart.c\<close>, splits them with \<^verbatim>\<open>lib/string.c\<close>, parses numbers with
  \<^verbatim>\<open>lib/stdlib_stubs.c\<close>, and runs commands that inspect and change memory and call
  the heap. Before each line it makes a system call, which passes through the exception
  entry (\<^verbatim>\<open>exceptions/exceptions_asm.S\<close>), the handlers (\<^verbatim>\<open>exceptions/exceptions.c\<close>)
  and \<^verbatim>\<open>syscall/syscall.c\<close>. That handler advances the return address although it already
  points behind the \<open>svc\<close>; the shell resumes one instruction late, in the middle of the call
  of \<open>kprintf("")\<close>, with whatever format address the registers then hold.

  \<^bold>\<open>State.\<close> One flat memory from 64-bit addresses to bytes holds everything that the code
  reaches through pointers: the frame bitmap, heap headers and data, strings, the line
  buffer and the saved registers. Scalar globals are fields of records that extend each
  other as the components build on each other: \<open>machine\<close> (memory and UART), \<open>pmm\<close>, \<open>kheap\<close>,
  \<open>shell\<close>. Integers are words of their width and wrap around. A pointer is an address, and
  null is 0.

  \<^bold>\<open>Theories, in the order of their imports.\<close>
  \<^item> \<open>Prelude\<close>: words, regions, little-endian loads and stores, and the lemmas on them.
  \<^item> \<open>Uart\<close>: the driver (\<open>uart_init\<close>, \<open>uart_putc\<close>, \<open>uart_getc\<close>) on a model of the PL011
    registers: a transmit FIFO that is full for a while and loses what is written to it then,
    words that arrive after delays, and a receive register that repeats an old word when it is
    read too early.
  \<^item> \<open>Stdio\<close>: \<open>kprintf\<close> with its 1024-byte buffer (\<open>kprintf_loop\<close>, \<open>convert\<close>), \<open>kgetc_blocking\<close>.
    The output equals the reference \<open>render\<close> cut at the buffer's end, and reaches the line
    complete; every number conversion prints the digits of its value; well-formed calls stay
    inside buffer, format and arguments; the blocking read returns the first byte that is
    not NUL and waits exactly when there is none.
  \<^item> \<open>CString\<close>: the string functions; \<open>cstr m a xs\<close> says that \<open>xs\<close> lies at \<open>a\<close>. Comparison is
    the lexicographic order of the bytes, up to the limit for \<open>strncmp\<close>, \<open>memcpy\<close> copies a string and nothing else, and
    \<open>tokens\<close> is the reference for \<open>strtok\<close>.
  \<^item> \<open>Stdlib_Stubs\<close>: \<open>simple_strtoull\<close> gives the value of a digit string clipped to 64 bits,
    and reads back what \<open>kprintf\<close> prints.
  \<^item> \<open>Frame_Alloc\<close>: the frame allocator. \<open>pmm_inv\<close> ties the counter of free memory to the
    bitmap; \<open>alloc_frame\<close> hands out the lowest free frame, zeroed, \<open>free_frame\<close> undoes it. The
    locale \<open>frame_supply\<close> is what the heap relies on. \<open>Frame_Alloc_Writes\<close>: initialisation writes
    the bitmap and nothing else.
  \<^item> \<open>Linker\<close>: the location counter of the linker script at each symbol, and that any image that
    fits gets the layout \<open>layout_ok\<close> and \<open>ordered_image\<close>; the script applied to the section sizes
    of the built image gives its symbols.
  \<^item> \<open>Kheap\<close>: the heap as the code has it. \<open>Kheap_View\<close> and \<open>Kheap_Inv\<close>: the blocks as a map of
    headers, their tiling of the heap and the free list as invariants, and the steps on the
    map that the pointer operations implement. \<open>Kheap_Alloc\<close>, \<open>Kheap_Grow\<close>, \<open>Kheap_Spec\<close>:
    search, split, expansion, and the contracts of \<open>kmalloc\<close> and \<open>kfree\<close> in terms of \<open>live\<close>, the
    allocated blocks with their sizes. \<open>Kheap_Correct\<close>: the locale \<open>allocator\<close>, its
    interpretation by the heap, the theorems. \<open>Kheap_Zone\<close>: the memory the allocators may
    write, as the locale \<open>zoned_allocator\<close> that extends it, and that the blocks of every history
    of calls are disjoint. \<open>Kheap_Defects\<close>: inputs on which
    the code departs from what its comments promise.
  \<^item> \<open>Exceptions\<close>: the vector table and where its entries lead, save and restore of the
    registers, the handlers, the system call.
  \<^item> \<open>Shell\<close>: the shell as the code has it. \<open>Shell_Parse\<close> and \<open>Shell_Line\<close>: the line editor
    against the reference \<open>edit\<close>, the splitting of a line in place. \<open>Shell_Run\<close>: a line is
    handled as the reference \<open>dispatch\<close> says. \<open>Shell_Commands\<close>: the address check and the
    commands. \<open>Shell_Ready\<close>: the state \<open>ready\<close> between two lines and what keeps it, and what the
    system call and the call behind it do (\<open>at_svc\<close>).
    \<open>Shell_Session\<close>: the abstract specification of the commands (\<open>request\<close>, \<open>user_step\<close>) on the
    set of allocated blocks, the refinement of an iteration of the loop to it, and sessions.
  \<^item> \<open>Tui\<close>, \<open>Kernel\<close>: the user interface fallback, early messages, power off and \<open>kernel_main\<close>.
    \<open>Kernel_Boot\<close>: the state in which the shell starts, and a concrete machine with the symbols,
    strings and stack layout of the built image.
  \<^item> \<open>Boot\<close>: the boot code on a record of the system registers; the state in which it enters
    \<open>kernel_main\<close> from EL1 and from EL2, the loops that copy sections and clear BSS.
  \<^item> This theory: the whole kernel, from reset to power off.

  \<^bold>\<open>Loops.\<close> No fuel is used. Loops that always end are functions with a termination proof.
  Loops that may run forever (waiting for input, walking a list or a string, the shell
  itself) are partial functions into \<open>option\<close>, where \<open>None\<close> is a call that does not return, and
  the theorems state that they do return.

  \<^bold>\<open>Parameters.\<close> Sizes and alignments of the input sections of the linker, the addresses of the
  labels in the boot code (\<open>boot_labels\<close>), of the line buffer, the string literals and the
  command names (\<open>shell_env\<close>, \<open>shell_ok\<close>), the registers at a system call, what the compiled
  handlers leave in the registers (\<open>body\<close>: any values, but for the stack pointer), the format
  address that the compiled call behind the system call computes when its first instruction
  is skipped (\<open>env_partial\<close>) and the strings without conversions that lie at such addresses
  (\<open>env_formats\<close>), the contents of an uninitialised array (\<open>size_str\<close>), and the firmware
  behind the hypervisor call (\<open>psci\<close>; its power-off call does not return). The delays of the
  UART are part of its state.

  \<^bold>\<open>Not modelled.\<close> A start at EL3, for which the boot code has no case, and effects of the
  system registers other than exception level, interrupt masks and stack pointer. Loading of
  the image: that its literals and initialised variables are in memory is a hypothesis about
  the initial state. The stack of C frames
  other than the line buffer and the exception frame, so that a stack overflow is outside
  the model; accesses to addresses without memory, which would fault; interrupts in the
  middle of a function, since the boot code enters the kernel with interrupts masked; the
  bytes of the scalar globals and of the command table, which are fields of the records, so
  that a \<open>poke\<close> at their addresses changes the memory but not the fields; instructions other
  than those of the assembly files, with the exception of the one that a system call skips.
  A \<open>kprintf\<close> call that overruns its buffer, its format or its arguments is an error value of
  \<open>kprintf_buf\<close> and prints nothing. The Makefile builds and starts the image; \<^verbatim>\<open>test/\<close> holds
  assembly snippets that are not part of the kernel.
\<close>

section \<open>From reset to power off\<close>

text \<open>
  C1. The whole kernel, from reset. The image is what the linker script makes of any sections
  that fit; core 0 starts at EL1 with the image in memory, its string literals in read-only
  data, the names of the commands in initialised data and the frames of the shell on the
  stack; behind each system call, which resumes one instruction late, \<open>kprintf\<close> finds one of
  the known strings without conversions as its format; compiled handlers keep the stack
  pointer; the firmware powers the machine off when asked. When the user types a list of lines, each of them empty, an unknown command, one
  that only prints or \<open>alloc\<close> of a number, which together take no more pages than lie below
  the image, and then \<open>exit\<close>, then the boot code clears BSS and enters the kernel, the kernel
  initialises both memory managers, serves every line, reads no further, and powers the
  machine off with an intact heap.
\<close>

theorem boot_powers_off:
  fixes s :: "'a shell_scheme" and env_at :: "addr \<Rightarrow> shell_env"
  assumes "bss_aligned secs" and "image_room secs \<le> 0x3ff00000" and "ls = linker_script secs"
    and "b_mpidr_el1 c AND 0xFF = 0" and "b_current_el c = 4"
    and "frame_bitmap s = sym_pmm_bitmap_start ls" and "env = env_at (sym_stack_top ls)" and "shell_ok env (mem s)"
    and "strings_placed ls env"
    and "stack_bytes env sp \<subseteq> between (sym_stack_bottom ls) (sym_stack_top ls)"
    and "\<forall>u. at_svc env sp (regs_at (sym_stack_top ls) u)" and "\<forall>c. cpu_sp (body c) = cpu_sp c"
    and "rx_bytes (uart s) = typed lines rest" and "\<forall>l \<in> set lines. session_line l" and "session_pages lines \<le> 123"
    and "\<forall>u. psci 0x84000008 u = None"
  shows "\<exists>t. boot ls lab size_str body regs_at env_at psci c s = Some (Powered_Off t)
    \<and> rx_bytes (uart t) = rest \<and> kheap_inv t"
  using assms by (rule boot_session)

theorem boot_powers_off_witness:
  "\<exists>t. boot image_syms image_labels (replicate 16 0) id (\<lambda>_ _. demo_regs) (\<lambda>_. demo_env) (\<lambda>_ _. None)
       (reset_cpu\<lparr>b_current_el := 4\<rparr>) demo_machine = Some (Powered_Off t)
     \<and> rx_bytes (uart t) = [104] \<and> kheap_inv t"
proof -
  have c: "b_mpidr_el1 (reset_cpu\<lparr>b_current_el := 4\<rparr>) AND 0xFF = 0" "b_current_el (reset_cpu\<lparr>b_current_el := 4\<rparr>) = 4"
    by (simp_all add: reset_cpu_def)
  have b: "frame_bitmap demo_machine = sym_pmm_bitmap_start image_syms" by (simp add: demo_machine_def)
  have r: "region a n \<subseteq> between x y" if "unat x \<le> unat a" "unat a + n \<le> unat y" for a x y :: addr and n
    using that unat_lt64 [of y] by (auto simp: between_def in_region_nat word_le_nat_alt word_less_nat_alt)
  have lo: "region 0x680 1 \<subseteq> {y :: addr. y < PMM_RAM_BASE}"
    by (auto simp: in_region_nat word_less_nat_alt)
  have "region a (Suc (length xs)) \<subseteq> {y. y < PMM_RAM_BASE} \<union> between (sym_kernel_start image_syms) (sym_bss_start image_syms)
      \<union> between (sym_bss_end image_syms) (sym_stack_bottom image_syms)" if m: "(a, xs) \<in> set (env_formats demo_env)" for a xs
  proof -
    consider "a = 0x680" "xs = []" | "a = 0x40086e60" "length xs = 5" using m by (auto simp: demo_env_def)
    then show ?thesis
    proof cases
      case 1
      then show ?thesis using lo by auto
    next
      case 2
      then have "region a (Suc (length xs)) \<subseteq> between (sym_bss_end image_syms) (sym_stack_bottom image_syms)"
        by (intro r) (simp_all add: image_syms_def)
      then show ?thesis by blast
    qed
  qed
  moreover have "region a (Suc (length xs)) \<subseteq> between (sym_data_start image_syms) (sym_data_end image_syms)"
    if "(a, xs) \<in> set (zip (env_names demo_env) (map string_bytes cmd_names))" for a xs
    using that by (intro r) (auto simp: image_syms_def demo_env_def cmd_names_def string_bytes_def)
  moreover have "region (env_space demo_env) 2 \<union> region (env_exit demo_env) 5
      \<subseteq> between (sym_rodata_start image_syms) (sym_rodata_end image_syms)"
    by (intro Un_least r) (simp_all add: image_syms_def demo_env_def)
  ultimately have l: "strings_placed image_syms demo_env" unfolding strings_placed_def by blast
  have st: "stack_bytes demo_env 0x40096e20 \<subseteq> between (sym_stack_bottom image_syms) (sym_stack_top image_syms)"
    unfolding stack_bytes_def by (intro Un_least r) (simp_all add: image_syms_def demo_env_def)
  have p: "\<forall>u :: shell. (\<lambda>_ _. None) (0x84000008 :: u64) u = (None :: shell option)" by simp
  have n: "session_pages demo_lines \<le> 123" by (simp add: demo_session(1))
  show ?thesis
    by (rule boot_powers_off [where env_at = "\<lambda>_. demo_env" and regs_at = "\<lambda>_ _. demo_regs",
          OF image_sections_ok image_linked [symmetric] c b refl demo_shell_ok l st demo_svc demo_session(3,2) n p])
qed

end
